(* ===== verification/Prelude.thy ===== *)
theory Prelude
  imports Main "HOL-Library.Word"
begin

text \<open>
  Shared vocabulary of the development: the machine word types of the C sources, the error
  values a C execution can end in, the sum-typed sequencing operator that threads them, the
  32/32 packing of a 64-bit atomic word (control block, inner state and stack top all use it)
  and the generic lemmas and locales (\<open>packed_counter\<close>, \<open>inductive_invariant\<close>,
  \<open>simulation\<close>) the component theories build on.
\<close>

unbundle bit_operations_syntax

named_theorems code_defs \<open>definitions of C functions that the component proofs unfold\<close>
named_theorems const_defs \<open>the preprocessor constants of the sources\<close>
named_theorems inv_intros \<open>preservation lemmas of the component invariants\<close>

section \<open>Machine words and errors\<close>

type_synonym u8 = "8 word"
type_synonym u32 = "32 word"
type_synonym u64 = "64 word"

text \<open>
  An execution of a C function either returns or stops in one of these ways: undefined
  behaviour of the abstract machine (the first four), \<open>abort()\<close>, a failed \<open>assert\<close>,
  or \<open>exit(EXIT_FAILURE)\<close>.
\<close>

datatype cerror =
    Null_Deref
  | Out_Of_Bounds
  | Use_After_Free
  | Uninit_Read
  | Abort
  | Assert_Fail
  | Exit_Failure

type_synonym 'a result = "cerror + 'a"

definition bindE :: "'e + 'a \<Rightarrow> ('a \<Rightarrow> 'e + 'b) \<Rightarrow> 'e + 'b" where
  "bindE m f = (case m of Inl e \<Rightarrow> Inl e | Inr x \<Rightarrow> f x)"

lemma bindE_Inl [simp]: "bindE (Inl e) f = Inl e"
  by (simp add: bindE_def)

lemma bindE_Inr [simp]: "bindE (Inr x) f = f x"
  by (simp add: bindE_def)

lemma bindE_eq_Inr: "bindE m f = Inr y \<longleftrightarrow> (\<exists>x. m = Inr x \<and> f x = Inr y)"
  by (cases m) auto

lemma bindE_eq_Inl:
  "bindE m f = Inl e \<longleftrightarrow> m = Inl e \<or> (\<exists>x. m = Inr x \<and> f x = Inl e)"
  by (cases m) auto

lemma bindE_InrE [elim!]:
  assumes "bindE m f = Inr y"
  obtains x where "m = Inr x" and "f x = Inr y"
  using assms by (auto simp: bindE_eq_Inr)

lemma bindE_assoc: "bindE (bindE m f) g = bindE m (\<lambda>x. bindE (f x) g)"
  by (cases m) auto

lemma bindE_cong [fundef_cong]:
  "m = m' \<Longrightarrow> (\<And>x. m' = Inr x \<Longrightarrow> f x = f' x) \<Longrightarrow> bindE m f = bindE m' f'"
  by (cases m') auto

section \<open>Packing two 32-bit halves into a 64-bit word\<close>

definition pack32 :: "u32 \<Rightarrow> u32 \<Rightarrow> u64" where
  "pack32 hi lo = push_bit 32 (ucast hi) OR ucast lo"

definition hi32 :: "u64 \<Rightarrow> u32" where
  "hi32 w = ucast (drop_bit 32 w)"

definition lo32 :: "u64 \<Rightarrow> u32" where
  "lo32 w = ucast w"

lemma hi32_pack32 [simp]: "hi32 (pack32 h l) = h"
  unfolding hi32_def pack32_def
  by (rule bit_eqI) (auto simp: bit_simps dest: bit_imp_le_length)

lemma lo32_pack32 [simp]: "lo32 (pack32 h l) = l"
  unfolding lo32_def pack32_def
  by (rule bit_eqI) (auto simp: bit_simps)

lemma pack32_hi_lo [simp]: "pack32 (hi32 w) (lo32 w) = w"
  unfolding hi32_def lo32_def pack32_def
  by (rule bit_eqI) (auto simp: bit_simps)

lemma pack32_inject [simp]: "pack32 h l = pack32 h' l' \<longleftrightarrow> h = h' \<and> l = l'"
  by (metis hi32_pack32 lo32_pack32)

lemma pack32_cases:
  obtains h l where "w = pack32 h l"
  by (metis pack32_hi_lo)

lemma hi32_ucast [simp]: "hi32 (ucast (l::u32)) = 0"
  unfolding hi32_def
  by (rule bit_eqI) (auto simp: bit_simps dest: bit_imp_le_length)

lemma lo32_ucast [simp]: "lo32 (ucast (l::u32)) = l"
  unfolding lo32_def by (rule bit_eqI) (auto simp: bit_simps)

lemma ucast_eq_pack32: "(ucast (l::u32) :: u64) = pack32 0 l"
  by (simp add: pack32_def)

lemma pack32_0_0 [simp]: "pack32 0 0 = 0"
  by (simp add: pack32_def)

lemma hi32_0 [simp]: "hi32 0 = 0" and lo32_0 [simp]: "lo32 0 = 0"
  by (simp_all add: hi32_def lo32_def)

lemma pack32_add: "pack32 h l = push_bit 32 (ucast h) + ucast l"
  unfolding pack32_def
  by (rule disjunctive_add_eq_or [symmetric])
    (rule bit_eqI, auto simp: bit_simps dest: bit_imp_le_length)

lemma push_bit_ucast_add:
  "(push_bit 32 (ucast (a + b :: u32)) :: u64) = push_bit 32 (ucast a) + push_bit 32 (ucast b)"
proof -
  have "(ucast (a + b) :: u64) = take_bit 32 (ucast a + ucast b)"
    by transfer (simp add: take_bit_add)
  moreover have "push_bit 32 (take_bit 32 x) = push_bit 32 x" for x :: u64
    by (rule bit_eqI) (auto simp: bit_simps)
  ultimately show ?thesis
    by (simp add: push_bit_add)
qed

text \<open>Adding to the upper half never carries into, or borrows from, the lower half.\<close>

lemma pack32_plus_hi: "pack32 h l + push_bit 32 (ucast k) = pack32 (h + k) l"
  by (simp add: pack32_add push_bit_ucast_add algebra_simps)

lemma pack32_inc [simp]: "pack32 h l + 4294967296 = pack32 (h + 1) l"
  using pack32_plus_hi [of h l 1] by simp

lemma hi32_mask:
  "ucast (drop_bit 32 (w AND 0xFFFFFFFF00000000) :: u64) = hi32 w"
proof -
  have *: "(0xFFFFFFFF00000000 :: u64) = NOT (mask 32)"
    by (simp add: mask_eq_exp_minus_1)
  show ?thesis
    unfolding hi32_def * by (rule bit_eqI) (auto simp: bit_simps)
qed

lemma lo32_mask: "ucast (w AND 0x00000000FFFFFFFF :: u64) = lo32 w"
proof -
  have *: "(0x00000000FFFFFFFF :: u64) = mask 32"
    by (simp add: mask_eq_exp_minus_1)
  show ?thesis
    unfolding lo32_def * by (rule bit_eqI) (auto simp: bit_simps)
qed

lemma unat_ucast32 [simp]: "unat (ucast (x::u32) :: u64) = unat x"
proof -
  have "unat x < 2 ^ LENGTH(32)"
    by (rule unsigned_less)
  then show ?thesis
    by (simp add: unsigned_ucast_eq take_bit_nat_eq_self)
qed

lemma or_low_bits: "pack32 h l OR ucast k = pack32 h (l OR k)"
  unfolding pack32_def by (simp add: or.assoc unsigned_or_eq)

text \<open>
  The interface every \<open>[32-bit counter | 32-bit tag]\<close> word of the library offers: the two
  field readers, the constructor, and the increment constant that the code adds with
  \<open>atomic_fetch_add\<close>. The clients rely on the tag surviving every increment, however often
  the counter wraps.
\<close>

locale packed_counter =
  fixes mk :: "u32 \<Rightarrow> u32 \<Rightarrow> u64"
    and cnt :: "u64 \<Rightarrow> u32"
    and tag :: "u64 \<Rightarrow> u32"
    and inc :: u64
  assumes cnt_mk: "cnt (mk c t) = c"
    and tag_mk: "tag (mk c t) = t"
    and mk_eta: "mk (cnt w) (tag w) = w"
    and mk_inc: "mk c t + inc = mk (c + 1) t"
begin

lemma cnt_inc: "cnt (w + inc) = cnt w + 1"
  by (metis cnt_mk mk_eta mk_inc)

lemma tag_inc: "tag (w + inc) = tag w"
  by (metis tag_mk mk_eta mk_inc)

lemma mk_incs: "mk c t + of_nat n * inc = mk (c + of_nat n) t"
proof (induction n)
  case 0
  then show ?case by simp
next
  case (Suc n)
  have "mk c t + of_nat (Suc n) * inc = (mk c t + of_nat n * inc) + inc"
    by (simp add: algebra_simps)
  also have "\<dots> = mk (c + of_nat n + 1) t"
    by (simp add: Suc.IH mk_inc)
  finally show ?case
    by (simp add: algebra_simps)
qed

lemma cnt_incs: "cnt (w + of_nat n * inc) = cnt w + of_nat n"
  by (metis cnt_mk mk_eta mk_incs)

lemma tag_incs: "tag (w + of_nat n * inc) = tag w"
  by (metis tag_mk mk_eta mk_incs)

lemma word_eq_iff_fields: "w = w' \<longleftrightarrow> cnt w = cnt w' \<and> tag w = tag w'"
  by (metis mk_eta)

end

section \<open>Transition systems\<close>

text \<open>
  Concurrent executions are interleavings of atomic steps: a predicate on initial states and a
  step relation. An inductive invariant holds in every reachable state; a simulation carries
  reachability from a detailed system to its specification.
\<close>

inductive reach :: "('s \<Rightarrow> bool) \<Rightarrow> ('s \<Rightarrow> 's \<Rightarrow> bool) \<Rightarrow> 's \<Rightarrow> bool"
  for init :: "'s \<Rightarrow> bool" and step :: "'s \<Rightarrow> 's \<Rightarrow> bool" where
  reach_init: "init s \<Longrightarrow> reach init step s"
| reach_step: "reach init step s \<Longrightarrow> step s t \<Longrightarrow> reach init step t"

lemma reach_rtranclp: "reach init step s \<Longrightarrow> step\<^sup>*\<^sup>* s t \<Longrightarrow> reach init step t"
  by (rotate_tac, induction rule: rtranclp_induct) (auto intro: reach_step)

lemma rtranclp_steps3: "r a b \<Longrightarrow> r b c \<Longrightarrow> r c d \<Longrightarrow> r\<^sup>*\<^sup>* a d"
  by (meson rtranclp.rtrancl_into_rtrancl rtranclp.rtrancl_refl)

locale inductive_invariant =
  fixes init :: "'s \<Rightarrow> bool"
    and step :: "'s \<Rightarrow> 's \<Rightarrow> bool"
    and inv :: "'s \<Rightarrow> bool"
  assumes inv_init: "init s \<Longrightarrow> inv s"
    and inv_step: "inv s \<Longrightarrow> step s t \<Longrightarrow> inv t"
begin

lemma inv_reach: "reach init step s \<Longrightarrow> inv s"
  by (induction rule: reach.induct) (auto intro: inv_init inv_step)

lemma inv_steps: "step\<^sup>*\<^sup>* s t \<Longrightarrow> inv s \<Longrightarrow> inv t"
  by (induction rule: rtranclp_induct) (auto intro: inv_step)

end

locale simulation = inductive_invariant init step inv
  for init :: "'s \<Rightarrow> bool" and step :: "'s \<Rightarrow> 's \<Rightarrow> bool" and inv :: "'s \<Rightarrow> bool" +
  fixes ainit :: "'a \<Rightarrow> bool"
    and astep :: "'a \<Rightarrow> 'a \<Rightarrow> bool"
    and abs :: "'s \<Rightarrow> 'a"
  assumes abs_init: "init s \<Longrightarrow> ainit (abs s)"
    and abs_step: "inv s \<Longrightarrow> step s t \<Longrightarrow> astep (abs s) (abs t) \<or> abs t = abs s"
begin

lemma abs_reach: "reach init step s \<Longrightarrow> reach ainit astep (abs s)"
proof (induction rule: reach.induct)
  case (reach_init s)
  then show ?case by (intro reach.reach_init abs_init)
next
  case (reach_step s t)
  then show ?case
    using abs_step [OF inv_reach [OF reach_step.hyps(1)] reach_step.hyps(2)]
    by (auto intro: reach.reach_step)
qed

lemma abs_steps: "step\<^sup>*\<^sup>* s t \<Longrightarrow> inv s \<Longrightarrow> astep\<^sup>*\<^sup>* (abs s) (abs t)"
proof (induction rule: rtranclp_induct)
  case base
  then show ?case by simp
next
  case (step t u)
  then have "inv t" by (blast intro: inv_steps)
  with step abs_step [of t u] show ?case
    by (auto intro: rtranclp.rtrancl_into_rtrancl)
qed

end

end
