(* ===== verification/Handles.thy ===== *)
theory Handles
  imports Prelude
begin

text \<open>
  The bit layouts of \<open>atomsnap.c\<close>: its preprocessor constants, the 32-bit handle
  (\<open>union atomsnap_handle_t\<close>: 12-bit slot index below a 20-bit arena index), and the three
  64-bit atomic words \<open>[32-bit counter | 32-bit tag]\<close>: the gate's control block
  \<open>[RefCount | Handle]\<close>, a version's \<open>inner_state\<close> \<open>[Counter | Flags]\<close> and an arena's
  \<open>top_handle\<close> \<open>[Depth | Handle]\<close>. Each of the three is an interpretation of
  \<open>packed_counter\<close>.
\<close>

section \<open>Constants\<close>

definition PAGE_SIZE :: nat where [const_defs]: "PAGE_SIZE = 4096"
definition MAX_THREADS :: nat where [const_defs]: "MAX_THREADS = 1048576"
definition MAX_ARENAS :: nat where [const_defs]: "MAX_ARENAS = 1048576"
definition SLOTS_PER_ARENA :: nat where [const_defs]: "SLOTS_PER_ARENA = 3276"

definition HANDLE_SLOT_BITS :: nat where [const_defs]: "HANDLE_SLOT_BITS = 12"
definition HANDLE_ARENA_BITS :: nat where [const_defs]: "HANDLE_ARENA_BITS = 20"
definition HANDLE_NULL :: u32 where [const_defs]: "HANDLE_NULL = 0xFFFFFFFF"

definition HANDLE_MASK_32 :: u64 where [const_defs]: "HANDLE_MASK_32 = 0x00000000FFFFFFFF"
definition STACK_DEPTH_SHIFT :: nat where [const_defs]: "STACK_DEPTH_SHIFT = 32"
definition STACK_DEPTH_MASK :: u64 where [const_defs]: "STACK_DEPTH_MASK = 0xFFFFFFFF00000000"
definition STACK_DEPTH_INC :: u64 where [const_defs]: "STACK_DEPTH_INC = push_bit STACK_DEPTH_SHIFT 1"

definition REF_COUNT_SHIFT :: nat where [const_defs]: "REF_COUNT_SHIFT = 32"
definition REF_COUNT_INC :: u64 where [const_defs]: "REF_COUNT_INC = push_bit REF_COUNT_SHIFT 1"
definition REF_COUNT_MASK :: u64 where [const_defs]: "REF_COUNT_MASK = 0xFFFFFFFF00000000"
definition HANDLE_MASK_64 :: u64 where [const_defs]: "HANDLE_MASK_64 = 0x00000000FFFFFFFF"

definition INNER_CNT_SHIFT :: nat where [const_defs]: "INNER_CNT_SHIFT = 32"
definition INNER_CNT_INC :: u64 where [const_defs]: "INNER_CNT_INC = push_bit INNER_CNT_SHIFT 1"
definition INNER_FLAGS_MASK :: u64 where [const_defs]: "INNER_FLAGS_MASK = 0x00000000FFFFFFFF"
definition INNER_F_DETACHED :: u32 where [const_defs]: "INNER_F_DETACHED = push_bit 0 1"
definition INNER_F_FINALIZED :: u32 where [const_defs]: "INNER_F_FINALIZED = push_bit 1 1"

text \<open>
  Sizes on the 64-bit targets of the library: \<open>struct atomsnap_version\<close> is five 8-byte
  units (its last one holds the 4-byte handle union and 4 bytes of padding), and
  \<open>struct memory_arena\<close> is the 8-byte \<open>top_handle\<close> followed by the slots.
\<close>

definition sizeof_version :: nat where [const_defs]: "sizeof_version = 8 + 8 + 8 + 8 + (4 + 4)"
definition sizeof_arena :: nat where [const_defs]: "sizeof_arena = 8 + SLOTS_PER_ARENA * sizeof_version"

section \<open>The handle union\<close>

text \<open>
  Bit-fields are laid out from the least significant bit, as the compilers the library supports
  do. Writing a bit-field truncates the value to the field's width.
\<close>

definition slot_idx :: "u32 \<Rightarrow> u32" where [code_defs]:
  "slot_idx raw = take_bit HANDLE_SLOT_BITS raw"

definition arena_idx :: "u32 \<Rightarrow> u32" where [code_defs]:
  "arena_idx raw = take_bit HANDLE_ARENA_BITS (drop_bit HANDLE_SLOT_BITS raw)"

definition set_slot_idx :: "u32 \<Rightarrow> int \<Rightarrow> u32" where [code_defs]:
  "set_slot_idx raw v =
     (raw AND NOT (mask HANDLE_SLOT_BITS)) OR take_bit HANDLE_SLOT_BITS (word_of_int v)"

definition set_arena_idx :: "u32 \<Rightarrow> int \<Rightarrow> u32" where [code_defs]:
  "set_arena_idx raw v =
     (raw AND NOT (push_bit HANDLE_SLOT_BITS (mask HANDLE_ARENA_BITS)))
       OR push_bit HANDLE_SLOT_BITS (take_bit HANDLE_ARENA_BITS (word_of_int v))"

definition construct_handle :: "int \<Rightarrow> int \<Rightarrow> u32" where [code_defs]:
  "construct_handle aid sid = set_slot_idx (set_arena_idx 0 aid) sid"

section \<open>The three packed words\<close>

definition inner_cnt :: "u64 \<Rightarrow> u32" where [code_defs]:
  "inner_cnt s = ucast (drop_bit INNER_CNT_SHIFT s)"

definition inner_flags :: "u64 \<Rightarrow> u32" where [code_defs]:
  "inner_flags s = ucast (s AND INNER_FLAGS_MASK)"

text \<open>The readers the code writes inline at each use of a control block or a stack top.\<close>

definition cb_handle :: "u64 \<Rightarrow> u32" where [code_defs]:
  "cb_handle val = ucast (val AND HANDLE_MASK_64)"

definition cb_refs :: "u64 \<Rightarrow> u32" where [code_defs]:
  "cb_refs val = ucast (drop_bit REF_COUNT_SHIFT (val AND REF_COUNT_MASK))"

definition top_slot :: "u64 \<Rightarrow> u32" where [code_defs]:
  "top_slot val = ucast (val AND HANDLE_MASK_32)"

definition top_depth :: "u64 \<Rightarrow> u64" where [code_defs]:
  "top_depth val = drop_bit STACK_DEPTH_SHIFT (val AND STACK_DEPTH_MASK)"

lemmas layout_defs = code_defs const_defs

lemma inner_cnt_hi [simp]: "inner_cnt s = hi32 s"
  by (simp add: inner_cnt_def INNER_CNT_SHIFT_def hi32_def)

lemma inner_flags_lo [simp]: "inner_flags s = lo32 s"
  by (simp add: inner_flags_def INNER_FLAGS_MASK_def flip: lo32_mask)

lemma cb_handle_lo [simp]: "cb_handle s = lo32 s"
  by (simp add: cb_handle_def HANDLE_MASK_64_def flip: lo32_mask)

lemma cb_refs_hi [simp]: "cb_refs s = hi32 s"
  by (simp add: cb_refs_def REF_COUNT_MASK_def REF_COUNT_SHIFT_def flip: hi32_mask)

lemma top_slot_lo [simp]: "top_slot s = lo32 s"
  by (simp add: top_slot_def HANDLE_MASK_32_def flip: lo32_mask)

lemma top_depth_hi: "top_depth s = ucast (hi32 s)"
proof -
  have *: "(0xFFFFFFFF00000000 :: u64) = NOT (mask 32)"
    by (simp add: mask_eq_exp_minus_1)
  show ?thesis
    unfolding top_depth_def hi32_def STACK_DEPTH_MASK_def STACK_DEPTH_SHIFT_def *
    by (rule bit_eqI) (auto simp: bit_simps)
qed

lemma incs_eq [simp]:
  "REF_COUNT_INC = 2 ^ 32" "INNER_CNT_INC = 2 ^ 32" "STACK_DEPTH_INC = 2 ^ 32"
  by (simp_all add: const_defs)

interpretation cb_word: packed_counter pack32 cb_refs cb_handle REF_COUNT_INC
  by unfold_locales (simp_all add: pack32_inc)

interpretation inner_word: packed_counter pack32 inner_cnt inner_flags INNER_CNT_INC
  by unfold_locales (simp_all add: pack32_inc)

interpretation stack_top: packed_counter pack32 hi32 top_slot STACK_DEPTH_INC
  by unfold_locales (simp_all add: pack32_inc)

section \<open>Encoding and decoding handles\<close>

lemma slot_idx_construct:
  "slot_idx (construct_handle a s) = take_bit HANDLE_SLOT_BITS (word_of_int s)"
  unfolding layout_defs by (rule bit_eqI) (auto simp: bit_simps)

lemma arena_idx_construct:
  "arena_idx (construct_handle a s) = take_bit HANDLE_ARENA_BITS (word_of_int a)"
  unfolding layout_defs by (rule bit_eqI) (auto simp: bit_simps)

lemma construct_handle_split:
  "construct_handle (uint (arena_idx h)) (uint (slot_idx h)) = h"
  unfolding layout_defs by (rule bit_eqI) (auto simp: bit_simps)

lemma unat_take_bit_of_int:
  "unat (take_bit k (word_of_int (int n) :: u32)) = take_bit k (take_bit 32 n)"
  by (simp add: unsigned_take_bit_eq unsigned_of_nat)

lemma unat_slot_idx_construct [simp]:
  "s < 4096 \<Longrightarrow> unat (slot_idx (construct_handle a (int s))) = s"
  by (simp only: slot_idx_construct unat_take_bit_of_int)
    (simp add: const_defs take_bit_nat_eq_self)

lemma unat_arena_idx_construct [simp]:
  "a < MAX_ARENAS \<Longrightarrow> unat (arena_idx (construct_handle (int a) s)) = a"
  by (simp only: arena_idx_construct unat_take_bit_of_int)
    (simp add: const_defs take_bit_nat_eq_self)

lemma unat_slot_idx_bound: "unat (slot_idx h) < 4096"
  using take_bit_nat_less_exp [of 12]
  by (simp add: slot_idx_def HANDLE_SLOT_BITS_def unsigned_take_bit_eq)

lemma unat_arena_idx_bound: "unat (arena_idx h) < MAX_ARENAS"
  using take_bit_nat_less_exp [of 20]
  by (simp add: arena_idx_def const_defs unsigned_take_bit_eq)

lemma handle_eq_iff:
  "h = h' \<longleftrightarrow> unat (arena_idx h) = unat (arena_idx h') \<and> unat (slot_idx h) = unat (slot_idx h')"
  by (metis construct_handle_split word_unat_eq_iff)

lemma slot_idx_HANDLE_NULL: "unat (slot_idx HANDLE_NULL) = 4095"
  by (simp add: layout_defs)

lemma arena_idx_HANDLE_NULL: "unat (arena_idx HANDLE_NULL) = 1048575"
  by (simp add: layout_defs)

end
