(* ===== verification/Machine.thy ===== *)
theory Machine
  imports Handles
begin

text \<open>
  The state of the library: the structs and file-scope variables of \<open>atomsnap.c\<close> as records,
  the heap objects they point to, and the parts of the C library and the operating system the
  code calls (\<open>calloc\<close>, \<open>realloc\<close>, \<open>aligned_alloc\<close>, \<open>madvise\<close>, thread-specific data,
  weak compare-and-swap). What the environment decides (whether an allocation succeeds, how often
  a weak compare-and-swap fails spuriously) is an arbitrary field of the state, so every theorem
  holds for every behaviour of it.
\<close>

section \<open>Structs\<close>

text \<open>Addresses. The null pointer is 0.\<close>

type_synonym ptr = nat

text \<open>
  \<open>&arena->slots[i]\<close> is the pair of the arena's address and \<open>i\<close>; \<^term>\<open>None\<close> is NULL.
\<close>

type_synonym slot_ptr = "ptr \<times> nat"
type_synonym version_ptr = "slot_ptr option"

text \<open>
  \<open>self_handle\<close> and \<open>next_handle\<close> are the two members of one union, so they are one field:
  writing either overwrites the other.
\<close>

record atomsnap_version =
  object :: ptr
  free_context :: ptr
  gate :: ptr
  inner_state :: u64
  self_handle :: u32

abbreviation next_handle :: "atomsnap_version \<Rightarrow> u32" where
  "next_handle \<equiv> self_handle"

abbreviation next_handle_update :: "(u32 \<Rightarrow> u32) \<Rightarrow> atomsnap_version \<Rightarrow> atomsnap_version" where
  "next_handle_update \<equiv> self_handle_update"

record memory_arena =
  top_handle :: u64
  slots :: "nat \<Rightarrow> atomsnap_version"

text \<open>
  A heap block that a pointer field owns: its cells, or \<^term>\<open>Freed\<close> once \<open>realloc\<close> has
  moved it and the field still holds the old address.
\<close>

datatype 'a block = Live "'a list" | Freed

record thread_context =
  thread_id :: nat
  owned_arenas :: "ptr block"
  arena_indices :: "u32 option block"
  active_arena_count :: nat
  vector_capacity :: nat
  local_top :: u32
  alloc_count :: u64

record atomsnap_gate =
  control_block :: u64
  free_impl :: ptr
  extra_control_blocks :: "u64 list"
  num_extra_slots :: int

record atomsnap_init_context =
  ictx_free_impl :: ptr
  num_extra_control_blocks :: int

section \<open>The environment\<close>

text \<open>
  \<open>alloc_ok k\<close>: the \<open>k\<close>-th allocation request succeeds; \<open>setspecific_ok k\<close>: the
  \<open>k\<close>-th \<open>pthread_setspecific\<close> succeeds; \<open>key_create_ok\<close>: \<open>pthread_key_create\<close>
  succeeds; \<open>spurious k\<close>: how often the \<open>k\<close>-th weak compare-and-swap loop fails although the
  compared values are equal.
\<close>

record os_env =
  alloc_ok :: "nat \<Rightarrow> bool"
  setspecific_ok :: "nat \<Rightarrow> bool"
  key_create_ok :: bool
  spurious :: "nat \<Rightarrow> nat"

record gstate =
  g_arena_table :: "nat \<Rightarrow> ptr"
  g_global_arena_cnt :: u64
  g_thread_contexts :: "nat \<Rightarrow> ptr"
  g_tid_used :: "nat \<Rightarrow> bool"
  g_init_done :: bool
  tls :: "nat \<Rightarrow> ptr"
  arena_heap :: "ptr \<rightharpoonup> memory_arena"
  ctx_heap :: "ptr \<rightharpoonup> thread_context"
  gate_heap :: "ptr \<rightharpoonup> atomsnap_gate"
  next_ptr :: ptr
  free_log :: "(ptr \<times> ptr \<times> ptr) list"
  env :: os_env
  alloc_clk :: nat
  setspecific_clk :: nat
  cas_clk :: nat

section \<open>Memory primitives\<close>

definition heap_alloc :: "gstate \<Rightarrow> ptr \<times> gstate" where
  "heap_alloc s =
     (let s' = s\<lparr>alloc_clk := Suc (alloc_clk s)\<rparr>
      in if alloc_ok (env s) (alloc_clk s)
         then (next_ptr s, s'\<lparr>next_ptr := Suc (next_ptr s)\<rparr>)
         else (0, s'))"

fun block_get :: "'a block \<Rightarrow> nat \<Rightarrow> 'a result" where
  "block_get (Live xs) i = (if i < length xs then Inr (xs ! i) else Inl Out_Of_Bounds)"
| "block_get Freed i = Inl Use_After_Free"

fun block_set :: "'a block \<Rightarrow> nat \<Rightarrow> 'a \<Rightarrow> 'a block result" where
  "block_set (Live xs) i v = (if i < length xs then Inr (Live (xs[i := v])) else Inl Out_Of_Bounds)"
| "block_set Freed i v = Inl Use_After_Free"

text \<open>
  \<open>realloc(p, n)\<close>: the new block, whose cells beyond the old ones hold indeterminate values
  (\<open>fill\<close>), or \<^term>\<open>None\<close> with the old block untouched. On success the old block is freed.
  Reallocating a freed block is undefined behaviour.
\<close>

fun realloc_block :: "'a block \<Rightarrow> nat \<Rightarrow> 'a \<Rightarrow> gstate \<Rightarrow> ('a list option \<times> gstate) result" where
  "realloc_block (Live xs) n fill s =
     (let (p, s') = heap_alloc s
      in Inr (if p = 0 then None else Some (take n xs @ replicate (n - length xs) fill), s'))"
| "realloc_block Freed n fill s = Inl Use_After_Free"

text \<open>
  What a field still holding the old address refers to after a successful \<open>realloc\<close>: a freed
  block, or nothing where the old address was NULL (the block with no cells).
\<close>

fun stale :: "'a block \<Rightarrow> 'a block" where
  "stale (Live xs) = (if xs = [] then Live [] else Freed)"
| "stale Freed = Freed"

definition zero_version :: atomsnap_version where
  "zero_version = \<lparr>object = 0, free_context = 0, gate = 0, inner_state = 0, self_handle = 0\<rparr>"

definition zero_arena :: memory_arena where
  "zero_arena = \<lparr>top_handle = 0, slots = (\<lambda>_. zero_version)\<rparr>"

definition arena_read :: "gstate \<Rightarrow> ptr \<Rightarrow> memory_arena result" where
  "arena_read s p =
     (if p = 0 then Inl Null_Deref
      else case arena_heap s p of None \<Rightarrow> Inl Use_After_Free | Some m \<Rightarrow> Inr m)"

definition arena_write :: "ptr \<Rightarrow> memory_arena \<Rightarrow> gstate \<Rightarrow> gstate" where
  "arena_write p m s = s\<lparr>arena_heap := (arena_heap s)(p \<mapsto> m)\<rparr>"

text \<open>Pages given back with \<open>MADV_DONTNEED\<close> read as zero afterwards.\<close>

definition madvise_dontneed :: "ptr \<Rightarrow> gstate \<Rightarrow> gstate" where
  "madvise_dontneed p s = arena_write p zero_arena s"

definition version_read :: "gstate \<Rightarrow> slot_ptr \<Rightarrow> atomsnap_version result" where
  "version_read s p =
     bindE (arena_read s (fst p)) (\<lambda>m.
       if snd p < SLOTS_PER_ARENA then Inr (slots m (snd p)) else Inl Out_Of_Bounds)"

definition version_modify ::
  "slot_ptr \<Rightarrow> (atomsnap_version \<Rightarrow> atomsnap_version) \<Rightarrow> gstate \<Rightarrow> gstate result" where
  "version_modify p f s =
     bindE (arena_read s (fst p)) (\<lambda>m.
       if snd p < SLOTS_PER_ARENA
       then Inr (arena_write (fst p) (m\<lparr>slots := (slots m)(snd p := f (slots m (snd p)))\<rparr>) s)
       else Inl Out_Of_Bounds)"

definition gate_read :: "gstate \<Rightarrow> ptr \<Rightarrow> atomsnap_gate result" where
  "gate_read s p =
     (if p = 0 then Inl Null_Deref
      else case gate_heap s p of None \<Rightarrow> Inl Use_After_Free | Some g \<Rightarrow> Inr g)"

text \<open>
  \<open>atomic_compare_exchange_weak(&obj, &expected, desired)\<close> as (success, object, expected):
  on failure, genuine or spurious, \<open>expected\<close> receives the object's value.
\<close>

definition cas_weak :: "bool \<Rightarrow> u64 \<Rightarrow> u64 \<Rightarrow> u64 \<Rightarrow> bool \<times> u64 \<times> u64" where
  "cas_weak fails obj expected desired =
     (if obj = expected \<and> \<not> fails then (True, desired, expected) else (False, obj, obj))"

definition next_spurious :: "gstate \<Rightarrow> nat \<times> gstate" where
  "next_spurious s = (spurious (env s) (cas_clk s), s\<lparr>cas_clk := Suc (cas_clk s)\<rparr>)"

section \<open>Valid slots\<close>

definition arena_at :: "gstate \<Rightarrow> ptr \<Rightarrow> memory_arena \<Rightarrow> bool" where
  "arena_at s p m \<longleftrightarrow> p \<noteq> 0 \<and> arena_heap s p = Some m"

lemma arena_read_at [simp]: "arena_at s p m \<Longrightarrow> arena_read s p = Inr m"
  by (simp add: arena_at_def arena_read_def)

lemma arena_read_eq_Inr [simp]: "arena_read s p = Inr m \<longleftrightarrow> arena_at s p m"
  by (auto simp: arena_at_def arena_read_def split: option.splits)

lemma arena_at_unique: "arena_at s p m \<Longrightarrow> arena_at s p m' \<Longrightarrow> m = m'"
  by (simp add: arena_at_def)

lemma arena_at_write [simp]:
  "arena_at (arena_write p m s) q m' \<longleftrightarrow> (if q = p then p \<noteq> 0 \<and> m' = m else arena_at s q m')"
  by (auto simp: arena_at_def arena_write_def)

lemma arena_write_fields [simp]:
  "g_arena_table (arena_write p m s) = g_arena_table s"
  "g_global_arena_cnt (arena_write p m s) = g_global_arena_cnt s"
  "g_thread_contexts (arena_write p m s) = g_thread_contexts s"
  "g_tid_used (arena_write p m s) = g_tid_used s"
  "tls (arena_write p m s) = tls s"
  "ctx_heap (arena_write p m s) = ctx_heap s"
  "gate_heap (arena_write p m s) = gate_heap s"
  "next_ptr (arena_write p m s) = next_ptr s"
  "free_log (arena_write p m s) = free_log s"
  "g_init_done (arena_write p m s) = g_init_done s"
  "env (arena_write p m s) = env s"
  "alloc_clk (arena_write p m s) = alloc_clk s"
  "cas_clk (arena_write p m s) = cas_clk s"
  by (simp_all add: arena_write_def)

lemma version_read_at:
  "arena_at s (fst p) m \<Longrightarrow> snd p < SLOTS_PER_ARENA \<Longrightarrow> version_read s p = Inr (slots m (snd p))"
  by (simp add: version_read_def)

lemma version_modify_at:
  "arena_at s (fst p) m \<Longrightarrow> snd p < SLOTS_PER_ARENA \<Longrightarrow>
   version_modify p f s =
     Inr (arena_write (fst p) (m\<lparr>slots := (slots m)(snd p := f (slots m (snd p)))\<rparr>) s)"
  by (simp add: version_modify_def)

lemma cas_weak_simps [simp]:
  "cas_weak False v v d = (True, d, v)"
  "cas_weak True v e d = (False, v, v)"
  "v \<noteq> e \<Longrightarrow> cas_weak b v e d = (False, v, v)"
  by (auto simp: cas_weak_def)

end
