(* ===== verification/Arena.thy ===== *)
theory Arena
  imports Machine
begin

text \<open>
  The slot allocator of \<open>atomsnap.c\<close>: \<open>resolve_handle\<close>, the arena and vector set-up
  (\<open>setup_arena_stack\<close>, \<open>ensure_vector_capacity\<close>, \<open>init_arena\<close>), allocation
  (\<open>pop_local\<close>, \<open>alloc_slot\<close>), deallocation (\<open>free_slot\<close>) and reclamation
  (\<open>reclaim_last_arena_if_empty\<close>). Each definition is one C function run by one thread from
  its call to its return. A thread context is passed by value and returned updated: only the
  thread that owns it touches it.
\<close>

section \<open>Operations\<close>

definition resolve_handle :: "gstate \<Rightarrow> u32 \<Rightarrow> version_ptr" where
  "resolve_handle s handle_raw =
     (if handle_raw = HANDLE_NULL then None
      else if unat (arena_idx handle_raw) \<ge> MAX_ARENAS then None
      else let arena = g_arena_table s (unat (arena_idx handle_raw))
           in if arena = 0 then None else Some (arena, unat (slot_idx handle_raw)))"

definition reclaim_last_arena_if_empty ::
  "thread_context \<Rightarrow> gstate \<Rightarrow> (bool \<times> thread_context \<times> gstate) result" where
  "reclaim_last_arena_if_empty ctx s =
     (if active_arena_count ctx = 0 then Inr (False, ctx, s)
      else let idx = active_arena_count ctx - 1 in
        bindE (block_get (owned_arenas ctx) idx) (\<lambda>arena.
        bindE (arena_read s arena) (\<lambda>m.
          let curr_top = top_handle m; depth = top_depth curr_top in
          if depth = of_nat (SLOTS_PER_ARENA - 1)
          then Inr (True, ctx\<lparr>active_arena_count := active_arena_count ctx - 1\<rparr>,
                    madvise_dontneed arena s)
          else Inr (False, ctx, s))))"

definition ensure_vector_capacity ::
  "thread_context \<Rightarrow> gstate \<Rightarrow> (int \<times> thread_context \<times> gstate) result" where
  "ensure_vector_capacity ctx s =
     (if active_arena_count ctx < vector_capacity ctx then Inr (0, ctx, s)
      else let new_cap = (if vector_capacity ctx = 0 then 4 else vector_capacity ctx * 2) in
        bindE (realloc_block (owned_arenas ctx) new_cap 0 s) (\<lambda>(new_arenas, s1).
        bindE (realloc_block (arena_indices ctx) new_cap None s1) (\<lambda>(new_indices, s2).
          case (new_arenas, new_indices) of
            (Some xs, Some ys) \<Rightarrow>
              Inr (0, ctx\<lparr>owned_arenas :=
                            Live (take (vector_capacity ctx) xs
                                  @ replicate (new_cap - vector_capacity ctx) 0),
                          arena_indices := Live ys, vector_capacity := new_cap\<rparr>, s2)
          | _ \<Rightarrow>
              Inr (-1, ctx\<lparr>owned_arenas :=
                             (if new_arenas = None then owned_arenas ctx else stale (owned_arenas ctx)),
                           arena_indices :=
                             (if new_indices = None then arena_indices ctx else stale (arena_indices ctx))\<rparr>,
                   s2))))"

text \<open>The \<open>for\<close> loop of \<open>setup_arena_stack\<close>, from index \<open>i\<close> on.\<close>

function setup_loop :: "nat \<Rightarrow> nat \<Rightarrow> u32 \<Rightarrow> memory_arena \<Rightarrow> u32 \<times> memory_arena" where
  "setup_loop aidx i next_in_stack m =
     (if i < SLOTS_PER_ARENA then
        let curr = construct_handle (int aidx) (int i);
            m1 = m\<lparr>slots := (slots m)(i := (slots m i)\<lparr>self_handle := curr\<rparr>)\<rparr>;
            m2 = m1\<lparr>slots := (slots m1)(i := next_handle_update (\<lambda>_. next_in_stack) (slots m1 i))\<rparr>
        in setup_loop aidx (Suc i) curr m2
      else (next_in_stack, m))"
  by pat_completeness auto
termination
  by (relation "measure (\<lambda>(aidx, i, nxt, m). SLOTS_PER_ARENA - i)") auto

definition setup_arena_stack :: "nat \<Rightarrow> memory_arena \<Rightarrow> u32 \<times> memory_arena" where
  "setup_arena_stack aidx m =
     (let sentinel_handle = construct_handle (int aidx) 0;
          m1 = m\<lparr>slots := (slots m)(0 := next_handle_update (\<lambda>_. HANDLE_NULL) (slots m 0))\<rparr>;
          m2 = m1\<lparr>top_handle := ucast sentinel_handle\<rparr>
      in setup_loop aidx 1 sentinel_handle m2)"

text \<open>
  The end of the branch of \<open>init_arena\<close> for a new arena: the registered arena becomes the
  entry at \<open>active_arena_count\<close> of the thread's vectors, once they have room.
\<close>

definition push_owned_arena ::
  "ptr \<Rightarrow> nat \<Rightarrow> thread_context \<Rightarrow> gstate \<Rightarrow> ((ptr \<times> nat) option \<times> thread_context \<times> gstate) result" where
  "push_owned_arena arena aidx ctx s =
     bindE (ensure_vector_capacity ctx s) (\<lambda>(r, ctx1, s1).
       if r \<noteq> 0 then Inr (None, ctx1, s1)
       else bindE (block_set (owned_arenas ctx1) (active_arena_count ctx1) arena) (\<lambda>oa.
            bindE (block_set (arena_indices ctx1) (active_arena_count ctx1)
                     (Some (of_nat aidx))) (\<lambda>ai.
              Inr (Some (arena, aidx), ctx1\<lparr>owned_arenas := oa, arena_indices := ai\<rparr>, s1))))"

text \<open>
  The two ways \<open>init_arena\<close> gets an arena: one of the thread's reclaimed arenas, or a new
  one, registered in the global table. The result is the arena's address and index, or
  \<^term>\<open>None\<close> where the function returns -1.
\<close>

definition init_arena_select ::
  "thread_context \<Rightarrow> gstate \<Rightarrow> ((ptr \<times> nat) option \<times> thread_context \<times> gstate) result" where
  "init_arena_select ctx s =
     bindE (if active_arena_count ctx < vector_capacity ctx
            then block_get (owned_arenas ctx) (active_arena_count ctx) else Inr 0) (\<lambda>old.
     if active_arena_count ctx < vector_capacity ctx \<and> old \<noteq> 0 then
       bindE (block_get (arena_indices ctx) (active_arena_count ctx)) (\<lambda>ix.
         case ix of None \<Rightarrow> Inl Uninit_Read | Some idx \<Rightarrow> Inr (Some (old, unat idx), ctx, s))
     else
       let aidx = unat (g_global_arena_cnt s);
           s1 = s\<lparr>g_global_arena_cnt := g_global_arena_cnt s + 1\<rparr> in
       if aidx \<ge> MAX_ARENAS then Inr (None, ctx, s1)
       else let (arena, s2) = heap_alloc s1 in
         if arena = 0 then Inr (None, ctx, s2)
         else let s3 = arena_write arena zero_arena s2;
                  s4 = s3\<lparr>g_arena_table := (g_arena_table s3)(aidx := arena)\<rparr> in
           push_owned_arena arena aidx ctx s4)"

definition init_arena ::
  "thread_context \<Rightarrow> gstate \<Rightarrow> (int \<times> thread_context \<times> gstate) result" where
  "init_arena ctx s =
     bindE (init_arena_select ctx s) (\<lambda>(sel, ctx1, s1).
       case sel of None \<Rightarrow> Inr (-1, ctx1, s1)
       | Some (arena, aidx) \<Rightarrow>
           bindE (arena_read s1 arena) (\<lambda>m.
             let (next_in_stack, m') = setup_arena_stack aidx m;
                 ctx2 = ctx1\<lparr>active_arena_count := active_arena_count ctx1 + 1\<rparr>;
                 ctx3 = ctx2\<lparr>local_top := next_in_stack\<rparr>
             in Inr (0, ctx3, arena_write arena m' s1)))"

definition pop_local ::
  "thread_context \<Rightarrow> gstate \<Rightarrow> (u32 \<times> thread_context \<times> gstate) result" where
  "pop_local ctx s =
     (if local_top ctx = HANDLE_NULL then Inr (HANDLE_NULL, ctx, s)
      else let handle_raw = local_top ctx in
        if slot_idx handle_raw = 0 then Inr (HANDLE_NULL, ctx\<lparr>local_top := HANDLE_NULL\<rparr>, s)
        else case resolve_handle s handle_raw of
            None \<Rightarrow> Inl Null_Deref
          | Some slot \<Rightarrow>
              bindE (version_read s slot) (\<lambda>v.
                let ctx' = ctx\<lparr>local_top := next_handle v\<rparr> in
                bindE (version_modify slot (self_handle_update (\<lambda>_. handle_raw)) s) (\<lambda>s'.
                  Inr (handle_raw, ctx', s'))))"

text \<open>
  The batch-steal loop of \<open>alloc_slot\<close>, from index \<open>i\<close> on: \<^term>\<open>Some\<close> of the handle
  where the loop body returns, \<^term>\<open>None\<close> where the loop runs out.
\<close>

function steal_loop ::
  "nat \<Rightarrow> thread_context \<Rightarrow> gstate \<Rightarrow> (u32 option \<times> thread_context \<times> gstate) result" where
  "steal_loop i ctx s =
     (if i < active_arena_count ctx then
        bindE (block_get (owned_arenas ctx) i) (\<lambda>arena.
        bindE (block_get (arena_indices ctx) i) (\<lambda>ix.
          case ix of None \<Rightarrow> Inl Uninit_Read | Some idx \<Rightarrow>
          let sentinel_handle = construct_handle (uint idx) 0 in
          bindE (arena_read s arena) (\<lambda>m.
            let top_val = top_handle m in
            if top_slot top_val = sentinel_handle then steal_loop (Suc i) ctx s
            else let batch_top = top_val;
                     s1 = arena_write arena (m\<lparr>top_handle := ucast sentinel_handle\<rparr>) s in
              if top_slot batch_top = sentinel_handle then Inl Assert_Fail
              else bindE (pop_local (ctx\<lparr>local_top := top_slot batch_top\<rparr>) s1) (\<lambda>(h, ctx', s').
                     Inr (Some h, ctx', s')))))
      else Inr (None, ctx, s))"
  by pat_completeness auto
termination
  by (relation "measure (\<lambda>(i, ctx, s). active_arena_count ctx - i)") auto

definition alloc_slot ::
  "thread_context \<Rightarrow> gstate \<Rightarrow> (u32 \<times> thread_context \<times> gstate) result" where
  "alloc_slot ctx s =
     (let ctx0 = ctx\<lparr>alloc_count := alloc_count ctx + 1\<rparr> in
      bindE (if alloc_count ctx0 mod of_nat SLOTS_PER_ARENA = 0
             then reclaim_last_arena_if_empty ctx0 s else Inr (False, ctx0, s)) (\<lambda>(_, ctx1, s1).
      bindE (pop_local ctx1 s1) (\<lambda>(handle, ctx2, s2).
        if handle \<noteq> HANDLE_NULL then Inr (handle, ctx2, s2)
        else bindE (steal_loop 0 ctx2 s2) (\<lambda>(stolen, ctx3, s3).
          case stolen of Some h \<Rightarrow> Inr (h, ctx3, s3)
          | None \<Rightarrow>
              bindE (init_arena ctx3 s3) (\<lambda>(r, ctx4, s4).
                if r = 0 then pop_local ctx4 s4 else Inr (HANDLE_NULL, ctx4, s4))))))"

text \<open>
  The compare-and-swap loop of \<open>free_slot\<close>. \<open>n\<close> is the number of spurious failures the
  weak compare-and-swap still has; any other failure means \<open>old_top\<close> was stale, and the next
  attempt compares with the value just read.
\<close>

definition free_slot_new_top :: "u64 \<Rightarrow> u32 \<Rightarrow> u64" where
  "free_slot_new_top old_top my_handle =
     (let depth = (old_top AND STACK_DEPTH_MASK) + STACK_DEPTH_INC
      in depth OR ucast my_handle)"

function free_slot_loop ::
  "nat \<Rightarrow> ptr \<Rightarrow> slot_ptr \<Rightarrow> u32 \<Rightarrow> u64 \<Rightarrow> gstate \<Rightarrow> gstate result" where
  "free_slot_loop n arena slot my_handle old_top s =
     (let new_top = free_slot_new_top old_top my_handle in
      bindE (version_modify slot (next_handle_update (\<lambda>_. top_slot old_top)) s) (\<lambda>s1.
      bindE (arena_read s1 arena) (\<lambda>m.
        let (ok, obj, expected) = cas_weak (0 < n) (top_handle m) old_top new_top in
        if ok then Inr (arena_write arena (m\<lparr>top_handle := obj\<rparr>) s1)
        else free_slot_loop (n - 1) arena slot my_handle expected s1)))"
  by pat_completeness auto
termination
proof (relation "measure (\<lambda>(n, arena, slot, h, old_top, s).
    n + (if (\<exists>m. arena_at s arena m \<and> top_handle m = old_top) then 0 else 1))")
qed (auto simp: cas_weak_def version_modify_def arena_at_def arena_write_def split: if_splits)

definition free_slot :: "slot_ptr \<Rightarrow> gstate \<Rightarrow> gstate result" where
  "free_slot slot s =
     bindE (version_read s slot) (\<lambda>v.
       let my_handle = self_handle v;
           arena = g_arena_table s (unat (arena_idx my_handle)) in
       bindE (arena_read s arena) (\<lambda>m.
         let (n, s1) = next_spurious s
         in free_slot_loop n arena slot my_handle (top_handle m) s1))"

declare setup_loop.simps [simp del] steal_loop.simps [simp del] free_slot_loop.simps [simp del]

end
