(* ===== verification/Arena_Inv.thy ===== *)
theory Arena_Inv
  imports Arena
begin

text \<open>
  Correctness of the slot allocator. An arena's free slots form linked stacks through the
  \<open>next_handle\<close> members, ending in the sentinel slot 0; \<open>chain\<close> is the heap-list
  abstraction of such a stack and \<open>walk\<close> computes it. The invariant \<open>alloc_inv\<close> says that
  in every active arena of a thread context the usable slots split into the shared stack (whose
  length is the depth stored beside the top handle), the thread's local stack, and the slots in
  use, which carry their own handle. Every operation keeps it, and \<open>in_use\<close> changes by exactly
  the slot handed out or returned.
\<close>

section \<open>Stacks in an arena\<close>

definition mkh :: "nat \<Rightarrow> nat \<Rightarrow> u32" where
  "mkh k i = construct_handle (int k) (int i)"

lemma construct_handle_mkh [simp]:
  "construct_handle (int k) (int i) = mkh k i"
  "construct_handle (int k) 0 = mkh k 0"
  by (simp_all add: mkh_def)

lemma unat_slot_idx_mkh [simp]: "i < 4096 \<Longrightarrow> unat (slot_idx (mkh k i)) = i"
  unfolding mkh_def by (rule unat_slot_idx_construct)

lemma unat_arena_idx_mkh [simp]: "k < MAX_ARENAS \<Longrightarrow> unat (arena_idx (mkh k i)) = k"
  unfolding mkh_def by (rule unat_arena_idx_construct)

fun walk :: "nat \<Rightarrow> (nat \<Rightarrow> atomsnap_version) \<Rightarrow> u32 \<Rightarrow> nat list" where
  "walk 0 sl h = []"
| "walk (Suc n) sl h =
     (if slot_idx h = 0 then []
      else unat (slot_idx h) # walk n sl (next_handle (sl (unat (slot_idx h)))))"

fun chain :: "nat \<Rightarrow> (nat \<Rightarrow> atomsnap_version) \<Rightarrow> u32 \<Rightarrow> nat list \<Rightarrow> bool" where
  "chain k sl h [] \<longleftrightarrow> h = mkh k 0"
| "chain k sl h (i # is) \<longleftrightarrow>
     h = mkh k i \<and> 1 \<le> i \<and> i < SLOTS_PER_ARENA \<and> chain k sl (next_handle (sl i)) is"

definition usable_slots :: "nat set" where
  "usable_slots = {1..<SLOTS_PER_ARENA}"

definition stack_inv :: "nat \<Rightarrow> memory_arena \<Rightarrow> nat list \<Rightarrow> nat list \<Rightarrow> bool" where
  "stack_inv k m sh lc \<longleftrightarrow>
     chain k (slots m) (top_slot (top_handle m)) sh \<and>
     hi32 (top_handle m) = of_nat (length sh) \<and>
     distinct (sh @ lc) \<and>
     set (sh @ lc) \<subseteq> usable_slots \<and>
     (\<forall>i \<in> usable_slots - set (sh @ lc). self_handle (slots m i) = mkh k i)"

lemma slots_lt: "i < SLOTS_PER_ARENA \<Longrightarrow> i < 4096"
  by (simp add: SLOTS_PER_ARENA_def)

lemma slots_pos [simp]:
  "0 < SLOTS_PER_ARENA" "Suc 0 < SLOTS_PER_ARENA" "\<not> SLOTS_PER_ARENA \<le> Suc 0"
  by (simp_all add: SLOTS_PER_ARENA_def)

lemma mkh_inject:
  assumes "k < MAX_ARENAS" "k' < MAX_ARENAS" "i < SLOTS_PER_ARENA" "i' < SLOTS_PER_ARENA"
  shows "mkh k i = mkh k' i' \<longleftrightarrow> k = k' \<and> i = i'"
  using assms by (auto simp: slots_lt dest: arg_cong [of _ _ "\<lambda>h. unat (slot_idx h)"]
      arg_cong [of _ _ "\<lambda>h. unat (arena_idx h)"])

lemma mkh_not_NULL: "i < SLOTS_PER_ARENA \<Longrightarrow> mkh k i \<noteq> HANDLE_NULL"
proof
  assume "i < SLOTS_PER_ARENA" "mkh k i = HANDLE_NULL"
  then have "i = 4095"
    using unat_slot_idx_mkh [of i k] by (simp add: slots_lt slot_idx_HANDLE_NULL)
  with \<open>i < SLOTS_PER_ARENA\<close> show False by (simp add: SLOTS_PER_ARENA_def)
qed

lemma slot_idx_mkh_eq_0: "i < SLOTS_PER_ARENA \<Longrightarrow> slot_idx (mkh k i) = 0 \<longleftrightarrow> i = 0"
  by (metis slots_lt unat_slot_idx_mkh unsigned_0 unat_eq_zero)

lemma mkh_0_iff: "i < SLOTS_PER_ARENA \<Longrightarrow> mkh k i = mkh k 0 \<longleftrightarrow> i = 0"
  by (metis slot_idx_mkh_eq_0 slots_pos(1))

lemma chain_walk:
  "chain k sl h xs \<Longrightarrow> length xs < n \<Longrightarrow> walk n sl h = xs"
proof (induction xs arbitrary: h n)
  case Nil
  then show ?case
    by (cases n) (simp_all add: slot_idx_mkh_eq_0 [where i = 0, simplified])
next
  case (Cons i xs)
  then show ?case
    by (cases n) (auto simp: slot_idx_mkh_eq_0 slots_lt)
qed

lemma chain_unique:
  assumes "chain k sl h xs" "chain k sl h ys"
  shows "xs = ys"
  using chain_walk [OF assms(1), of "Suc (length xs + length ys)"]
    chain_walk [OF assms(2), of "Suc (length xs + length ys)"] by simp

lemma chain_frame:
  "(\<And>i. i \<in> set xs \<Longrightarrow> next_handle (sl' i) = next_handle (sl i)) \<Longrightarrow>
   chain k sl' h xs = chain k sl h xs"
  by (induction xs arbitrary: h) auto

lemma chain_upd [simp]: "i \<notin> set xs \<Longrightarrow> chain k (sl(i := v)) h xs = chain k sl h xs"
  by (rule chain_frame) auto

lemma chain_usable: "chain k sl h xs \<Longrightarrow> set xs \<subseteq> usable_slots"
  by (induction xs arbitrary: h) (auto simp: usable_slots_def)

lemma card_usable_slots: "card usable_slots = SLOTS_PER_ARENA - 1"
  by (simp add: usable_slots_def)

lemma length_distinct_usable:
  "distinct xs \<Longrightarrow> set xs \<subseteq> usable_slots \<Longrightarrow> length xs \<le> SLOTS_PER_ARENA - 1"
  by (metis card_mono card_usable_slots distinct_card finite_atLeastLessThan usable_slots_def)

lemma full_stack:
  "distinct xs \<Longrightarrow> set xs \<subseteq> usable_slots \<Longrightarrow>
   length xs = SLOTS_PER_ARENA - 1 \<longleftrightarrow> set xs = usable_slots"
  by (metis card_subset_eq card_usable_slots distinct_card finite_atLeastLessThan usable_slots_def)

lemma depth_full_iff:
  assumes "hi32 w = of_nat n" "n \<le> SLOTS_PER_ARENA - 1"
  shows "top_depth w = of_nat (SLOTS_PER_ARENA - 1) \<longleftrightarrow> n = SLOTS_PER_ARENA - 1"
proof -
  have "unat (hi32 w) = n"
    using assms by (simp add: unat_of_nat take_bit_nat_eq_self SLOTS_PER_ARENA_def)
  then have "unat (top_depth w) = n"
    by (simp add: top_depth_hi)
  then show ?thesis
    by (simp add: word_unat_eq_iff unat_of_nat take_bit_nat_eq_self SLOTS_PER_ARENA_def)
qed

section \<open>Setting up an arena\<close>

lemma setup_loop_step:
  "i < SLOTS_PER_ARENA \<Longrightarrow>
   setup_loop k i nxt m =
     setup_loop k (Suc i) (mkh k i)
       (m\<lparr>slots := (slots m)(i := (slots m i)\<lparr>self_handle := nxt\<rparr>)\<rparr>)"
  by (simp add: setup_loop.simps [of k i nxt m] Let_def)

lemma setup_loop_closed:
  "1 \<le> i \<Longrightarrow> i \<le> SLOTS_PER_ARENA \<Longrightarrow>
   setup_loop k i (mkh k (i - 1)) m =
     (mkh k (SLOTS_PER_ARENA - 1),
      m\<lparr>slots := (\<lambda>j. if i \<le> j \<and> j < SLOTS_PER_ARENA
                     then (slots m j)\<lparr>self_handle := mkh k (j - 1)\<rparr> else slots m j)\<rparr>)"
proof (induction "SLOTS_PER_ARENA - i" arbitrary: i m)
  case 0
  then have "i = SLOTS_PER_ARENA" by simp
  then show ?case
    by (auto simp: setup_loop.simps intro!: memory_arena.equality ext)
next
  case (Suc d)
  then have lt: "i < SLOTS_PER_ARENA" and d: "d = SLOTS_PER_ARENA - Suc i" by simp_all
  show ?case
    unfolding setup_loop_step [OF lt]
    using Suc.hyps(1) [OF d] Suc.prems lt
    by (auto intro!: memory_arena.equality ext simp: not_less_eq_eq)
qed

definition fresh_slots :: "nat \<Rightarrow> memory_arena \<Rightarrow> nat \<Rightarrow> atomsnap_version" where
  "fresh_slots k m j =
     (if j = 0 then (slots m 0)\<lparr>self_handle := HANDLE_NULL\<rparr>
      else if j < SLOTS_PER_ARENA then (slots m j)\<lparr>self_handle := mkh k (j - 1)\<rparr>
      else slots m j)"

lemma setup_arena_stack_closed:
  "setup_arena_stack k m =
     (mkh k (SLOTS_PER_ARENA - 1), \<lparr>top_handle = ucast (mkh k 0), slots = fresh_slots k m\<rparr>)"
  unfolding setup_arena_stack_def Let_def
  using setup_loop_closed [of 1 k]
  by (auto simp: Suc_le_eq fresh_slots_def intro!: memory_arena.equality)

lemma chain_fresh_slots:
  "n < SLOTS_PER_ARENA \<Longrightarrow> chain k (fresh_slots k m) (mkh k n) (rev [1..<Suc n])"
  by (induction n) (auto simp: fresh_slots_def)

definition all_slots :: "nat list" where
  "all_slots = rev [1..<SLOTS_PER_ARENA]"

lemma set_all_slots: "set all_slots = usable_slots" and distinct_all_slots: "distinct all_slots"
  by (simp_all add: all_slots_def usable_slots_def)

lemma all_slots_not_Nil: "all_slots \<noteq> []"
  by (simp add: all_slots_def)

lemma setup_chain:
  "chain k (fresh_slots k m) (mkh k (SLOTS_PER_ARENA - 1)) all_slots"
  using chain_fresh_slots [of "SLOTS_PER_ARENA - 1" k m] by (simp add: all_slots_def)

lemma setup_stack_inv:
  "stack_inv k \<lparr>top_handle = ucast (mkh k 0), slots = fresh_slots k m\<rparr> [] all_slots"
  by (simp add: stack_inv_def set_all_slots distinct_all_slots)

section \<open>Operations on one arena\<close>

lemma chain_Cons_obtain:
  assumes "chain k sl h xs" "h = mkh k i" "0 < i" "i < SLOTS_PER_ARENA"
  obtains ys where "xs = i # ys"
proof (cases xs)
  case Nil
  with assms(1,2) have "mkh k i = mkh k 0" by simp
  with assms(3,4) show thesis
    using slot_idx_mkh_eq_0 [of i k] slot_idx_mkh_eq_0 [of 0 k] by simp
next
  case (Cons j ys)
  with assms have "mkh k j = mkh k i" "j < SLOTS_PER_ARENA" by simp_all
  then have "j = i"
    using assms(4) by (metis slots_lt unat_slot_idx_mkh)
  with Cons that show thesis by blast
qed

lemma top_is_sentinel_iff:
  "stack_inv k m sh lc \<Longrightarrow> top_slot (top_handle m) = mkh k 0 \<longleftrightarrow> sh = []"
  by (cases sh) (auto simp: stack_inv_def mkh_0_iff)

lemma shared_stack_walk:
  "stack_inv k m sh lc \<Longrightarrow> walk SLOTS_PER_ARENA (slots m) (top_slot (top_handle m)) = sh"
  by (rule chain_walk [of k])
    (auto simp: stack_inv_def dest: length_distinct_usable intro: le_less_trans)

lemma stack_inv_depth:
  assumes "stack_inv k m sh lc"
  shows "top_depth (top_handle m) = of_nat (SLOTS_PER_ARENA - 1) \<longleftrightarrow> set sh = usable_slots"
    and "set sh = usable_slots \<Longrightarrow> lc = []"
proof -
  have sh: "distinct sh" "set sh \<subseteq> usable_slots" "hi32 (top_handle m) = of_nat (length sh)"
    using assms by (auto simp: stack_inv_def)
  show "top_depth (top_handle m) = of_nat (SLOTS_PER_ARENA - 1) \<longleftrightarrow> set sh = usable_slots"
    using depth_full_iff [OF sh(3) length_distinct_usable [OF sh(1,2)]] full_stack [OF sh(1,2)]
    by blast
  show "set sh = usable_slots \<Longrightarrow> lc = []"
    using assms by (cases lc) (auto simp: stack_inv_def)
qed

text \<open>Taking the top of the local stack, stealing the shared stack, pushing a slot in use.\<close>

lemma stack_inv_pop:
  assumes "stack_inv k m sh (i # lc)"
  shows "stack_inv k (m\<lparr>slots := (slots m)(i := (slots m i)\<lparr>self_handle := mkh k i\<rparr>)\<rparr>) sh lc"
  using assms by (auto simp: stack_inv_def)

lemma stack_inv_steal:
  assumes "stack_inv k m sh []"
  shows "stack_inv k (m\<lparr>top_handle := ucast (mkh k 0)\<rparr>) [] sh"
  using assms by (auto simp: stack_inv_def)

lemma free_slot_new_top_pack: "free_slot_new_top (pack32 d h) h' = pack32 (d + 1) h'"
proof -
  have mask: "(0xFFFFFFFF00000000 :: u64) = NOT (mask 32)"
    by (simp add: mask_eq_exp_minus_1)
  have "pack32 d h AND STACK_DEPTH_MASK = pack32 d 0"
    unfolding STACK_DEPTH_MASK_def mask pack32_def
    by (rule bit_eqI) (auto simp: bit_simps dest: bit_imp_le_length)
  then show ?thesis
    by (simp add: free_slot_new_top_def or_low_bits)
qed

lemma stack_inv_push:
  assumes inv: "stack_inv k m sh lc" and i: "i \<in> usable_slots" "i \<notin> set sh" "i \<notin> set lc"
  shows "stack_inv k
    \<lparr>top_handle = free_slot_new_top (top_handle m) (mkh k i),
     slots = (slots m)(i := (slots m i)\<lparr>self_handle := top_slot (top_handle m)\<rparr>)\<rparr> (i # sh) lc"
proof -
  obtain d h where w: "top_handle m = pack32 d h" by (rule pack32_cases)
  show ?thesis
    using inv i by (auto simp: stack_inv_def w free_slot_new_top_pack usable_slots_def)
qed

section \<open>The invariant of a thread context\<close>

text \<open>
  \<open>arenas\<close> lists the arenas a context owns, in vector order, as (address, global index):
  the active ones first, then those reclaimed and kept for reuse.
\<close>

definition vec_inv :: "thread_context \<Rightarrow> gstate \<Rightarrow> (ptr \<times> nat) list \<Rightarrow> bool" where
  "vec_inv ctx s arenas \<longleftrightarrow>
     length arenas \<le> vector_capacity ctx \<and> active_arena_count ctx \<le> length arenas \<and>
     owned_arenas ctx =
       Live (map fst arenas @ replicate (vector_capacity ctx - length arenas) 0) \<and>
     (\<exists>ys. arena_indices ctx = Live (map (\<lambda>a. Some (of_nat (snd a))) arenas @ ys) \<and>
           length ys = vector_capacity ctx - length arenas) \<and>
     distinct (map fst arenas) \<and>
     (\<forall>a \<in> set arenas. fst a \<noteq> 0 \<and> snd a < MAX_ARENAS \<and> g_arena_table s (snd a) = fst a \<and>
        arena_heap s (fst a) \<noteq> None)"

text \<open>
  \<open>SH j\<close> is the shared stack of the \<open>j\<close>-th active arena. At most one active arena, number
  \<open>j0\<close>, has slots in the local stack \<open>l\<close>.
\<close>

definition local_slots :: "nat \<Rightarrow> nat list \<Rightarrow> nat \<Rightarrow> nat list" where
  "local_slots j0 l j = (if j = j0 then l else [])"

definition alloc_inv ::
  "thread_context \<Rightarrow> gstate \<Rightarrow> (ptr \<times> nat) list \<Rightarrow> (nat \<Rightarrow> nat list) \<Rightarrow> nat \<Rightarrow> nat list \<Rightarrow> bool" where
  "alloc_inv ctx s arenas SH j0 l \<longleftrightarrow>
     vec_inv ctx s arenas \<and>
     (\<forall>j < active_arena_count ctx. \<exists>m. arena_at s (fst (arenas ! j)) m \<and>
        stack_inv (snd (arenas ! j)) m (SH j) (local_slots j0 l j)) \<and>
     (if l = [] then local_top ctx = HANDLE_NULL \<or> slot_idx (local_top ctx) = 0
      else j0 < active_arena_count ctx \<and>
        (\<exists>m. arena_at s (fst (arenas ! j0)) m \<and>
             chain (snd (arenas ! j0)) (slots m) (local_top ctx) l))"

text \<open>The handles given out and not returned, of the context's active arenas.\<close>

definition in_use_of :: "(ptr \<times> nat) list \<Rightarrow> nat \<Rightarrow> (nat \<Rightarrow> nat list) \<Rightarrow> nat \<Rightarrow> nat list \<Rightarrow> u32 set" where
  "in_use_of arenas n SH j0 l =
     (\<Union>j\<in>{..<n}. mkh (snd (arenas ! j)) ` (usable_slots - set (SH j) - set (local_slots j0 l j)))"

definition local_stack :: "thread_context \<Rightarrow> gstate \<Rightarrow> nat list" where
  "local_stack ctx s =
     (if local_top ctx = HANDLE_NULL then []
      else case arena_heap s (g_arena_table s (unat (arena_idx (local_top ctx)))) of
             None \<Rightarrow> []
           | Some m \<Rightarrow> walk SLOTS_PER_ARENA (slots m) (local_top ctx))"

definition in_use :: "thread_context \<Rightarrow> gstate \<Rightarrow> u32 set" where
  "in_use ctx s =
     {mkh k i | k i j p m.
        j < active_arena_count ctx \<and> block_get (owned_arenas ctx) j = Inr p \<and>
        block_get (arena_indices ctx) j = Inr (Some (of_nat k)) \<and> k < MAX_ARENAS \<and>
        arena_at s p m \<and> i \<in> usable_slots \<and>
        i \<notin> set (walk SLOTS_PER_ARENA (slots m) (top_slot (top_handle m))) \<and>
        (g_arena_table s (unat (arena_idx (local_top ctx))) = p \<longrightarrow> i \<notin> set (local_stack ctx s))}"

text \<open>Addresses and arena indices not yet handed out are fresh.\<close>

definition heap_inv :: "gstate \<Rightarrow> bool" where
  "heap_inv s \<longleftrightarrow>
     0 < next_ptr s \<and>
     (\<forall>p. arena_heap s p \<noteq> None \<longrightarrow> p < next_ptr s) \<and>
     (\<forall>k. g_arena_table s k \<noteq> 0 \<longrightarrow> k < unat (g_global_arena_cnt s) \<and> g_arena_table s k < next_ptr s)"

definition alloc_wf :: "thread_context \<Rightarrow> gstate \<Rightarrow> bool" where
  "alloc_wf ctx s \<longleftrightarrow> heap_inv s \<and> (\<exists>arenas SH j0 l. alloc_inv ctx s arenas SH j0 l)"

lemma block_get_owned:
  assumes "vec_inv ctx s arenas" "j < length arenas"
  shows "block_get (owned_arenas ctx) j = Inr (fst (arenas ! j))"
    and "block_get (arena_indices ctx) j = Inr (Some (of_nat (snd (arenas ! j))))"
  using assms by (auto simp: vec_inv_def nth_append)

lemma vec_inv_nth:
  assumes "vec_inv ctx s arenas" "j < length arenas"
  shows "fst (arenas ! j) \<noteq> 0" "snd (arenas ! j) < MAX_ARENAS"
    "g_arena_table s (snd (arenas ! j)) = fst (arenas ! j)"
  using assms nth_mem [OF assms(2)] by (auto simp: vec_inv_def)

lemma vec_inv_fst_eq:
  assumes "vec_inv ctx s arenas" "i < length arenas" "j < length arenas"
  shows "fst (arenas ! i) = fst (arenas ! j) \<longleftrightarrow> i = j"
  using assms nth_eq_iff_index_eq [of "map fst arenas" i j] by (auto simp: vec_inv_def)

lemma vec_inv_snd_eq:
  assumes "vec_inv ctx s arenas" "i < length arenas" "j < length arenas"
  shows "snd (arenas ! i) = snd (arenas ! j) \<longleftrightarrow> i = j"
  using vec_inv_fst_eq [OF assms] vec_inv_nth(3) [OF assms(1,2)] vec_inv_nth(3) [OF assms(1,3)]
  by auto

lemma of_nat_index_inject:
  "k < MAX_ARENAS \<Longrightarrow> k' < MAX_ARENAS \<Longrightarrow> (of_nat k :: u32) = of_nat k' \<longleftrightarrow> k = k'"
  by (auto simp: MAX_ARENAS_def word_of_nat_eq_iff take_bit_nat_eq_self)

lemma alloc_inv_active: "alloc_inv ctx s arenas SH j0 l \<Longrightarrow> active_arena_count ctx \<le> length arenas"
  by (simp add: alloc_inv_def vec_inv_def)

lemma resolve_mkh:
  assumes "k < MAX_ARENAS" "i < SLOTS_PER_ARENA" "g_arena_table s k = p" "p \<noteq> 0"
  shows "resolve_handle s (mkh k i) = Some (p, i)"
  using assms by (simp add: resolve_handle_def mkh_not_NULL slots_lt Let_def)

lemma local_stack_Nil:
  "local_top ctx = HANDLE_NULL \<or> slot_idx (local_top ctx) = 0 \<Longrightarrow> local_stack ctx s = []"
  using walk.simps(2) [of "SLOTS_PER_ARENA - 1"]
  by (auto simp: local_stack_def split: option.split)

lemma local_stack_chain:
  assumes "chain k (slots m) (local_top ctx) l" "l \<noteq> []" "k < MAX_ARENAS"
    "arena_at s (g_arena_table s k) m" "distinct l"
  shows "local_stack ctx s = l" and "unat (arena_idx (local_top ctx)) = k"
proof -
  from assms(1,2) obtain i l' where l: "l = i # l'" "local_top ctx = mkh k i" "i < SLOTS_PER_ARENA"
    by (cases l) auto
  show idx: "unat (arena_idx (local_top ctx)) = k"
    using l assms(3) by simp
  have "length l < SLOTS_PER_ARENA"
    using length_distinct_usable [OF assms(5) chain_usable [OF assms(1)]]
    by (simp add: le_less_trans)
  then have "walk SLOTS_PER_ARENA (slots m) (local_top ctx) = l"
    by (rule chain_walk [OF assms(1)])
  then show "local_stack ctx s = l"
    using assms(4) l(2) mkh_not_NULL [OF l(3)]
    by (simp add: local_stack_def idx [unfolded l(2)] arena_at_def)
qed

lemma alloc_inv_local:
  assumes "alloc_inv ctx s arenas SH j0 l" "l \<noteq> []"
  obtains m where "j0 < active_arena_count ctx" "j0 < length arenas"
    "arena_at s (fst (arenas ! j0)) m" "stack_inv (snd (arenas ! j0)) m (SH j0) l"
    "chain (snd (arenas ! j0)) (slots m) (local_top ctx) l"
proof -
  from assms obtain m where m: "j0 < active_arena_count ctx" "arena_at s (fst (arenas ! j0)) m"
    "chain (snd (arenas ! j0)) (slots m) (local_top ctx) l"
    by (auto simp: alloc_inv_def)
  from assms(1) m(1) obtain m' where "arena_at s (fst (arenas ! j0)) m'"
    "stack_inv (snd (arenas ! j0)) m' (SH j0) l"
    by (auto simp: alloc_inv_def local_slots_def)
  with m alloc_inv_active [OF assms(1)] that show thesis
    by (metis arena_at_unique order.strict_trans2)
qed

lemma alloc_inv_stack:
  assumes "alloc_inv ctx s arenas SH j0 l" "j < active_arena_count ctx"
  obtains m where "j < length arenas" "arena_at s (fst (arenas ! j)) m"
    "stack_inv (snd (arenas ! j)) m (SH j) (local_slots j0 l j)"
  using assms alloc_inv_active [OF assms(1)] by (auto simp: alloc_inv_def)

lemma alloc_inv_local_stack:
  assumes inv: "alloc_inv ctx s arenas SH j0 l" and j: "j < active_arena_count ctx"
  shows "(g_arena_table s (unat (arena_idx (local_top ctx))) = fst (arenas ! j) \<longrightarrow>
            i \<notin> set (local_stack ctx s)) \<longleftrightarrow> i \<notin> set (local_slots j0 l j)"
proof (cases "l = []")
  case True
  with inv show ?thesis
    by (simp add: alloc_inv_def local_stack_Nil local_slots_def)
next
  case False
  from inv have vec: "vec_inv ctx s arenas" by (simp add: alloc_inv_def)
  from alloc_inv_local [OF inv False] obtain m where m: "j0 < length arenas"
    "arena_at s (fst (arenas ! j0)) m" "stack_inv (snd (arenas ! j0)) m (SH j0) l"
    "chain (snd (arenas ! j0)) (slots m) (local_top ctx) l" by metis
  have "distinct l" using m(3) by (simp add: stack_inv_def)
  note ls = local_stack_chain [OF m(4) False vec_inv_nth(2) [OF vec m(1)] _ this, of s]
  have "j < length arenas" using j alloc_inv_active [OF inv] by simp
  with ls m(1,2) vec_inv_nth(3) [OF vec m(1)] vec_inv_fst_eq [OF vec m(1), of j] show ?thesis
    by (auto simp: local_slots_def)
qed

lemma in_use_eq:
  assumes inv: "alloc_inv ctx s arenas SH j0 l"
  shows "in_use ctx s = in_use_of arenas (active_arena_count ctx) SH j0 l"
proof -
  from inv have vec: "vec_inv ctx s arenas" by (simp add: alloc_inv_def)
  have walk: "walk SLOTS_PER_ARENA (slots m) (top_slot (top_handle m)) = SH j"
    if "j < active_arena_count ctx" "arena_at s (fst (arenas ! j)) m" for j m
    using alloc_inv_stack [OF inv that(1)] that(2)
    by (metis arena_at_unique shared_stack_walk)
  have len: "j < length arenas" if "j < active_arena_count ctx" for j
    using that alloc_inv_active [OF inv] by simp
  show ?thesis
  proof (rule set_eqI)
    fix h
    show "h \<in> in_use ctx s \<longleftrightarrow> h \<in> in_use_of arenas (active_arena_count ctx) SH j0 l"
    proof
      assume "h \<in> in_use ctx s"
      then obtain k i j m where h: "h = mkh k i" "j < active_arena_count ctx" "k < MAX_ARENAS"
        "(of_nat k :: u32) = of_nat (snd (arenas ! j))" "arena_at s (fst (arenas ! j)) m"
        "i \<in> usable_slots" "i \<notin> set (SH j)"
        "g_arena_table s (unat (arena_idx (local_top ctx))) = fst (arenas ! j) \<longrightarrow>
           i \<notin> set (local_stack ctx s)"
        unfolding in_use_def mem_Collect_eq
        by (metis block_get_owned [OF vec len] walk sum.inject(2) option.inject)
      moreover have "k = snd (arenas ! j)"
        using h(2,3,4) of_nat_index_inject vec_inv_nth(2) [OF vec len] by blast
      ultimately show "h \<in> in_use_of arenas (active_arena_count ctx) SH j0 l"
        using alloc_inv_local_stack [OF inv h(2)] by (auto simp: in_use_of_def)
    next
      assume "h \<in> in_use_of arenas (active_arena_count ctx) SH j0 l"
      then obtain j i where ji: "h = mkh (snd (arenas ! j)) i" "j < active_arena_count ctx"
        "i \<in> usable_slots" "i \<notin> set (SH j)" "i \<notin> set (local_slots j0 l j)"
        by (auto simp: in_use_of_def)
      from alloc_inv_stack [OF inv ji(2)] obtain m where "arena_at s (fst (arenas ! j)) m" by metis
      with ji show "h \<in> in_use ctx s"
        unfolding in_use_def mem_Collect_eq
        by (intro exI [of _ "snd (arenas ! j)"] exI [of _ i] exI [of _ j]
            exI [of _ "fst (arenas ! j)"] exI [of _ m])
          (simp add: block_get_owned [OF vec len] vec_inv_nth(2) [OF vec len] walk [simplified]
            alloc_inv_local_stack [OF inv])
    qed
  qed
qed

end
