(* ===== verification/Arena_Correct.thy ===== *)
theory Arena_Correct
  imports Arena_Inv
begin

text \<open>
  The allocator's operations against the invariant of \<open>Arena_Inv\<close>: none of them has undefined
  behaviour or fails an assertion, each keeps \<open>alloc_inv\<close>, and the set of handles in use
  changes by exactly the handle allocated or freed.
\<close>

section \<open>Frame lemmas\<close>

lemma vec_inv_frame:
  assumes "vec_inv ctx s arenas"
    and "\<And>a. a \<in> set arenas \<Longrightarrow> g_arena_table s' (snd a) = g_arena_table s (snd a)"
    and "\<And>p. arena_heap s p \<noteq> None \<Longrightarrow> arena_heap s' p \<noteq> None"
  shows "vec_inv (ctx\<lparr>local_top := lt\<rparr>) s' arenas"
  using assms by (simp add: vec_inv_def)

lemma heap_inv_write:
  "heap_inv s \<Longrightarrow> arena_heap s p \<noteq> None \<Longrightarrow> heap_inv (arena_write p m s)"
  by (auto simp: heap_inv_def arena_write_def)

lemma arena_at_heap: "arena_at s p m \<Longrightarrow> arena_heap s p \<noteq> None"
  by (simp add: arena_at_def)

lemma alloc_inv_update:
  assumes inv: "alloc_inv ctx s arenas SH j0 l" and j: "j < active_arena_count ctx"
    and st: "stack_inv (snd (arenas ! j)) m' sh' (local_slots j0' l' j)"
    and others: "\<And>i. i < active_arena_count ctx \<Longrightarrow> i \<noteq> j \<Longrightarrow> local_slots j0' l' i = local_slots j0 l i"
    and loc: "if l' = [] then lt = HANDLE_NULL \<or> slot_idx lt = 0
      else j0' < active_arena_count ctx \<and>
        (\<exists>m. arena_at (arena_write (fst (arenas ! j)) m' s) (fst (arenas ! j0')) m \<and>
             chain (snd (arenas ! j0')) (slots m) lt l')"
  shows "alloc_inv (ctx\<lparr>local_top := lt\<rparr>) (arena_write (fst (arenas ! j)) m' s) arenas
           (SH(j := sh')) j0' l'"
proof -
  from inv have vec: "vec_inv ctx s arenas" by (simp add: alloc_inv_def)
  have len: "i < length arenas" if "i < active_arena_count ctx" for i
    using that alloc_inv_active [OF inv] by simp
  have "vec_inv (ctx\<lparr>local_top := lt\<rparr>) (arena_write (fst (arenas ! j)) m' s) arenas"
    by (rule vec_inv_frame [OF vec]) (auto simp: arena_write_def)
  moreover have "\<exists>m. arena_at (arena_write (fst (arenas ! j)) m' s) (fst (arenas ! i)) m \<and>
        stack_inv (snd (arenas ! i)) m ((SH(j := sh')) i) (local_slots j0' l' i)"
    if i: "i < active_arena_count ctx" for i
  proof (cases "i = j")
    case True
    with st vec_inv_nth(1) [OF vec len [OF i]] show ?thesis by auto
  next
    case False
    with inv i others [OF i False] vec_inv_fst_eq [OF vec len [OF i] len [OF j]] show ?thesis
      by (auto simp: alloc_inv_def)
  qed
  ultimately show ?thesis
    using loc by (simp add: alloc_inv_def del: arena_at_write)
qed

section \<open>Popping the local stack\<close>

lemma pop_local_Nil:
  assumes "alloc_inv ctx s arenas SH j0 []"
  shows "pop_local ctx s = Inr (HANDLE_NULL, ctx\<lparr>local_top := HANDLE_NULL\<rparr>, s)"
    and "alloc_inv (ctx\<lparr>local_top := HANDLE_NULL\<rparr>) s arenas SH j0 []"
  using assms vec_inv_frame [of ctx s arenas s] by (auto simp: alloc_inv_def pop_local_def)

lemma pop_local_Cons:
  assumes inv: "alloc_inv ctx s arenas SH j0 (i # l)"
  obtains m where "arena_at s (fst (arenas ! j0)) m" "j0 < active_arena_count ctx"
    "pop_local ctx s =
       Inr (mkh (snd (arenas ! j0)) i, ctx\<lparr>local_top := next_handle (slots m i)\<rparr>,
            arena_write (fst (arenas ! j0))
              (m\<lparr>slots := (slots m)(i := (slots m i)\<lparr>self_handle := mkh (snd (arenas ! j0)) i\<rparr>)\<rparr>) s)"
    "alloc_inv (ctx\<lparr>local_top := next_handle (slots m i)\<rparr>)
       (arena_write (fst (arenas ! j0))
          (m\<lparr>slots := (slots m)(i := (slots m i)\<lparr>self_handle := mkh (snd (arenas ! j0)) i\<rparr>)\<rparr>) s)
       arenas SH j0 l"
proof -
  let ?k = "snd (arenas ! j0)" and ?p = "fst (arenas ! j0)"
  from inv have vec: "vec_inv ctx s arenas" by (simp add: alloc_inv_def)
  from alloc_inv_local [OF inv] obtain m where m: "j0 < active_arena_count ctx" "j0 < length arenas"
    "arena_at s ?p m" "stack_inv ?k m (SH j0) (i # l)" "chain ?k (slots m) (local_top ctx) (i # l)"
    by auto
  let ?m' = "m\<lparr>slots := (slots m)(i := (slots m i)\<lparr>self_handle := mkh ?k i\<rparr>)\<rparr>"
  from m(5) have h: "local_top ctx = mkh ?k i" "1 \<le> i" "i < SLOTS_PER_ARENA" by simp_all
  have res: "resolve_handle s (mkh ?k i) = Some (?p, i)"
    using vec_inv_nth [OF vec m(2)] h(3) by (intro resolve_mkh)
  have pop: "pop_local ctx s =
      Inr (mkh ?k i, ctx\<lparr>local_top := next_handle (slots m i)\<rparr>, arena_write ?p ?m' s)"
    using h m(3) res version_read_at [of s "(?p, i)" m] version_modify_at [of s "(?p, i)" m]
    by (simp add: pop_local_def mkh_not_NULL slot_idx_mkh_eq_0 Let_def)
  have "i \<notin> set l" and chain: "chain ?k (slots m) (next_handle (slots m i)) l"
    using m(4,5) by (auto simp: stack_inv_def)
  then have chain': "chain ?k (slots ?m') (next_handle (slots m i)) l" by simp
  have "alloc_inv (ctx\<lparr>local_top := next_handle (slots m i)\<rparr>) (arena_write ?p ?m' s) arenas
      (SH(j0 := SH j0)) j0 l"
  proof (rule alloc_inv_update [OF inv m(1)])
    show "stack_inv ?k ?m' (SH j0) (local_slots j0 l j0)"
      using stack_inv_pop [OF m(4)] by (simp add: local_slots_def)
    show "if l = [] then next_handle (slots m i) = HANDLE_NULL \<or> slot_idx (next_handle (slots m i)) = 0
      else j0 < active_arena_count ctx \<and> (\<exists>m1. arena_at (arena_write ?p ?m' s) ?p m1 \<and>
         chain ?k (slots m1) (next_handle (slots m i)) l)"
      using chain chain' m(1) vec_inv_nth(1) [OF vec m(2)]
      by (auto simp: slot_idx_mkh_eq_0)
  qed (simp add: local_slots_def)
  with that [OF m(3,1) pop] show thesis by simp
qed

section \<open>The handles in use\<close>

lemma in_use_of_pop:
  assumes inv: "alloc_inv ctx s arenas SH j0 (i # l)"
  shows "mkh (snd (arenas ! j0)) i \<notin> in_use_of arenas (active_arena_count ctx) SH j0 (i # l)"
    and "in_use_of arenas (active_arena_count ctx) SH j0 l =
      insert (mkh (snd (arenas ! j0)) i) (in_use_of arenas (active_arena_count ctx) SH j0 (i # l))"
proof -
  from inv have vec: "vec_inv ctx s arenas" by (simp add: alloc_inv_def)
  from alloc_inv_local [OF inv] obtain m where m: "j0 < active_arena_count ctx" "j0 < length arenas"
    "stack_inv (snd (arenas ! j0)) m (SH j0) (i # l)" by (metis list.discI)
  from m(3) have i: "i \<in> usable_slots" "i \<notin> set (SH j0)" "i \<notin> set l"
    by (auto simp: stack_inv_def)
  have eq: "mkh (snd (arenas ! j)) i' = mkh (snd (arenas ! j0)) i \<longleftrightarrow> j = j0 \<and> i' = i"
    if "j < active_arena_count ctx" "i' \<in> usable_slots" for j i'
  proof -
    have "j < length arenas" using that alloc_inv_active [OF inv] by simp
    with that i(1) m(2) show ?thesis
      by (simp add: mkh_inject vec_inv_nth(2) [OF vec] vec_inv_snd_eq [OF vec] usable_slots_def)
  qed
  show "mkh (snd (arenas ! j0)) i \<notin> in_use_of arenas (active_arena_count ctx) SH j0 (i # l)"
    using eq by (force simp: in_use_of_def local_slots_def)
  show "in_use_of arenas (active_arena_count ctx) SH j0 l =
      insert (mkh (snd (arenas ! j0)) i) (in_use_of arenas (active_arena_count ctx) SH j0 (i # l))"
    using m(1) i by (auto simp: in_use_of_def local_slots_def split: if_splits)
qed

lemma in_use_of_steal:
  "in_use_of arenas n (SH(j := [])) j (SH j) = in_use_of arenas n SH j0 []"
  unfolding in_use_of_def local_slots_def by (rule SUP_cong) auto

lemma in_use_of_new:
  assumes "\<And>j. j < n \<Longrightarrow> arenas' ! j = arenas ! j"
  shows "in_use_of arenas' (Suc n) (SH(n := [])) n all_slots = in_use_of arenas n SH j0 []"
  unfolding in_use_of_def local_slots_def lessThan_Suc
  by (simp add: set_all_slots) (rule SUP_cong, auto simp: assms)

lemma in_use_of_last:
  "set (SH n) = usable_slots \<Longrightarrow> in_use_of arenas (Suc n) SH j0 l = in_use_of arenas n SH j0 l"
  by (simp add: in_use_of_def lessThan_Suc)

text \<open>
  A context and a state with handles \<open>U\<close> in use; in the second form the local stack is empty.
\<close>

definition alloc_st :: "thread_context \<Rightarrow> gstate \<Rightarrow> u32 set \<Rightarrow> bool" where
  "alloc_st ctx s U \<longleftrightarrow> heap_inv s \<and>
     (\<exists>arenas SH j0 l. alloc_inv ctx s arenas SH j0 l \<and>
        in_use_of arenas (active_arena_count ctx) SH j0 l = U)"

definition alloc_st_drained :: "thread_context \<Rightarrow> gstate \<Rightarrow> u32 set \<Rightarrow> bool" where
  "alloc_st_drained ctx s U \<longleftrightarrow> heap_inv s \<and>
     (\<exists>arenas SH j0. alloc_inv ctx s arenas SH j0 [] \<and>
        in_use_of arenas (active_arena_count ctx) SH j0 [] = U)"

lemma alloc_stI:
  "heap_inv s \<Longrightarrow> alloc_inv ctx s arenas SH j0 l \<Longrightarrow>
   in_use_of arenas (active_arena_count ctx) SH j0 l = U \<Longrightarrow> alloc_st ctx s U"
  unfolding alloc_st_def by blast

lemma alloc_st_drainedI:
  "heap_inv s \<Longrightarrow> alloc_inv ctx s arenas SH j0 [] \<Longrightarrow>
   in_use_of arenas (active_arena_count ctx) SH j0 [] = U \<Longrightarrow> alloc_st_drained ctx s U"
  unfolding alloc_st_drained_def by blast

lemma alloc_st_iff: "alloc_st ctx s U \<longleftrightarrow> alloc_wf ctx s \<and> in_use ctx s = U"
  unfolding alloc_st_def alloc_wf_def using in_use_eq by metis

lemma alloc_st_drained_st: "alloc_st_drained ctx s U \<Longrightarrow> alloc_st ctx s U"
  by (auto simp: alloc_st_def alloc_st_drained_def)

lemma alloc_st_counter [simp]:
  "alloc_st (ctx\<lparr>alloc_count := c\<rparr>) s U = alloc_st ctx s U"
  by (simp add: alloc_st_def alloc_inv_def vec_inv_def)

lemma pop_local_nonempty:
  assumes "heap_inv s" "alloc_inv ctx s arenas SH j0 (i # l)"
    "in_use_of arenas (active_arena_count ctx) SH j0 (i # l) = U"
  obtains h ctx' s' where "pop_local ctx s = Inr (h, ctx', s')" "h \<noteq> HANDLE_NULL" "h \<notin> U"
    "alloc_st ctx' s' (insert h U)" "g_global_arena_cnt s' = g_global_arena_cnt s"
proof -
  from pop_local_Cons [OF assms(2)] obtain m where m: "arena_at s (fst (arenas ! j0)) m"
    "j0 < active_arena_count ctx" and pop: "pop_local ctx s =
       Inr (mkh (snd (arenas ! j0)) i, ctx\<lparr>local_top := next_handle (slots m i)\<rparr>,
            arena_write (fst (arenas ! j0))
              (m\<lparr>slots := (slots m)(i := (slots m i)\<lparr>self_handle := mkh (snd (arenas ! j0)) i\<rparr>)\<rparr>) s)"
    and inv: "alloc_inv (ctx\<lparr>local_top := next_handle (slots m i)\<rparr>)
       (arena_write (fst (arenas ! j0))
          (m\<lparr>slots := (slots m)(i := (slots m i)\<lparr>self_handle := mkh (snd (arenas ! j0)) i\<rparr>)\<rparr>) s)
       arenas SH j0 l" by metis
  have "i < SLOTS_PER_ARENA"
    using alloc_inv_local [OF assms(2)] by (auto simp: stack_inv_def usable_slots_def)
  with in_use_of_pop [OF assms(2)] assms(3)
    alloc_stI [OF heap_inv_write [OF assms(1) arena_at_heap [OF m(1)]] inv] show thesis
    by (intro that [OF pop]) (auto simp: mkh_not_NULL)
qed

lemma pop_local_spec:
  assumes "alloc_st ctx s U"
  obtains (Empty) ctx' where "pop_local ctx s = Inr (HANDLE_NULL, ctx', s)" "alloc_st_drained ctx' s U"
  | (Slot) h ctx' s' where "pop_local ctx s = Inr (h, ctx', s')" "h \<noteq> HANDLE_NULL" "h \<notin> U"
    "alloc_st ctx' s' (insert h U)" "g_global_arena_cnt s' = g_global_arena_cnt s"
proof -
  from assms obtain arenas SH j0 l where st: "heap_inv s" "alloc_inv ctx s arenas SH j0 l"
    "in_use_of arenas (active_arena_count ctx) SH j0 l = U" by (auto simp: alloc_st_def)
  show thesis
  proof (cases l)
    case Nil
    with st(2) have pop: "pop_local ctx s = Inr (HANDLE_NULL, ctx\<lparr>local_top := HANDLE_NULL\<rparr>, s)"
      "alloc_inv (ctx\<lparr>local_top := HANDLE_NULL\<rparr>) s arenas SH j0 []"
      by (simp_all add: pop_local_Nil)
    show thesis
      using Nil st(3) by (intro Empty [OF pop(1)] alloc_st_drainedI [OF st(1) pop(2)]) simp
  next
    case (Cons i l')
    with st pop_local_nonempty [of s ctx arenas SH j0 i l' U] Slot show thesis by metis
  qed
qed

section \<open>Stealing a batch\<close>

lemma uint_of_nat_index: "k < MAX_ARENAS \<Longrightarrow> uint (of_nat k :: u32) = int k"
  by (simp add: MAX_ARENAS_def unsigned_of_nat take_bit_nat_eq_self flip: uint_nat)

lemma steal_loop_step:
  assumes inv: "alloc_inv ctx s arenas SH j0 []" and i: "i < active_arena_count ctx"
  obtains m where "arena_at s (fst (arenas ! i)) m"
    "stack_inv (snd (arenas ! i)) m (SH i) []"
    "SH i = [] \<Longrightarrow> steal_loop i ctx s = steal_loop (Suc i) ctx s"
    "SH i \<noteq> [] \<Longrightarrow> steal_loop i ctx s =
       bindE (pop_local (ctx\<lparr>local_top := top_slot (top_handle m)\<rparr>)
                (arena_write (fst (arenas ! i)) (m\<lparr>top_handle := ucast (mkh (snd (arenas ! i)) 0)\<rparr>) s))
         (\<lambda>(h, ctx', s'). Inr (Some h, ctx', s'))"
proof -
  from inv have vec: "vec_inv ctx s arenas" by (simp add: alloc_inv_def)
  from alloc_inv_stack [OF inv i] obtain m where m: "i < length arenas"
    "arena_at s (fst (arenas ! i)) m" "stack_inv (snd (arenas ! i)) m (SH i) []"
    by (metis local_slots_def)
  note top = top_is_sentinel_iff [OF m(3)]
  note unfold = steal_loop.simps [of i ctx s] block_get_owned [OF vec m(1)]
    uint_of_nat_index [OF vec_inv_nth(2) [OF vec m(1)]] Let_def
  show thesis
    using i m(2) top by (intro that [OF m(2,3)]) (simp_all add: unfold)
qed

lemma steal_batch:
  assumes st: "heap_inv s" "alloc_inv ctx s arenas SH j0 []"
    "in_use_of arenas (active_arena_count ctx) SH j0 [] = U"
    and i: "i < active_arena_count ctx" and m: "arena_at s (fst (arenas ! i)) m"
    "stack_inv (snd (arenas ! i)) m (SH i) []" and ne: "SH i \<noteq> []"
  obtains h ctx' s' where
    "pop_local (ctx\<lparr>local_top := top_slot (top_handle m)\<rparr>)
       (arena_write (fst (arenas ! i)) (m\<lparr>top_handle := ucast (mkh (snd (arenas ! i)) 0)\<rparr>) s)
     = Inr (h, ctx', s')"
    "h \<noteq> HANDLE_NULL" "h \<notin> U" "alloc_st ctx' s' (insert h U)"
proof -
  let ?m' = "m\<lparr>top_handle := ucast (mkh (snd (arenas ! i)) 0)\<rparr>"
  have "alloc_inv (ctx\<lparr>local_top := top_slot (top_handle m)\<rparr>)
      (arena_write (fst (arenas ! i)) ?m' s) arenas (SH(i := [])) i (SH i)"
  proof (rule alloc_inv_update [OF st(2) i])
    show "stack_inv (snd (arenas ! i)) ?m' [] (local_slots i (SH i) i)"
      using stack_inv_steal [OF m(2)] by (simp add: local_slots_def)
  qed (use i m ne in \<open>auto simp: local_slots_def stack_inv_def arena_at_def arena_write_def\<close>)
  moreover obtain x xs where "SH i = x # xs" using ne by (cases "SH i") auto
  moreover have "in_use_of arenas (active_arena_count ctx) (SH(i := [])) i (SH i) = U"
    using st(3) in_use_of_steal [of arenas _ SH i j0] by simp
  ultimately show thesis
    using pop_local_nonempty [OF heap_inv_write [OF st(1) arena_at_heap [OF m(1)]],
        of "ctx\<lparr>local_top := top_slot (top_handle m)\<rparr>" ?m' arenas "SH(i := [])" i x xs U] that
    by auto
qed

lemma steal_loop_spec:
  assumes st: "heap_inv s" "alloc_inv ctx s arenas SH j0 []"
    "in_use_of arenas (active_arena_count ctx) SH j0 [] = U"
  shows "steal_loop i ctx s = Inr (None, ctx, s) \<and> (\<forall>j < active_arena_count ctx. i \<le> j \<longrightarrow> SH j = []) \<or>
    (\<exists>h ctx' s'. steal_loop i ctx s = Inr (Some h, ctx', s') \<and> h \<noteq> HANDLE_NULL \<and> h \<notin> U \<and>
       alloc_st ctx' s' (insert h U))"
proof (induction "active_arena_count ctx - i" arbitrary: i)
  case 0
  then show ?case by (simp add: steal_loop.simps)
next
  case (Suc d)
  then have i: "i < active_arena_count ctx" and d: "d = active_arena_count ctx - Suc i" by simp_all
  from steal_loop_step [OF st(2) i] obtain m where m: "arena_at s (fst (arenas ! i)) m"
    "stack_inv (snd (arenas ! i)) m (SH i) []"
    and skip: "SH i = [] \<Longrightarrow> steal_loop i ctx s = steal_loop (Suc i) ctx s"
    and take: "SH i \<noteq> [] \<Longrightarrow> steal_loop i ctx s =
       bindE (pop_local (ctx\<lparr>local_top := top_slot (top_handle m)\<rparr>)
                (arena_write (fst (arenas ! i)) (m\<lparr>top_handle := ucast (mkh (snd (arenas ! i)) 0)\<rparr>) s))
         (\<lambda>(h, ctx', s'). Inr (Some h, ctx', s'))" by metis
  show ?case
  proof (cases "SH i = []")
    case True
    with Suc.hyps(1) [OF d] skip show ?thesis
      by (auto simp: Suc_le_eq order.order_iff_strict)
  next
    case False
    with take steal_batch [OF st i m False] show ?thesis by fastforce
  qed
qed

section \<open>Reclaiming the last arena\<close>

lemma reclaim_keep:
  assumes inv: "alloc_inv ctx s arenas SH j0 l" and n: "active_arena_count ctx = Suc n"
    and full: "set (SH n) = usable_slots" "local_slots j0 l n = []"
  shows "alloc_inv (ctx\<lparr>active_arena_count := n\<rparr>) (madvise_dontneed (fst (arenas ! n)) s) arenas SH j0 l"
proof -
  from inv have vec: "vec_inv ctx s arenas" by (simp add: alloc_inv_def)
  have len: "n < length arenas" using alloc_inv_active [OF inv] n by simp
  have other: "fst (arenas ! j) \<noteq> fst (arenas ! n)" if "j < n" for j
    using vec_inv_fst_eq [OF vec _ len, of j] that len by simp
  have "vec_inv (ctx\<lparr>active_arena_count := n\<rparr>) (madvise_dontneed (fst (arenas ! n)) s) arenas"
    using vec n by (auto simp: vec_inv_def madvise_dontneed_def arena_write_def)
  moreover have "j0 < n \<or> l = []"
    using inv full(2) n by (cases "j0 = n") (auto simp: alloc_inv_def local_slots_def split: if_splits)
  ultimately show ?thesis
    using inv n other by (auto simp: alloc_inv_def madvise_dontneed_def)
qed

lemma reclaim_last_arena_spec:
  assumes "alloc_st ctx s U"
  obtains b ctx' s' where "reclaim_last_arena_if_empty ctx s = Inr (b, ctx', s')"
    "alloc_st ctx' s' U" "g_global_arena_cnt s' = g_global_arena_cnt s"
    "\<not> b \<Longrightarrow> ctx' = ctx \<and> s' = s"
    "b \<Longrightarrow> active_arena_count ctx = Suc (active_arena_count ctx')"
proof -
  from assms obtain arenas SH j0 l where st: "heap_inv s" "alloc_inv ctx s arenas SH j0 l"
    "in_use_of arenas (active_arena_count ctx) SH j0 l = U" by (auto simp: alloc_st_def)
  from st(2) have vec: "vec_inv ctx s arenas" by (simp add: alloc_inv_def)
  show thesis
  proof (cases "active_arena_count ctx")
    case 0
    with assms show thesis by (intro that) (auto simp: reclaim_last_arena_if_empty_def)
  next
    case (Suc n)
    from alloc_inv_stack [OF st(2), of n] Suc obtain m where m: "n < length arenas"
      "arena_at s (fst (arenas ! n)) m" "stack_inv (snd (arenas ! n)) m (SH n) (local_slots j0 l n)"
      by (metis lessI)
    note unfold = reclaim_last_arena_if_empty_def Let_def block_get_owned [OF vec m(1)] Suc
    note depth = stack_inv_depth [OF m(3)]
    show thesis
    proof (cases "set (SH n) = usable_slots")
      case True
      have "alloc_st (ctx\<lparr>active_arena_count := n\<rparr>) (madvise_dontneed (fst (arenas ! n)) s) U"
        using reclaim_keep [OF st(2) Suc True depth(2) [OF True]] st(3) Suc True
          heap_inv_write [OF st(1) arena_at_heap [OF m(2)]]
        by (intro alloc_stI) (auto simp: in_use_of_last madvise_dontneed_def)
      moreover have eq: "reclaim_last_arena_if_empty ctx s =
          Inr (True, ctx\<lparr>active_arena_count := n\<rparr>, madvise_dontneed (fst (arenas ! n)) s)"
        using True depth(1) m(2) by (simp add: unfold)
      ultimately show thesis
        by (intro that [OF eq]) (auto simp: Suc madvise_dontneed_def)
    next
      case False
      then have "reclaim_last_arena_if_empty ctx s = Inr (False, ctx, s)"
        using depth(1) m(2) by (simp add: unfold)
      with assms show thesis
        by (intro that) auto
    qed
  qed
qed

section \<open>A new or reused arena\<close>

lemma heap_alloc_cases:
  assumes "heap_inv s"
  obtains (Fail) s' where "heap_alloc s = (0, s')" "s' = s\<lparr>alloc_clk := Suc (alloc_clk s)\<rparr>"
  | (Ok) s' where "heap_alloc s = (next_ptr s, s')"
      "s' = s\<lparr>alloc_clk := Suc (alloc_clk s), next_ptr := Suc (next_ptr s)\<rparr>" "next_ptr s \<noteq> 0"
  using assms
  by (cases "alloc_ok (env s) (alloc_clk s)") (auto simp: heap_alloc_def heap_inv_def Let_def)

text \<open>The heap and the tables of two states agree, as far as the arenas are concerned.\<close>

definition same_arenas :: "gstate \<Rightarrow> gstate \<Rightarrow> bool" where
  "same_arenas s s' \<longleftrightarrow>
     arena_heap s' = arena_heap s \<and> g_arena_table s' = g_arena_table s \<and>
     g_global_arena_cnt s' = g_global_arena_cnt s \<and> next_ptr s \<le> next_ptr s'"

lemma same_arenas_vec_inv: "same_arenas s s' \<Longrightarrow> vec_inv ctx s' arenas = vec_inv ctx s arenas"
  by (simp add: same_arenas_def vec_inv_def)

lemma same_arenas_at: "same_arenas s s' \<Longrightarrow> arena_at s' p m = arena_at s p m"
  by (simp add: same_arenas_def arena_at_def)

lemma same_arenas_heap_inv: "same_arenas s s' \<Longrightarrow> heap_inv s \<Longrightarrow> heap_inv s'"
  unfolding heap_inv_def same_arenas_def by (auto intro: less_le_trans)

lemma same_arenas_alloc_inv:
  "same_arenas s s' \<Longrightarrow> alloc_inv ctx s' arenas SH j0 l = alloc_inv ctx s arenas SH j0 l"
  by (simp add: alloc_inv_def same_arenas_vec_inv same_arenas_at)

lemma heap_alloc_same: "heap_alloc s = (p, s') \<Longrightarrow> same_arenas s s'"
  by (auto simp: heap_alloc_def same_arenas_def Let_def split: if_splits)

lemma same_arenas_trans: "same_arenas s s' \<Longrightarrow> same_arenas s' s'' \<Longrightarrow> same_arenas s s''"
  by (auto simp: same_arenas_def)

text \<open>
  \<open>ensure_vector_capacity\<close> when every vector entry is an active arena: the vector has room
  or both blocks grow; or it fails, and a block that was moved leaves its old address behind.
\<close>

lemma ensure_vector_capacity_spec:
  assumes vec: "vec_inv ctx s arenas" and full: "active_arena_count ctx = length arenas"
  obtains (Ok) ctx' s' where "ensure_vector_capacity ctx s = Inr (0, ctx', s')"
      "vec_inv ctx' s' arenas" "length arenas < vector_capacity ctx'"
      "active_arena_count ctx' = active_arena_count ctx" "local_top ctx' = local_top ctx"
      "same_arenas s s'"
  | (Fail) ctx' s' where "ensure_vector_capacity ctx s = Inr (-1, ctx', s')"
      "ctx' = ctx \<or> owned_arenas ctx' = Freed \<or> arena_indices ctx' = Freed" "same_arenas s s'"
proof (cases "active_arena_count ctx < vector_capacity ctx")
  case True
  with vec full Ok [of ctx s] show thesis
    by (simp add: ensure_vector_capacity_def same_arenas_def)
next
  case False
  with vec full have cap: "vector_capacity ctx = length arenas" by (simp add: vec_inv_def)
  let ?cap = "if vector_capacity ctx = 0 then 4 else vector_capacity ctx * 2"
  from vec cap obtain xs where blocks: "owned_arenas ctx = Live (map fst arenas)"
    "arena_indices ctx = Live xs" "xs = map (\<lambda>a. Some (of_nat (snd a))) arenas"
    by (auto simp: vec_inv_def)
  obtain p1 s1 where a1: "heap_alloc s = (p1, s1)" by fastforce
  obtain p2 s2 where a2: "heap_alloc s1 = (p2, s2)" by fastforce
  have same: "same_arenas s s2"
    using heap_alloc_same [OF a1] heap_alloc_same [OF a2] by (rule same_arenas_trans)
  show thesis
  proof (cases "p1 = 0 \<or> p2 = 0")
    case True
    let ?ctx' = "ctx\<lparr>owned_arenas := (if p1 = 0 then owned_arenas ctx else stale (owned_arenas ctx)),
      arena_indices := (if p2 = 0 then arena_indices ctx else stale (arena_indices ctx))\<rparr>"
    have eq: "ensure_vector_capacity ctx s = Inr (-1, ?ctx', s2)"
      using False True blocks a1 a2 by (auto simp: ensure_vector_capacity_def Let_def)
    show thesis
      using same blocks by (intro Fail [OF eq]) (cases arenas; auto)
  next
    case both: False
    let ?ctx' = "ctx\<lparr>owned_arenas := Live (map fst arenas @ replicate (?cap - length arenas) 0),
      arena_indices := Live (xs @ replicate (?cap - length arenas) None), vector_capacity := ?cap\<rparr>"
    have eq: "ensure_vector_capacity ctx s = Inr (0, ?ctx', s2)"
      using False both blocks a1 a2 cap by (auto simp: ensure_vector_capacity_def Let_def)
    have "vec_inv ?ctx' s2 arenas"
      unfolding same_arenas_vec_inv [OF same] using vec cap blocks full by (auto simp: vec_inv_def)
    with eq same cap show thesis by (intro Ok [OF eq]) auto
  qed
qed

lemma vec_inv_snoc:
  assumes vec: "vec_inv ctx s arenas" and room: "length arenas < vector_capacity ctx"
    and new: "p \<noteq> 0" "k < MAX_ARENAS" "g_arena_table s k = p" "arena_heap s p \<noteq> None"
    "p \<notin> set (map fst arenas)"
  obtains oa ai where "block_set (owned_arenas ctx) (length arenas) p = Inr oa"
    "block_set (arena_indices ctx) (length arenas) (Some (of_nat k)) = Inr ai"
    "vec_inv (ctx\<lparr>owned_arenas := oa, arena_indices := ai\<rparr>) s (arenas @ [(p, k)])"
proof -
  from room obtain d where d: "vector_capacity ctx - length arenas = Suc d"
    by (metis Suc_diff_Suc)
  then have d': "vector_capacity ctx - Suc (length arenas) = d" by simp
  from vec d obtain y ys where blocks:
    "owned_arenas ctx = Live (map fst arenas @ 0 # replicate d 0)"
    "arena_indices ctx = Live (map (\<lambda>a. Some (of_nat (snd a))) arenas @ y # ys)" "length ys = d"
    by (auto simp: vec_inv_def length_Suc_conv)
  show thesis
  proof (rule that)
    show "block_set (owned_arenas ctx) (length arenas) p =
        Inr (Live (map fst arenas @ p # replicate d 0))"
      by (simp add: blocks list_update_append)
    show "block_set (arena_indices ctx) (length arenas) (Some (of_nat k)) =
        Inr (Live (map (\<lambda>a. Some (of_nat (snd a))) arenas @ Some (of_nat k) # ys))"
      by (simp add: blocks list_update_append)
    show "vec_inv (ctx\<lparr>owned_arenas := Live (map fst arenas @ p # replicate d 0),
         arena_indices := Live (map (\<lambda>a. Some (of_nat (snd a))) arenas @ Some (of_nat k) # ys)\<rparr>)
         s (arenas @ [(p, k)])"
      using vec room new d' blocks(3) by (auto simp: vec_inv_def)
  qed
qed

text \<open>
  The arena \<open>init_arena\<close> works on becomes entry number \<open>active_arena_count\<close> of the vector;
  the entries before it are untouched.
\<close>

definition selected ::
  "thread_context \<Rightarrow> gstate \<Rightarrow> (ptr \<times> nat) list \<Rightarrow> (nat \<Rightarrow> nat list) \<Rightarrow> nat \<Rightarrow> (ptr \<times> nat) list \<Rightarrow> ptr \<times> nat \<Rightarrow> bool" where
  "selected ctx' s' arenas SH j0 arenas' a \<longleftrightarrow>
     heap_inv s' \<and> alloc_inv ctx' s' arenas' SH j0 [] \<and> active_arena_count ctx' < length arenas' \<and>
     arenas' ! active_arena_count ctx' = a \<and>
     (\<forall>j < active_arena_count ctx'. arenas' ! j = arenas ! j)"

lemma new_arena_state:
  assumes hi: "heap_inv s" and cnt: "unat (g_global_arena_cnt s) < MAX_ARENAS"
    and s': "arena_heap s' = (arena_heap s)(next_ptr s \<mapsto> zero_arena)"
      "g_arena_table s' = (g_arena_table s)(unat (g_global_arena_cnt s) := next_ptr s)"
      "g_global_arena_cnt s' = g_global_arena_cnt s + 1" "next_ptr s' = Suc (next_ptr s)"
  shows "heap_inv s'"
    and "alloc_inv ctx s arenas SH j0 l \<Longrightarrow> alloc_inv ctx s' arenas SH j0 l"
    and "vec_inv ctx s arenas \<Longrightarrow> next_ptr s \<notin> set (map fst arenas)"
proof -
  have cnt': "unat (g_global_arena_cnt s + 1) = Suc (unat (g_global_arena_cnt s))"
    using cnt by (simp add: unat_word_ariths MAX_ARENAS_def)
  show "heap_inv s'"
    using hi unfolding heap_inv_def s' cnt' by (auto simp: less_SucI)
  have fresh: "arena_heap s p \<noteq> None \<Longrightarrow> p \<noteq> next_ptr s" for p
    using hi by (auto simp: heap_inv_def)
  show nin: "next_ptr s \<notin> set (map fst arenas)" if "vec_inv ctx s arenas" for arenas
    using that fresh by (fastforce simp: vec_inv_def)
  have tab: "snd a \<noteq> unat (g_global_arena_cnt s)" if "vec_inv ctx s arenas" "a \<in> set arenas" for a arenas
  proof -
    have "g_arena_table s (snd a) \<noteq> 0" using that by (auto simp: vec_inv_def)
    with hi show ?thesis unfolding heap_inv_def by (metis less_irrefl)
  qed
  assume inv: "alloc_inv ctx s arenas SH j0 l"
  then have vec: "vec_inv ctx s arenas" by (simp add: alloc_inv_def)
  have at: "arena_at s' p m \<longleftrightarrow> arena_at s p m" if "p \<in> set (map fst arenas)" for p m
  proof -
    have "p \<noteq> next_ptr s" using that nin [OF vec] by metis
    then show ?thesis by (simp add: arena_at_def s')
  qed
  have mem: "fst (arenas ! j) \<in> set (map fst arenas)" if "j < active_arena_count ctx" for j
    using that alloc_inv_active [OF inv] by auto
  have "vec_inv ctx s' arenas"
    using vec nin [OF vec] tab [OF vec] by (auto simp: vec_inv_def s')
  with inv show "alloc_inv ctx s' arenas SH j0 l"
    by (auto simp: alloc_inv_def at [OF mem])
qed

lemma heap_inv_count:
  assumes "heap_inv s" "g_global_arena_cnt s \<noteq> -1"
  shows "heap_inv (s\<lparr>g_global_arena_cnt := g_global_arena_cnt s + 1\<rparr>)"
proof -
  have "unat (g_global_arena_cnt s + 1) = Suc (unat (g_global_arena_cnt s))"
    using assms(2) unatSuc [of "g_global_arena_cnt s"]
    by (simp add: add.commute eq_neg_iff_add_eq_0)
  with assms(1) show ?thesis by (auto simp: heap_inv_def less_SucI)
qed

lemma init_arena_select_reuse:
  assumes hi: "heap_inv s" and inv: "alloc_inv ctx s arenas SH j0 []"
    and spare: "active_arena_count ctx < length arenas"
  shows "init_arena_select ctx s = Inr (Some (arenas ! active_arena_count ctx), ctx, s)"
    and "selected ctx s arenas SH j0 arenas (arenas ! active_arena_count ctx)"
proof -
  from inv have vec: "vec_inv ctx s arenas" by (simp add: alloc_inv_def)
  let ?k = "snd (arenas ! active_arena_count ctx)"
  have "unat (of_nat ?k :: u32) = ?k"
    using vec_inv_nth(2) [OF vec spare] by (simp add: MAX_ARENAS_def unat_of_nat take_bit_nat_eq_self)
  moreover have "active_arena_count ctx < vector_capacity ctx"
    using vec spare by (simp add: vec_inv_def)
  ultimately show "init_arena_select ctx s = Inr (Some (arenas ! active_arena_count ctx), ctx, s)"
    using vec_inv_nth(1) [OF vec spare]
    by (simp add: init_arena_select_def block_get_owned [OF vec spare])
  show "selected ctx s arenas SH j0 arenas (arenas ! active_arena_count ctx)"
    using hi inv spare by (simp add: selected_def)
qed

text \<open>The failure outcome: the context is intact, or \<open>realloc\<close> left a dangling block pointer.\<close>

definition alloc_failed :: "thread_context \<Rightarrow> gstate \<Rightarrow> u32 set \<Rightarrow> bool" where
  "alloc_failed ctx s U \<longleftrightarrow>
     alloc_st ctx s U \<or> owned_arenas ctx = Freed \<or> arena_indices ctx = Freed"

lemma push_owned_arena_spec:
  assumes hi: "heap_inv s" and inv: "alloc_inv ctx s arenas SH j0 []"
    and U: "in_use_of arenas (active_arena_count ctx) SH j0 [] = U"
    and last: "active_arena_count ctx = length arenas"
    and new: "p \<noteq> 0" "k < MAX_ARENAS" "g_arena_table s k = p" "arena_heap s p \<noteq> None"
    "p \<notin> set (map fst arenas)"
  obtains (Pushed) ctx' s' arenas' where "push_owned_arena p k ctx s = Inr (Some (p, k), ctx', s')"
      "selected ctx' s' arenas SH j0 arenas' (p, k)" "active_arena_count ctx' = active_arena_count ctx"
  | (Failed) ctx' s' where "push_owned_arena p k ctx s = Inr (None, ctx', s')" "alloc_failed ctx' s' U"
proof -
  from inv have vec: "vec_inv ctx s arenas" by (simp add: alloc_inv_def)
  from vec last show thesis
  proof (cases rule: ensure_vector_capacity_spec)
    case (Fail ctx1 s1)
    have "alloc_failed ctx1 s1 U"
      using Fail(2) alloc_stI [OF same_arenas_heap_inv [OF Fail(3) hi], of ctx] inv U
      by (auto simp: alloc_failed_def same_arenas_alloc_inv [OF Fail(3)])
    with Fail(1) show thesis by (intro Failed [of ctx1 s1]) (auto simp: push_owned_arena_def)
  next
    case (Ok ctx1 s1)
    have new1: "g_arena_table s1 k = p" "arena_heap s1 p \<noteq> None"
      using new(3,4) Ok(6) by (simp_all add: same_arenas_def)
    from vec_inv_snoc [OF Ok(2,3) new(1,2) new1 new(5)] obtain oa ai where set:
      "block_set (owned_arenas ctx1) (length arenas) p = Inr oa"
      "block_set (arena_indices ctx1) (length arenas) (Some (of_nat k)) = Inr ai"
      "vec_inv (ctx1\<lparr>owned_arenas := oa, arena_indices := ai\<rparr>) s1 (arenas @ [(p, k)])" by blast
    have eq: "push_owned_arena p k ctx s =
        Inr (Some (p, k), ctx1\<lparr>owned_arenas := oa, arena_indices := ai\<rparr>, s1)"
      using Ok(1,4) set(1,2) last by (simp add: push_owned_arena_def)
    have "alloc_inv (ctx1\<lparr>owned_arenas := oa, arena_indices := ai\<rparr>) s1 (arenas @ [(p, k)]) SH j0 []"
      using inv set(3) Ok(4,5) last
      by (simp add: alloc_inv_def same_arenas_at [OF Ok(6)] nth_append)
    then show thesis
      using same_arenas_heap_inv [OF Ok(6) hi] Ok(4) last
      by (intro Pushed [OF eq, of "arenas @ [(p, k)]"]) (simp_all add: selected_def nth_append)
  qed
qed

lemma init_arena_select_new:
  assumes hi: "heap_inv s" and inv: "alloc_inv ctx s arenas SH j0 []"
    and U: "in_use_of arenas (active_arena_count ctx) SH j0 [] = U"
    and last: "active_arena_count ctx = length arenas" and cnt: "g_global_arena_cnt s \<noteq> -1"
  obtains (Pushed) a ctx' s' arenas' where "init_arena_select ctx s = Inr (Some a, ctx', s')"
      "selected ctx' s' arenas SH j0 arenas' a" "active_arena_count ctx' = active_arena_count ctx"
  | (Failed) ctx' s' where "init_arena_select ctx s = Inr (None, ctx', s')" "alloc_failed ctx' s' U"
proof -
  from inv have vec: "vec_inv ctx s arenas" by (simp add: alloc_inv_def)
  let ?k = "unat (g_global_arena_cnt s)"
  let ?s1 = "s\<lparr>g_global_arena_cnt := g_global_arena_cnt s + 1\<rparr>"
  have hi1: "heap_inv ?s1" by (rule heap_inv_count [OF hi cnt])
  have inv1: "alloc_inv ctx ?s1 arenas SH j0 []"
    using inv by (simp add: alloc_inv_def vec_inv_def arena_at_def)
  have old: "(if active_arena_count ctx < vector_capacity ctx
       then block_get (owned_arenas ctx) (active_arena_count ctx) else Inr 0) = Inr 0"
    using vec last by (auto simp: vec_inv_def nth_append)
  note unfold = init_arena_select_def old Let_def
  show thesis
  proof (cases "?k < MAX_ARENAS")
    case False
    then have eq: "init_arena_select ctx s = Inr (None, ctx, ?s1)" by (simp add: unfold)
    from alloc_stI [OF hi1 inv1 U] show thesis
      by (intro Failed [OF eq]) (simp add: alloc_failed_def)
  next
    case k: True
    from hi1 show thesis
    proof (cases rule: heap_alloc_cases)
      case (Fail s2)
      then have eq: "init_arena_select ctx s = Inr (None, ctx, s2)"
        using k by (simp add: unfold)
      have "same_arenas ?s1 s2" using Fail(1) by (rule heap_alloc_same)
      then have "alloc_st ctx s2 U"
        using hi1 inv1 U by (intro alloc_stI) (auto simp: same_arenas_heap_inv same_arenas_alloc_inv)
      then show thesis by (intro Failed [OF eq]) (simp add: alloc_failed_def)
    next
      case (Ok s2)
      let ?p = "next_ptr s"
      let ?s3 = "arena_write ?p zero_arena s2"
      let ?s4 = "?s3\<lparr>g_arena_table := (g_arena_table ?s3)(?k := ?p)\<rparr>"
      have s4: "arena_heap ?s4 = (arena_heap s)(?p \<mapsto> zero_arena)"
        "g_arena_table ?s4 = (g_arena_table s)(?k := ?p)"
        "g_global_arena_cnt ?s4 = g_global_arena_cnt s + 1" "next_ptr ?s4 = Suc ?p"
        using Ok(2) by (simp_all add: arena_write_def)
      note new = new_arena_state [OF hi k s4]
      have eq: "init_arena_select ctx s = push_owned_arena ?p ?k ctx ?s4"
        using k Ok by (simp add: unfold)
      have "?p \<noteq> 0" using Ok(3) by simp
      moreover have "g_arena_table ?s4 ?k = ?p" "arena_heap ?s4 ?p \<noteq> None"
        by (simp_all only: s4) simp_all
      ultimately show thesis
        using push_owned_arena_spec [OF new(1) new(2) [OF inv] U last _ k _ _ new(3) [OF vec]]
          Pushed Failed eq by metis
    qed
  qed
qed

lemma init_arena_fill:
  assumes sel: "selected ctx s arenas SH j0 arenas' (p, k)"
    and U: "in_use_of arenas (active_arena_count ctx) SH j0 [] = U"
  obtains m where "arena_at s p m"
    "heap_inv (arena_write p \<lparr>top_handle = ucast (mkh k 0), slots = fresh_slots k m\<rparr> s)"
    "alloc_inv (ctx\<lparr>active_arena_count := Suc (active_arena_count ctx),
        local_top := mkh k (SLOTS_PER_ARENA - 1)\<rparr>)
       (arena_write p \<lparr>top_handle = ucast (mkh k 0), slots = fresh_slots k m\<rparr> s)
       arenas' (SH(active_arena_count ctx := [])) (active_arena_count ctx) all_slots"
    "in_use_of arenas' (Suc (active_arena_count ctx)) (SH(active_arena_count ctx := []))
       (active_arena_count ctx) all_slots = U"
proof -
  let ?n = "active_arena_count ctx"
  from sel have hi: "heap_inv s" and inv: "alloc_inv ctx s arenas' SH j0 []"
    and n: "?n < length arenas'" and nth: "arenas' ! ?n = (p, k)"
    and eq: "\<And>j. j < ?n \<Longrightarrow> arenas' ! j = arenas ! j"
    by (auto simp: selected_def)
  from inv have vec: "vec_inv ctx s arenas'" by (simp add: alloc_inv_def)
  have p: "p \<noteq> 0" using vec_inv_nth(1) [OF vec n] nth by simp
  obtain m where m: "arena_at s p m"
    using vec p nth_mem [OF n] nth by (fastforce simp: vec_inv_def arena_at_def)
  let ?m' = "\<lparr>top_handle = ucast (mkh k 0), slots = fresh_slots k m\<rparr>"
  have other: "fst (arenas' ! j) \<noteq> p" if "j < ?n" for j
    using vec_inv_fst_eq [OF vec _ n, of j] that n nth by simp
  have "vec_inv (ctx\<lparr>active_arena_count := Suc ?n, local_top := mkh k (SLOTS_PER_ARENA - 1)\<rparr>)
      (arena_write p ?m' s) arenas'"
    using vec n by (auto simp: vec_inv_def arena_write_def)
  moreover have "\<exists>m. arena_at (arena_write p ?m' s) (fst (arenas' ! j)) m \<and>
      stack_inv (snd (arenas' ! j)) m ((SH(?n := [])) j) (local_slots ?n all_slots j)"
    if "j < Suc ?n" for j
    using that inv other p nth setup_stack_inv [of k m]
    by (cases "j = ?n") (auto simp: alloc_inv_def local_slots_def less_Suc_eq)
  ultimately have "alloc_inv (ctx\<lparr>active_arena_count := Suc ?n, local_top := mkh k (SLOTS_PER_ARENA - 1)\<rparr>)
       (arena_write p ?m' s) arenas' (SH(?n := [])) ?n all_slots"
    using p nth setup_chain [of k m] by (simp add: alloc_inv_def all_slots_not_Nil)
  then show thesis
    using m U in_use_of_new [of ?n arenas' arenas SH j0] eq
    by (intro that [of m] heap_inv_write [OF hi]) (auto simp: arena_at_def)
qed

lemma init_arena_spec:
  assumes st: "alloc_st_drained ctx s U" and cnt: "g_global_arena_cnt s \<noteq> -1"
  obtains (Ready) ctx' s' arenas' SH' j' where "init_arena ctx s = Inr (0, ctx', s')"
      "heap_inv s'" "alloc_inv ctx' s' arenas' SH' j' all_slots"
      "in_use_of arenas' (active_arena_count ctx') SH' j' all_slots = U"
  | (Failed) ctx' s' where "init_arena ctx s = Inr (-1, ctx', s')" "alloc_failed ctx' s' U"
proof -
  from st obtain arenas SH j0 where st: "heap_inv s" "alloc_inv ctx s arenas SH j0 []"
    "in_use_of arenas (active_arena_count ctx) SH j0 [] = U" by (auto simp: alloc_st_drained_def)
  have fill: thesis if sel: "init_arena_select ctx s = Inr (Some a, ctx1, s1)"
    "selected ctx1 s1 arenas SH j0 arenas' a" "active_arena_count ctx1 = active_arena_count ctx"
    for a ctx1 s1 arenas'
  proof -
    obtain p k where a: "a = (p, k)" by fastforce
    from init_arena_fill [OF sel(2) [unfolded a], of U] st(3) sel(3) obtain m where m: "arena_at s1 p m"
      "heap_inv (arena_write p \<lparr>top_handle = ucast (mkh k 0), slots = fresh_slots k m\<rparr> s1)"
      "alloc_inv (ctx1\<lparr>active_arena_count := Suc (active_arena_count ctx1),
          local_top := mkh k (SLOTS_PER_ARENA - 1)\<rparr>)
         (arena_write p \<lparr>top_handle = ucast (mkh k 0), slots = fresh_slots k m\<rparr> s1)
         arenas' (SH(active_arena_count ctx1 := [])) (active_arena_count ctx1) all_slots"
      "in_use_of arenas' (Suc (active_arena_count ctx1)) (SH(active_arena_count ctx1 := []))
         (active_arena_count ctx1) all_slots = U" by (metis (no_types, lifting))
    have "init_arena ctx s = Inr (0, ctx1\<lparr>active_arena_count := Suc (active_arena_count ctx1),
          local_top := mkh k (SLOTS_PER_ARENA - 1)\<rparr>,
          arena_write p \<lparr>top_handle = ucast (mkh k 0), slots = fresh_slots k m\<rparr> s1)"
      using sel(1) m(1) by (simp add: init_arena_def a setup_arena_stack_closed Let_def)
    from Ready [OF this m(2,3)] m(4) show thesis by simp
  qed
  show thesis
  proof (cases "active_arena_count ctx < length arenas")
    case True
    with fill init_arena_select_reuse [OF st(1,2)] show thesis by blast
  next
    case False
    with alloc_inv_active [OF st(2)] have "active_arena_count ctx = length arenas" by simp
    from st this cnt show thesis
    proof (cases rule: init_arena_select_new)
      case (Pushed a ctx' s' arenas')
      with fill show thesis by blast
    next
      case (Failed ctx' s')
      then show thesis
        by (intro \<open>\<And>ctx' s'. init_arena ctx s = Inr (-1, ctx', s') \<Longrightarrow>
            alloc_failed ctx' s' U \<Longrightarrow> thesis\<close>) (auto simp: init_arena_def)
    qed
  qed
qed

section \<open>Allocation and deallocation\<close>

text \<open>Only the arenas change: every other part of the state is as before.\<close>

definition arenas_only :: "gstate \<Rightarrow> gstate \<Rightarrow> bool" where
  "arenas_only s s' \<longleftrightarrow> (\<exists>h. s' = s\<lparr>arena_heap := h\<rparr>)"

lemma arenas_only_refl [simp]: "arenas_only s s"
  unfolding arenas_only_def by (rule exI [of _ "arena_heap s"]) simp

lemma arenas_only_trans: "arenas_only s s' \<Longrightarrow> arenas_only s' s'' \<Longrightarrow> arenas_only s s''"
  unfolding arenas_only_def by fastforce

lemma arenas_only_write [simp]: "arenas_only s (arena_write p m s)"
  unfolding arenas_only_def arena_write_def by blast

lemma reclaim_frame:
  "reclaim_last_arena_if_empty ctx s = Inr (b, ctx', s') \<Longrightarrow>
   thread_id ctx' = thread_id ctx \<and> arenas_only s s'"
  by (auto simp: reclaim_last_arena_if_empty_def Let_def madvise_dontneed_def split: if_splits)

lemma alloc_slot_spec:
  assumes st: "alloc_st ctx s U" and cnt: "g_global_arena_cnt s \<noteq> -1"
  obtains (Slot) h ctx' s' where "alloc_slot ctx s = Inr (h, ctx', s')" "h \<noteq> HANDLE_NULL"
      "h \<notin> U" "alloc_st ctx' s' (insert h U)"
  | (Failed) ctx' s' ctx1 s1 where "alloc_slot ctx s = Inr (HANDLE_NULL, ctx', s')"
      "alloc_failed ctx' s' U" "init_arena ctx1 s1 = Inr (-1, ctx', s')" "arenas_only s s1"
proof -
  let ?ctx0 = "ctx\<lparr>alloc_count := alloc_count ctx + 1\<rparr>"
  have st0: "alloc_st ?ctx0 s U" using st by simp
  obtain b ctx1 s1 where r: "(if alloc_count ?ctx0 mod of_nat SLOTS_PER_ARENA = 0
      then reclaim_last_arena_if_empty ?ctx0 s else Inr (False, ?ctx0, s)) = Inr (b, ctx1, s1)"
    "alloc_st ctx1 s1 U" "g_global_arena_cnt s1 \<noteq> -1"
    using reclaim_last_arena_spec [OF st0] st0 cnt by (metis (no_types, lifting))
  have only: "arenas_only s s1" using r(1) by (auto dest: reclaim_frame split: if_splits)
  note unfold = alloc_slot_def [of ctx s, unfolded Let_def, unfolded r(1) bindE_Inr prod.case]
  from r(2) show thesis
  proof (cases rule: pop_local_spec)
    case (Slot h ctx2 s2)
    then show thesis
      by (intro \<open>\<And>h ctx' s'. alloc_slot ctx s = Inr (h, ctx', s') \<Longrightarrow> h \<noteq> HANDLE_NULL \<Longrightarrow>
          h \<notin> U \<Longrightarrow> alloc_st ctx' s' (insert h U) \<Longrightarrow> thesis\<close>) (auto simp: unfold)
  next
    case (Empty ctx2)
    from Empty(2) obtain arenas SH j0 where d: "heap_inv s1" "alloc_inv ctx2 s1 arenas SH j0 []"
      "in_use_of arenas (active_arena_count ctx2) SH j0 [] = U" by (auto simp: alloc_st_drained_def)
    from steal_loop_spec [OF d, of 0] show thesis
    proof (elim disjE exE conjE)
      fix h ctx' s'
      assume "steal_loop 0 ctx2 s1 = Inr (Some h, ctx', s')" "h \<noteq> HANDLE_NULL" "h \<notin> U"
        "alloc_st ctx' s' (insert h U)"
      with Empty(1) show thesis by (intro Slot [of h ctx' s']) (auto simp: unfold)
    next
      assume none: "steal_loop 0 ctx2 s1 = Inr (None, ctx2, s1)"
      from Empty(2) r(3) show thesis
      proof (cases rule: init_arena_spec)
        case (Failed ctx' s')
        with none Empty(1) only show thesis
          by (intro \<open>\<And>ctx' s' ctx1 s1. alloc_slot ctx s = Inr (HANDLE_NULL, ctx', s') \<Longrightarrow>
              alloc_failed ctx' s' U \<Longrightarrow> init_arena ctx1 s1 = Inr (-1, ctx', s') \<Longrightarrow>
              arenas_only s s1 \<Longrightarrow> thesis\<close>) (auto simp: unfold)
      next
        case (Ready ctx' s' arenas' SH' j')
        obtain i l where "all_slots = i # l" using all_slots_not_Nil by (cases all_slots) auto
        with pop_local_nonempty [OF Ready(2), of ctx' arenas' SH' j' i l U] Ready(3,4)
        obtain h ctx4 s4 where "pop_local ctx' s' = Inr (h, ctx4, s4)" "h \<noteq> HANDLE_NULL" "h \<notin> U"
          "alloc_st ctx4 s4 (insert h U)" by metis
        with none Empty(1) Ready(1) show thesis by (intro Slot [of h ctx4 s4]) (auto simp: unfold)
      qed
    qed
  qed
qed

text \<open>
  The loop of \<open>free_slot\<close> pushes the slot on the stack it finds, whatever top value it started
  from and however often the weak compare-and-swap fails.
\<close>

definition pushed :: "memory_arena \<Rightarrow> nat \<Rightarrow> u32 \<Rightarrow> memory_arena" where
  "pushed m i h =
     \<lparr>top_handle = free_slot_new_top (top_handle m) h,
      slots = (slots m)(i := (slots m i)\<lparr>self_handle := top_slot (top_handle m)\<rparr>)\<rparr>"

lemma arena_write_write [simp]: "arena_write p m (arena_write p m' s) = arena_write p m s"
  by (simp add: arena_write_def)

lemma pushed_relink [simp]:
  "pushed (m\<lparr>slots := (slots m)(i := (slots m i)\<lparr>self_handle := x\<rparr>)\<rparr>) i h = pushed m i h"
  by (simp add: pushed_def)

lemma free_slot_loop_fresh:
  "arena_at s p m \<Longrightarrow> i < SLOTS_PER_ARENA \<Longrightarrow>
   free_slot_loop n p (p, i) h (top_handle m) s = Inr (arena_write p (pushed m i h) s)"
proof (induction n arbitrary: s m)
  case 0
  then have "p \<noteq> 0" by (simp add: arena_at_def)
  with 0 show ?case
    by (subst free_slot_loop.simps)
      (auto simp: version_modify_at Let_def pushed_def
        intro!: arg_cong [where f = "\<lambda>m. arena_write p m s"] memory_arena.equality)
next
  case (Suc n)
  let ?m1 = "m\<lparr>slots := (slots m)(i := (slots m i)\<lparr>self_handle := top_slot (top_handle m)\<rparr>)\<rparr>"
  have "p \<noteq> 0" using Suc.prems by (simp add: arena_at_def)
  then have "free_slot_loop n p (p, i) h (top_handle ?m1) (arena_write p ?m1 s) =
      Inr (arena_write p (pushed m i h) s)"
    using Suc.IH [of "arena_write p ?m1 s" ?m1] Suc.prems(2) by simp
  with Suc.prems \<open>p \<noteq> 0\<close> show ?case
    by (subst free_slot_loop.simps) (simp add: version_modify_at Let_def)
qed

lemma free_slot_loop_pushes:
  assumes "arena_at s p m" "i < SLOTS_PER_ARENA"
  shows "free_slot_loop n p (p, i) h old_top s = Inr (arena_write p (pushed m i h) s)"
proof (cases "old_top = top_handle m")
  case True
  with free_slot_loop_fresh [OF assms] show ?thesis by simp
next
  case False
  let ?m1 = "m\<lparr>slots := (slots m)(i := (slots m i)\<lparr>self_handle := top_slot old_top\<rparr>)\<rparr>"
  have "p \<noteq> 0" using assms by (simp add: arena_at_def)
  then have "free_slot_loop (n - 1) p (p, i) h (top_handle ?m1) (arena_write p ?m1 s) =
      Inr (arena_write p (pushed m i h) s)"
    using free_slot_loop_fresh [of "arena_write p ?m1 s" p ?m1 i "n - 1" h] assms(2) by simp
  with False assms \<open>p \<noteq> 0\<close> show ?thesis
    by (subst free_slot_loop.simps) (simp add: version_modify_at Let_def)
qed

lemma free_slot_pushes:
  assumes inv: "alloc_inv ctx s arenas SH j0 l" and j: "j < active_arena_count ctx"
    and i: "i \<in> usable_slots" "i \<notin> set (SH j)" "i \<notin> set (local_slots j0 l j)"
  obtains m where "arena_at s (fst (arenas ! j)) m"
    "free_slot (fst (arenas ! j), i) s =
       Inr (arena_write (fst (arenas ! j)) (pushed m i (mkh (snd (arenas ! j)) i))
              (s\<lparr>cas_clk := Suc (cas_clk s)\<rparr>))"
    "alloc_inv ctx (arena_write (fst (arenas ! j)) (pushed m i (mkh (snd (arenas ! j)) i))
              (s\<lparr>cas_clk := Suc (cas_clk s)\<rparr>)) arenas (SH(j := i # SH j)) j0 l"
proof -
  let ?p = "fst (arenas ! j)" and ?k = "snd (arenas ! j)" and ?s1 = "s\<lparr>cas_clk := Suc (cas_clk s)\<rparr>"
  from inv have vec: "vec_inv ctx s arenas" by (simp add: alloc_inv_def)
  from alloc_inv_stack [OF inv j] obtain m where m: "j < length arenas" "arena_at s ?p m"
    "stack_inv ?k m (SH j) (local_slots j0 l j)" by metis
  have lt: "i < SLOTS_PER_ARENA" using i(1) by (simp add: usable_slots_def)
  have self: "self_handle (slots m i) = mkh ?k i"
    using m(3) i by (simp add: stack_inv_def)
  have at1: "arena_at ?s1 ?p m" using m(2) by (simp add: arena_at_def)
  have eq: "free_slot (?p, i) s = Inr (arena_write ?p (pushed m i (mkh ?k i)) ?s1)"
    using m(2) lt vec_inv_nth [OF vec m(1)]
    by (simp add: free_slot_def version_read_at self next_spurious_def Let_def
        free_slot_loop_pushes [OF at1 lt])
  have inv1: "alloc_inv ctx ?s1 arenas SH j0 l"
    using inv by (subst same_arenas_alloc_inv [of s]) (simp_all add: same_arenas_def)
  have "alloc_inv (ctx\<lparr>local_top := local_top ctx\<rparr>) (arena_write ?p (pushed m i (mkh ?k i)) ?s1)
      arenas (SH(j := i # SH j)) j0 l"
  proof (rule alloc_inv_update [OF inv1 j])
    show "stack_inv ?k (pushed m i (mkh ?k i)) (i # SH j) (local_slots j0 l j)"
      unfolding pushed_def by (rule stack_inv_push [OF m(3) i])
    show "if l = [] then local_top ctx = HANDLE_NULL \<or> slot_idx (local_top ctx) = 0
      else j0 < active_arena_count ctx \<and>
        (\<exists>m'. arena_at (arena_write ?p (pushed m i (mkh ?k i)) ?s1) (fst (arenas ! j0)) m' \<and>
             chain (snd (arenas ! j0)) (slots m') (local_top ctx) l)"
    proof (cases "l = []")
      case True
      with inv show ?thesis by (simp add: alloc_inv_def)
    next
      case False
      from alloc_inv_local [OF inv1 False] obtain m0 where m0: "j0 < active_arena_count ctx"
        "j0 < length arenas" "arena_at ?s1 (fst (arenas ! j0)) m0"
        "chain (snd (arenas ! j0)) (slots m0) (local_top ctx) l" by metis
      show ?thesis
      proof (cases "j0 = j")
        case True
        with m0 at1 i(3) have "chain ?k (slots m) (local_top ctx) l" "i \<notin> set l"
          by (auto simp: local_slots_def dest: arena_at_unique)
        moreover have "?p \<noteq> 0" using m(2) by (simp add: arena_at_def)
        ultimately show ?thesis using True False j by (simp add: pushed_def)
      next
        case neq: False
        with False m0 vec_inv_fst_eq [OF vec m0(2) m(1)] show ?thesis by auto
      qed
    qed
  qed simp
  with that [OF m(2) eq] show thesis by simp
qed

lemma in_use_of_iff:
  "h \<in> in_use_of arenas n SH j0 l \<longleftrightarrow>
   (\<exists>j < n. \<exists>i \<in> usable_slots. h = mkh (snd (arenas ! j)) i \<and> i \<notin> set (SH j) \<and>
      i \<notin> set (local_slots j0 l j))"
  by (auto simp: in_use_of_def)

lemma in_use_of_push:
  assumes inv: "alloc_inv ctx s arenas SH j0 l" and j: "j < active_arena_count ctx"
    and i: "i \<in> usable_slots"
  shows "in_use_of arenas (active_arena_count ctx) (SH(j := i # SH j)) j0 l =
    in_use_of arenas (active_arena_count ctx) SH j0 l - {mkh (snd (arenas ! j)) i}"
proof -
  from inv have vec: "vec_inv ctx s arenas" by (simp add: alloc_inv_def)
  have len: "j' < length arenas" if "j' < active_arena_count ctx" for j'
    using that alloc_inv_active [OF inv] by simp
  have eq: "mkh (snd (arenas ! j')) i' = mkh (snd (arenas ! j)) i \<longleftrightarrow> j' = j \<and> i' = i"
    if "j' < active_arena_count ctx" "i' \<in> usable_slots" for j' i'
    using that i len [OF that(1)] len [OF j]
    by (simp add: mkh_inject vec_inv_nth(2) [OF vec] vec_inv_snd_eq [OF vec] usable_slots_def)
  show ?thesis
  proof (intro set_eqI iffI)
    fix h
    assume "h \<in> in_use_of arenas (active_arena_count ctx) (SH(j := i # SH j)) j0 l"
    then obtain j' i' where h: "j' < active_arena_count ctx" "i' \<in> usable_slots"
      "h = mkh (snd (arenas ! j')) i'" "i' \<notin> set (SH j')" "i' \<notin> set (local_slots j0 l j')"
      "\<not> (j' = j \<and> i' = i)"
      by (auto simp: in_use_of_iff split: if_splits)
    then have "h \<noteq> mkh (snd (arenas ! j)) i" by (simp add: eq)
    with h show "h \<in> in_use_of arenas (active_arena_count ctx) SH j0 l - {mkh (snd (arenas ! j)) i}"
      by (auto simp: in_use_of_iff)
  next
    fix h
    assume "h \<in> in_use_of arenas (active_arena_count ctx) SH j0 l - {mkh (snd (arenas ! j)) i}"
    then obtain j' i' where "j' < active_arena_count ctx" "i' \<in> usable_slots"
      "h = mkh (snd (arenas ! j')) i'" "i' \<notin> set (SH j')" "i' \<notin> set (local_slots j0 l j')"
      "\<not> (j' = j \<and> i' = i)"
      by (auto simp: in_use_of_iff)
    then show "h \<in> in_use_of arenas (active_arena_count ctx) (SH(j := i # SH j)) j0 l"
      unfolding in_use_of_iff by (intro exI [of _ j'] conjI bexI [of _ i']) auto
  qed
qed

lemma free_slot_spec:
  assumes st: "alloc_st ctx s U" and h: "h \<in> U"
  obtains p s' where "resolve_handle s h = Some p" "free_slot p s = Inr s'"
    "alloc_st ctx s' (U - {h})" "g_global_arena_cnt s' = g_global_arena_cnt s"
proof -
  from st obtain arenas SH j0 l where st: "heap_inv s" "alloc_inv ctx s arenas SH j0 l"
    "in_use_of arenas (active_arena_count ctx) SH j0 l = U" by (auto simp: alloc_st_def)
  from st(2) have vec: "vec_inv ctx s arenas" by (simp add: alloc_inv_def)
  from h st(3) obtain j i where ji: "h = mkh (snd (arenas ! j)) i" "j < active_arena_count ctx"
    "i \<in> usable_slots" "i \<notin> set (SH j)" "i \<notin> set (local_slots j0 l j)"
    by (auto simp: in_use_of_def)
  have j: "j < length arenas" using ji(2) alloc_inv_active [OF st(2)] by simp
  from free_slot_pushes [OF st(2) ji(2-5)] obtain m where m: "arena_at s (fst (arenas ! j)) m"
    and eq: "free_slot (fst (arenas ! j), i) s =
       Inr (arena_write (fst (arenas ! j)) (pushed m i (mkh (snd (arenas ! j)) i))
              (s\<lparr>cas_clk := Suc (cas_clk s)\<rparr>))"
    and inv: "alloc_inv ctx (arena_write (fst (arenas ! j)) (pushed m i (mkh (snd (arenas ! j)) i))
              (s\<lparr>cas_clk := Suc (cas_clk s)\<rparr>)) arenas (SH(j := i # SH j)) j0 l" by metis
  have res: "resolve_handle s h = Some (fst (arenas ! j), i)"
    using vec_inv_nth [OF vec j] ji(1,3) by (simp add: resolve_mkh usable_slots_def)
  have "heap_inv (s\<lparr>cas_clk := Suc (cas_clk s)\<rparr>)" using st(1) by (simp add: heap_inv_def)
  then have "heap_inv (arena_write (fst (arenas ! j)) (pushed m i (mkh (snd (arenas ! j)) i))
              (s\<lparr>cas_clk := Suc (cas_clk s)\<rparr>))"
    using arena_at_heap [OF m] by (intro heap_inv_write) simp_all
  from alloc_stI [OF this inv] in_use_of_push [OF st(2) ji(2,3)] st(3) ji(1) show thesis
    by (intro that [OF res eq]) simp_all
qed

end
