(* ===== verification/Arena_Props.thy ===== *)
theory Arena_Props
  imports Arena_Correct
begin

text \<open>
  What the slot allocator promises its clients, as an interface (\<open>slot_pool\<close>) that
  \<open>alloc_slot\<close> and \<open>free_slot\<close> implement, the correctness theorems of the allocator run by
  one thread, and what the half-failed growth of the arena vector leaves behind.
\<close>

section \<open>The interface\<close>

locale slot_pool =
  fixes wf :: "'c \<Rightarrow> 's \<Rightarrow> bool"
    and in_use_set :: "'c \<Rightarrow> 's \<Rightarrow> 'h set"
    and alloc :: "'c \<Rightarrow> 's \<Rightarrow> ('h \<times> 'c \<times> 's) result"
    and release :: "'h \<Rightarrow> 's \<Rightarrow> 's result"
    and null :: 'h
  assumes alloc_returns: "wf c s \<Longrightarrow> \<exists>h c' s'. alloc c s = Inr (h, c', s')"
    and alloc_fresh: "wf c s \<Longrightarrow> alloc c s = Inr (h, c', s') \<Longrightarrow> h \<noteq> null \<Longrightarrow>
      wf c' s' \<and> h \<notin> in_use_set c s \<and> in_use_set c' s' = insert h (in_use_set c s)"
    and release_used: "wf c s \<Longrightarrow> h \<in> in_use_set c s \<Longrightarrow>
      \<exists>s'. release h s = Inr s' \<and> wf c s' \<and> in_use_set c s' = in_use_set c s - {h}"
begin

text \<open>\<open>n\<close> allocations in a row, as long as they succeed.\<close>

fun alloc_many :: "nat \<Rightarrow> 'c \<Rightarrow> 's \<Rightarrow> ('h list \<times> 'c \<times> 's) option" where
  "alloc_many 0 c s = Some ([], c, s)"
| "alloc_many (Suc n) c s =
     (case alloc c s of
        Inr (h, c', s') \<Rightarrow>
          (if h = null then None
           else map_option (\<lambda>(hs, c'', s''). (h # hs, c'', s'')) (alloc_many n c' s'))
      | Inl e \<Rightarrow> None)"

lemma alloc_many_distinct:
  "wf c s \<Longrightarrow> alloc_many n c s = Some (hs, c', s') \<Longrightarrow>
   wf c' s' \<and> distinct hs \<and> length hs = n \<and> set hs \<inter> in_use_set c s = {} \<and>
   in_use_set c' s' = set hs \<union> in_use_set c s"
proof (induction n arbitrary: c s hs)
  case 0
  then show ?case by simp
next
  case (Suc n)
  from Suc.prems(2) obtain h c1 s1 hs1 where a: "alloc c s = Inr (h, c1, s1)" "h \<noteq> null"
    "alloc_many n c1 s1 = Some (hs1, c', s')" "hs = h # hs1"
    by (auto split: sum.splits if_splits)
  from alloc_fresh [OF Suc.prems(1) a(1,2)] Suc.IH [of c1 s1 hs1] a(3) show ?case
    by (auto simp: a(4))
qed

lemma alloc_release:
  assumes "wf c s" "alloc c s = Inr (h, c', s')" "h \<noteq> null"
  shows "\<exists>s''. release h s' = Inr s'' \<and> wf c' s'' \<and> in_use_set c' s'' = in_use_set c s"
  using alloc_fresh [OF assms] release_used [of c' s' h] by auto

fun release_many :: "'h list \<Rightarrow> 's \<Rightarrow> 's result" where
  "release_many [] s = Inr s"
| "release_many (h # hs) s = bindE (release h s) (release_many hs)"

lemma release_many_used:
  "wf c s \<Longrightarrow> distinct hs \<Longrightarrow> set hs \<subseteq> in_use_set c s \<Longrightarrow>
   \<exists>s'. release_many hs s = Inr s' \<and> wf c s' \<and> in_use_set c s' = in_use_set c s - set hs"
proof (induction hs arbitrary: s)
  case Nil
  then show ?case by simp
next
  case (Cons h hs)
  from release_used [OF Cons.prems(1), of h] Cons.prems(3) obtain s1 where
    s1: "release h s = Inr s1" "wf c s1" "in_use_set c s1 = in_use_set c s - {h}" by auto
  have "distinct hs" "set hs \<subseteq> in_use_set c s1" using Cons.prems(2,3) by (auto simp: s1(3))
  from Cons.IH [OF s1(2) this] obtain s2 where s2: "release_many hs s1 = Inr s2" "wf c s2"
    "in_use_set c s2 = in_use_set c s1 - set hs" by blast
  have "in_use_set c s1 - set hs = in_use_set c s - set (h # hs)" by (auto simp: s1(3))
  with s1(1) s2 show ?case by simp
qed

lemma alloc_many_release_many:
  assumes "wf c s" "alloc_many n c s = Some (hs, c', s')"
  shows "\<exists>s''. release_many hs s' = Inr s'' \<and> wf c' s'' \<and> in_use_set c' s'' = in_use_set c s"
proof -
  note a = alloc_many_distinct [OF assms]
  then have "wf c' s'" "distinct hs" "set hs \<subseteq> in_use_set c' s'" by auto
  from release_many_used [OF this] a show ?thesis by fastforce
qed

end

section \<open>The arena counter\<close>

lemma ensure_vector_capacity_cnt:
  "ensure_vector_capacity ctx s = Inr (r, ctx', s') \<Longrightarrow> g_global_arena_cnt s' = g_global_arena_cnt s"
  by (cases "owned_arenas ctx"; cases "arena_indices ctx")
    (auto simp: ensure_vector_capacity_def heap_alloc_def Let_def split: if_splits option.splits)

lemma init_arena_cnt:
  assumes "init_arena ctx s = Inr (0, ctx', s')" "g_global_arena_cnt s \<noteq> -1"
  shows "g_global_arena_cnt s' \<noteq> -1"
proof -
  have inc: "g_global_arena_cnt s + 1 \<noteq> -1" if "unat (g_global_arena_cnt s) < MAX_ARENAS"
  proof
    assume eq: "g_global_arena_cnt s + 1 = -1"
    have "unat (g_global_arena_cnt s + 1) = Suc (unat (g_global_arena_cnt s))"
      using that by (simp add: unat_word_ariths MAX_ARENAS_def)
    moreover have "unat (g_global_arena_cnt s + 1) = 2 ^ 64 - 1"
      unfolding eq by (simp add: unsigned_minus_1_eq_mask mask_eq_exp_minus_1)
    ultimately show False using that by (simp add: MAX_ARENAS_def)
  qed
  from assms(1) obtain a ctx1 s1 where sel: "init_arena_select ctx s = Inr (Some a, ctx1, s1)"
    and cnt: "g_global_arena_cnt s' = g_global_arena_cnt s1"
    by (auto simp: init_arena_def Let_def split: option.splits prod.splits)
  from sel have "g_global_arena_cnt s1 = g_global_arena_cnt s \<or>
      unat (g_global_arena_cnt s) < MAX_ARENAS \<and> g_global_arena_cnt s1 = g_global_arena_cnt s + 1"
    by (auto simp: init_arena_select_def push_owned_arena_def Let_def heap_alloc_def
        dest!: ensure_vector_capacity_cnt split: if_splits option.splits prod.splits)
  with inc assms(2) cnt show ?thesis by auto
qed

lemma pop_local_cnt:
  "pop_local ctx s = Inr (h, ctx', s') \<Longrightarrow> g_global_arena_cnt s' = g_global_arena_cnt s"
  by (auto simp: pop_local_def version_modify_def Let_def split: if_splits option.splits)

lemma steal_loop_cnt:
  "steal_loop i ctx s = Inr (r, ctx', s') \<Longrightarrow> g_global_arena_cnt s' = g_global_arena_cnt s"
proof (induction i ctx s rule: steal_loop.induct)
  case (1 i ctx s)
  show ?case
    using 1 by (auto simp: steal_loop.simps [of i] Let_def dest!: pop_local_cnt
        split: if_splits option.splits)
qed

lemma alloc_slot_cnt:
  assumes "alloc_slot ctx s = Inr (h, ctx', s')" "h \<noteq> HANDLE_NULL" "g_global_arena_cnt s \<noteq> -1"
  shows "g_global_arena_cnt s' \<noteq> -1"
proof -
  have rc: "g_global_arena_cnt s1 = g_global_arena_cnt s"
    if "reclaim_last_arena_if_empty c s = Inr (b, c1, s1)" for b c c1 s1
    using that by (auto simp: reclaim_last_arena_if_empty_def Let_def madvise_dontneed_def split: if_splits)
  from assms(1) obtain b ctx1 s1 h2 ctx2 s2 where r: "g_global_arena_cnt s1 = g_global_arena_cnt s"
    "pop_local ctx1 s1 = Inr (h2, ctx2, s2)"
    and rest: "(if h2 \<noteq> HANDLE_NULL then Inr (h2, ctx2, s2)
        else bindE (steal_loop 0 ctx2 s2) (\<lambda>(stolen, ctx3, s3).
          case stolen of Some h \<Rightarrow> Inr (h, ctx3, s3)
          | None \<Rightarrow>
              bindE (init_arena ctx3 s3) (\<lambda>(r, ctx4, s4).
                if r = 0 then pop_local ctx4 s4 else Inr (HANDLE_NULL, ctx4, s4)))) = Inr (h, ctx', s')"
    by (auto simp: alloc_slot_def Let_def dest: rc split: if_splits)
  have s2: "g_global_arena_cnt s2 = g_global_arena_cnt s" using pop_local_cnt [OF r(2)] r(1) by simp
  show ?thesis
  proof (cases "h2 = HANDLE_NULL")
    case False
    with rest s2 assms(3) show ?thesis by simp
  next
    case True
    with rest obtain stolen ctx3 s3 where st: "steal_loop 0 ctx2 s2 = Inr (stolen, ctx3, s3)"
      "(case stolen of Some h \<Rightarrow> Inr (h, ctx3, s3)
          | None \<Rightarrow> bindE (init_arena ctx3 s3) (\<lambda>(r, ctx4, s4).
                if r = 0 then pop_local ctx4 s4 else Inr (HANDLE_NULL, ctx4, s4))) = Inr (h, ctx', s')"
      by auto
    have s3: "g_global_arena_cnt s3 = g_global_arena_cnt s" using steal_loop_cnt [OF st(1)] s2 by simp
    show ?thesis
      using st(2) s3 assms(2,3) init_arena_cnt [of ctx3 s3]
      by (auto split: option.splits if_splits dest!: pop_local_cnt)
  qed
qed

section \<open>The allocator implements the interface\<close>

definition free_handle :: "u32 \<Rightarrow> gstate \<Rightarrow> gstate result" where
  "free_handle h s = (case resolve_handle s h of None \<Rightarrow> Inl Null_Deref | Some p \<Rightarrow> free_slot p s)"

text \<open>The arena counter has not been driven through all of its \<open>2 ^ 64\<close> values.\<close>

definition allocator_wf :: "thread_context \<Rightarrow> gstate \<Rightarrow> bool" where
  "allocator_wf ctx s \<longleftrightarrow> alloc_wf ctx s \<and> g_global_arena_cnt s \<noteq> -1"

interpretation allocator: slot_pool allocator_wf in_use alloc_slot free_handle HANDLE_NULL
proof
  fix ctx s h ctx' s'
  assume wf: "allocator_wf ctx s"
  then have st: "alloc_st ctx s (in_use ctx s)" and cnt: "g_global_arena_cnt s \<noteq> -1"
    by (simp_all add: allocator_wf_def alloc_st_iff)
  show "\<exists>h c' s'. alloc_slot ctx s = Inr (h, c', s')"
    using st cnt by (cases rule: alloc_slot_spec) auto
  show "allocator_wf ctx' s' \<and> h \<notin> in_use ctx s \<and> in_use ctx' s' = insert h (in_use ctx s)"
    if "alloc_slot ctx s = Inr (h, ctx', s')" "h \<noteq> HANDLE_NULL"
    using st cnt
  proof (cases rule: alloc_slot_spec)
    case (Slot h1 ctx1 s1)
    with that alloc_slot_cnt [OF that cnt] show ?thesis by (simp add: allocator_wf_def alloc_st_iff)
  qed (use that in simp)
  show "\<exists>s'. free_handle h s = Inr s' \<and> allocator_wf ctx s' \<and> in_use ctx s' = in_use ctx s - {h}"
    if h: "h \<in> in_use ctx s"
    using free_slot_spec [OF st h] cnt by (metis allocator_wf_def alloc_st_iff free_handle_def option.simps(5))
qed

section \<open>Exhaustion\<close>

text \<open>Memory is there for every request, and an arena index is left.\<close>

definition memory_available :: "gstate \<Rightarrow> bool" where
  "memory_available s \<longleftrightarrow>
     (\<forall>n. alloc_ok (env s) n) \<and> 0 < next_ptr s \<and> unat (g_global_arena_cnt s) < MAX_ARENAS"

lemma heap_alloc_available:
  "\<forall>n. alloc_ok (env s) n \<Longrightarrow> 0 < next_ptr s \<Longrightarrow>
   heap_alloc s = (next_ptr s, s\<lparr>alloc_clk := Suc (alloc_clk s), next_ptr := Suc (next_ptr s)\<rparr>)"
  by (simp add: heap_alloc_def Let_def)

lemma ensure_vector_capacity_available:
  assumes "\<forall>n. alloc_ok (env s) n" "0 < next_ptr s" "ensure_vector_capacity ctx s = Inr (r, ctx', s')"
  shows "r = 0"
  using assms
  by (cases "owned_arenas ctx"; cases "arena_indices ctx")
    (auto simp: ensure_vector_capacity_def heap_alloc_available Let_def split: if_splits)

lemma init_arena_select_available:
  assumes "memory_available s" "init_arena_select ctx s = Inr (sel, ctx', s')"
  shows "sel \<noteq> None"
  using assms
  by (auto simp: init_arena_select_def push_owned_arena_def memory_available_def Let_def
      heap_alloc_available dest!: ensure_vector_capacity_available [rotated 2]
      split: if_splits option.splits)

lemma init_arena_available:
  assumes "memory_available s" "init_arena ctx s = Inr (r, ctx', s')"
  shows "r = 0"
  using assms init_arena_select_available [OF assms(1), of ctx None]
  by (auto simp: init_arena_def Let_def split: option.splits prod.splits)

lemma memory_available_arenas: "arenas_only s s' \<Longrightarrow> memory_available s' = memory_available s"
  by (auto simp: arenas_only_def memory_available_def)

section \<open>Properties\<close>

text \<open>
  A context of a thread that has not allocated yet, in a process where every allocation
  succeeds.
\<close>

definition sample_env :: os_env where
  "sample_env = \<lparr>alloc_ok = (\<lambda>_. True), setspecific_ok = (\<lambda>_. True), key_create_ok = True,
     spurious = (\<lambda>_. 0)\<rparr>"

definition sample_state :: gstate where
  "sample_state = \<lparr>g_arena_table = (\<lambda>_. 0), g_global_arena_cnt = 0, g_thread_contexts = (\<lambda>_. 0),
     g_tid_used = (\<lambda>_. False), g_init_done = False, tls = (\<lambda>_. 0), arena_heap = (\<lambda>_. None),
     ctx_heap = (\<lambda>_. None), gate_heap = (\<lambda>_. None), next_ptr = 1, free_log = [], env = sample_env,
     alloc_clk = 0, setspecific_clk = 0, cas_clk = 0\<rparr>"

definition sample_context :: thread_context where
  "sample_context = \<lparr>thread_id = 0, owned_arenas = Live [], arena_indices = Live [],
     active_arena_count = 0, vector_capacity = 0, local_top = HANDLE_NULL, alloc_count = 0\<rparr>"

lemma sample_wf: "alloc_wf sample_context sample_state"
proof -
  have "heap_inv sample_state" by (simp add: heap_inv_def sample_state_def)
  moreover have "alloc_inv sample_context sample_state [] (\<lambda>_. []) 0 []"
    by (simp add: alloc_inv_def vec_inv_def sample_context_def)
  ultimately show ?thesis unfolding alloc_wf_def by blast
qed

lemma sample_in_use: "in_use sample_context sample_state = {}"
  by (simp add: in_use_def sample_context_def)

lemma sample_cnt: "g_global_arena_cnt sample_state \<noteq> -1"
  by (simp add: sample_state_def)

text \<open>
  Claim C22. \<open>alloc_slot\<close> returns without undefined behaviour. On success the handle was not in
  use, and it is the only change to the set of handles in use; on failure nothing is handed out,
  and the context is intact unless growing its vectors failed half-way. The invariant holds
  again.
\<close>

theorem alloc_slot_correct:
  assumes "alloc_wf ctx s" "g_global_arena_cnt s \<noteq> -1"
  shows "\<exists>h ctx' s'. alloc_slot ctx s = Inr (h, ctx', s') \<and>
    (if h = HANDLE_NULL
     then alloc_wf ctx' s' \<and> in_use ctx' s' = in_use ctx s \<or>
          owned_arenas ctx' = Freed \<or> arena_indices ctx' = Freed
     else h \<notin> in_use ctx s \<and> alloc_wf ctx' s' \<and> in_use ctx' s' = insert h (in_use ctx s))"
proof -
  from assms(1) have "alloc_st ctx s (in_use ctx s)" by (simp add: alloc_st_iff)
  from this assms(2) show ?thesis
    by (cases rule: alloc_slot_spec) (auto simp: alloc_st_iff alloc_failed_def)
qed

theorem alloc_slot_correct_witness:
  "\<exists>h ctx' s'. alloc_slot sample_context sample_state = Inr (h, ctx', s') \<and>
     (h \<noteq> HANDLE_NULL \<longrightarrow> in_use ctx' s' = {h})"
  using alloc_slot_correct [OF sample_wf sample_cnt] by (auto simp: sample_in_use split: if_splits)

text \<open>
  Claim C24. \<open>alloc_slot\<close> does hand out a slot whenever memory is available and an arena index
  is left: it is not a correct allocator by failing.
\<close>

theorem alloc_slot_succeeds:
  assumes "alloc_wf ctx s" "memory_available s"
  shows "\<exists>h ctx' s'. alloc_slot ctx s = Inr (h, ctx', s') \<and> h \<noteq> HANDLE_NULL \<and>
    h \<notin> in_use ctx s \<and> in_use ctx' s' = insert h (in_use ctx s)"
proof -
  from assms(1) have st: "alloc_st ctx s (in_use ctx s)" by (simp add: alloc_st_iff)
  have "g_global_arena_cnt s \<noteq> -1"
    using assms(2) by (auto simp: memory_available_def MAX_ARENAS_def unsigned_minus_1_eq_mask mask_eq_exp_minus_1)
  from st this show ?thesis
  proof (cases rule: alloc_slot_spec)
    case (Slot h ctx' s')
    then show ?thesis by (auto simp: alloc_st_iff)
  next
    case (Failed ctx' s' ctx1 s1)
    with init_arena_available [of s1 ctx1] memory_available_arenas [of s s1] assms(2) show ?thesis by simp
  qed
qed

theorem alloc_slot_succeeds_witness:
  "\<exists>h ctx' s'. alloc_slot sample_context sample_state = Inr (h, ctx', s') \<and> in_use ctx' s' = {h}"
proof -
  have "memory_available sample_state"
    by (simp add: memory_available_def sample_state_def sample_env_def MAX_ARENAS_def)
  from alloc_slot_succeeds [OF sample_wf this] show ?thesis by (auto simp: sample_in_use)
qed

text \<open>
  Claim C23. \<open>free_slot\<close> on a handle in use pushes its slot back without undefined behaviour,
  however often the weak compare-and-swap fails: the loop ends, the invariant holds again and
  exactly that handle leaves the set in use.
\<close>

theorem free_slot_correct:
  assumes "alloc_wf ctx s" "h \<in> in_use ctx s"
  shows "\<exists>p s'. resolve_handle s h = Some p \<and> free_slot p s = Inr s' \<and> alloc_wf ctx s' \<and>
    in_use ctx s' = in_use ctx s - {h}"
proof -
  from assms(1) have "alloc_st ctx s (in_use ctx s)" by (simp add: alloc_st_iff)
  from free_slot_spec [OF this assms(2)] show ?thesis by (metis alloc_st_iff)
qed

lemma sample_allocated:
  obtains h ctx s where "alloc_slot sample_context sample_state = Inr (h, ctx, s)" "h \<noteq> HANDLE_NULL"
    "allocator_wf ctx s" "in_use ctx s = {h}"
proof -
  have "alloc_st sample_context sample_state {}" by (simp add: alloc_st_iff sample_wf sample_in_use)
  from this sample_cnt show thesis
  proof (cases rule: alloc_slot_spec)
    case (Slot h ctx' s')
    with alloc_slot_cnt [OF Slot(1,2) sample_cnt] that show thesis
      by (simp add: alloc_st_iff allocator_wf_def)
  next
    case (Failed ctx' s' ctx1 s1)
    have "memory_available sample_state"
      by (simp add: memory_available_def sample_state_def sample_env_def MAX_ARENAS_def)
    with Failed init_arena_available [of s1 ctx1] memory_available_arenas [of sample_state s1]
    show thesis by simp
  qed
qed

theorem free_slot_correct_witness:
  "\<exists>h ctx s p s'. alloc_slot sample_context sample_state = Inr (h, ctx, s) \<and>
     resolve_handle s h = Some p \<and> free_slot p s = Inr s' \<and> in_use ctx s' = {}"
proof -
  from sample_allocated obtain h ctx s where a: "alloc_slot sample_context sample_state = Inr (h, ctx, s)"
    "alloc_wf ctx s" "in_use ctx s = {h}" by (metis allocator_wf_def)
  from free_slot_correct [OF a(2), of h] a show ?thesis by auto
qed

text \<open>
  Any number of allocations by one thread gives that many different handles, and
  returning them all restores the set of handles in use.
\<close>

theorem alloc_many_roundtrip:
  assumes "allocator_wf ctx s" "allocator.alloc_many n ctx s = Some (hs, ctx', s')"
  shows "distinct hs \<and> length hs = n \<and> in_use ctx' s' = set hs \<union> in_use ctx s \<and>
    (\<exists>s''. allocator.release_many hs s' = Inr s'' \<and> in_use ctx' s'' = in_use ctx s)"
  using allocator.alloc_many_distinct [OF assms] allocator.alloc_many_release_many [OF assms] by blast

theorem alloc_many_roundtrip_witness:
  "\<exists>h ctx' s' s''. allocator.alloc_many 1 sample_context sample_state = Some ([h], ctx', s') \<and>
     allocator.release_many [h] s' = Inr s'' \<and> in_use ctx' s'' = {}"
proof -
  from sample_allocated obtain h ctx s where a: "alloc_slot sample_context sample_state = Inr (h, ctx, s)"
    "h \<noteq> HANDLE_NULL" by metis
  then have "allocator.alloc_many 1 sample_context sample_state = Some ([h], ctx, s)"
    by (simp add: allocator.alloc_many.simps)
  moreover have "allocator_wf sample_context sample_state"
    by (simp add: allocator_wf_def sample_wf sample_cnt)
  ultimately show ?thesis
    using alloc_many_roundtrip [of sample_context sample_state 1 "[h]" ctx s] by (auto simp: sample_in_use)
qed

section \<open>A failure path that corrupts the context\<close>

text \<open>
  Claim C29. When growing the arena vectors succeeds for \<open>owned_arenas\<close> but fails for
  \<open>arena_indices\<close>, the function returns -1 and keeps the old, freed address in the context:
  the next \<open>alloc_slot\<close> of the thread reads freed memory.
\<close>

theorem vector_growth_failure_dangles:
  assumes "owned_arenas ctx = Live xs" "arena_indices ctx = Live ys" "xs \<noteq> []"
    "active_arena_count ctx = vector_capacity ctx" "0 < vector_capacity ctx"
    "local_top ctx = HANDLE_NULL" "0 < next_ptr s"
    "alloc_ok (env s) (alloc_clk s)" "\<not> alloc_ok (env s) (Suc (alloc_clk s))"
  shows "\<exists>ctx' s'. ensure_vector_capacity ctx s = Inr (-1, ctx', s') \<and>
    (\<forall>s''. alloc_slot ctx' s'' = Inl Use_After_Free)"
proof -
  let ?ctx' = "ctx\<lparr>owned_arenas := Freed\<rparr>"
  have "ensure_vector_capacity ctx s = Inr (-1, ?ctx', s\<lparr>alloc_clk := Suc (Suc (alloc_clk s)),
      next_ptr := Suc (next_ptr s)\<rparr>)"
    using assms by (simp add: ensure_vector_capacity_def heap_alloc_def Let_def)
  moreover have "alloc_slot ?ctx' s'' = Inl Use_After_Free" for s''
    using assms(4-6)
    by (simp add: alloc_slot_def Let_def reclaim_last_arena_if_empty_def pop_local_def steal_loop.simps)
  ultimately show ?thesis by blast
qed

definition full_context :: thread_context where
  "full_context = sample_context\<lparr>owned_arenas := Live [1, 2, 3, 4],
     arena_indices := Live [Some 0, Some 1, Some 2, Some 3], active_arena_count := 4,
     vector_capacity := 4\<rparr>"

definition short_state :: gstate where
  "short_state = sample_state\<lparr>next_ptr := 5, env := sample_env\<lparr>alloc_ok := (\<lambda>n. n = 0)\<rparr>\<rparr>"

theorem vector_growth_failure_dangles_witness:
  "\<exists>ctx' s'. ensure_vector_capacity full_context short_state = Inr (-1, ctx', s') \<and>
     alloc_slot ctx' s' = Inl Use_After_Free"
  using vector_growth_failure_dangles [of full_context "[1, 2, 3, 4]" "[Some 0, Some 1, Some 2, Some 3]"
      short_state]
  by (auto simp: full_context_def short_state_def sample_context_def sample_state_def sample_env_def)

section \<open>Arena set-up and handles\<close>

text \<open>
  \<open>setup_arena_stack\<close> links the slots of an arena into one stack that holds every
  usable slot once, from the last one down to slot 1, ends in the sentinel, and leaves the
  shared stack empty with depth 0, whatever the arena's memory held before.
\<close>

theorem setup_arena_stack_correct:
  assumes "setup_arena_stack k m = (h, m')"
  shows "chain k (slots m') h (rev [1..<SLOTS_PER_ARENA]) \<and>
    walk SLOTS_PER_ARENA (slots m') h = rev [1..<SLOTS_PER_ARENA] \<and>
    top_slot (top_handle m') = construct_handle (int k) 0 \<and> top_depth (top_handle m') = 0"
proof -
  have m': "h = mkh k (SLOTS_PER_ARENA - 1)" "top_handle m' = ucast (mkh k 0)" "slots m' = fresh_slots k m"
    using assms by (auto simp: setup_arena_stack_closed)
  have c: "chain k (slots m') h (rev [1..<SLOTS_PER_ARENA])"
    unfolding m' using setup_chain [of k m] by (simp add: all_slots_def)
  moreover have "walk SLOTS_PER_ARENA (slots m') h = rev [1..<SLOTS_PER_ARENA]"
    by (rule chain_walk [OF c]) simp
  ultimately show ?thesis by (simp add: m'(2) top_depth_hi)
qed

theorem setup_arena_stack_correct_witness:
  "chain 7 (slots (snd (setup_arena_stack 7 zero_arena))) (fst (setup_arena_stack 7 zero_arena))
     (rev [1..<SLOTS_PER_ARENA])"
  using setup_arena_stack_correct [of 7 zero_arena] by (metis prod.collapse)

text \<open>
  Handles encode their two indices without loss: building a handle from any arena
  index and any slot index and resolving it gives that slot of the registered arena, no handle
  of a usable slot is \<open>HANDLE_NULL\<close>, and splitting any 32-bit handle and rebuilding it gives it
  back.
\<close>

theorem handle_roundtrip:
  assumes "a < MAX_ARENAS" "i < SLOTS_PER_ARENA" "g_arena_table s a \<noteq> 0"
  shows "resolve_handle s (construct_handle (int a) (int i)) = Some (g_arena_table s a, i) \<and>
    construct_handle (int a) (int i) \<noteq> HANDLE_NULL \<and>
    construct_handle (uint (arena_idx h)) (uint (slot_idx h)) = h"
  using resolve_mkh [OF assms(1,2) refl assms(3)] mkh_not_NULL [OF assms(2), of a]
    construct_handle_split [of h] by simp

theorem handle_roundtrip_witness:
  "resolve_handle (sample_state\<lparr>g_arena_table := (\<lambda>_. 9)\<rparr>) (construct_handle (int 1048575) (int 3275)) =
     Some (9, 3275)"
  using handle_roundtrip [of 1048575 3275 "sample_state\<lparr>g_arena_table := (\<lambda>_. 9)\<rparr>"]
  by (simp add: MAX_ARENAS_def SLOTS_PER_ARENA_def)

end
