(* ===== verification/Alloc_Frame.thy ===== *)
theory Alloc_Frame
  imports Arena_Props
begin

text \<open>
  What the allocator leaves alone. Reads and writes of single versions, the slot of a version in
  use, and the frame of \<open>alloc_slot\<close>: a version in use keeps its slot and its contents whatever
  is popped, stolen, reclaimed or set up on the way to a new one, and the gates are not touched.
\<close>

section \<open>Reading and writing versions\<close>

lemma version_readE:
  assumes "version_read s p = Inr v"
  obtains m where "arena_at s (fst p) m" "snd p < SLOTS_PER_ARENA" "v = slots m (snd p)"
  using assms by (auto simp: version_read_def split: if_splits)

lemma version_modify_read:
  assumes "version_read s p = Inr v"
  obtains s' where "version_modify p f s = Inr s'" "version_read s' p = Inr (f v)"
    "\<And>q. q \<noteq> p \<Longrightarrow> version_read s' q = version_read s q" "arenas_only s s'"
proof -
  from assms obtain m where m: "arena_at s (fst p) m" "snd p < SLOTS_PER_ARENA" "v = slots m (snd p)"
    by (rule version_readE)
  have p0: "fst p \<noteq> 0" using m(1) by (simp add: arena_at_def)
  let ?m = "m\<lparr>slots := (slots m)(snd p := f (slots m (snd p)))\<rparr>"
  let ?s' = "arena_write (fst p) ?m s"
  have rd: "version_read ?s' q = version_read s q" if "q \<noteq> p" for q
  proof (cases "fst q = fst p")
    case True
    with that have "snd q \<noteq> snd p" by (metis prod.collapse)
    with True m(1) p0 show ?thesis by (simp add: version_read_def arena_read_def arena_write_def arena_at_def)
  next
    case False
    then show ?thesis by (simp add: version_read_def arena_read_def arena_write_def)
  qed
  show thesis
    using m p0 by (intro that [OF version_modify_at [OF m(1,2)] _ rd])
      (simp_all add: version_read_def)
qed

lemma arenas_only_fields:
  assumes "arenas_only s s'"
  shows "g_arena_table s' = g_arena_table s" "gate_heap s' = gate_heap s" "free_log s' = free_log s"
    "ctx_heap s' = ctx_heap s" "tls s' = tls s" "g_global_arena_cnt s' = g_global_arena_cnt s"
    "env s' = env s" "cas_clk s' = cas_clk s"
  using assms by (auto simp: arenas_only_def)

lemma resolve_arenas_only: "arenas_only s s' \<Longrightarrow> resolve_handle s' h = resolve_handle s h"
  by (simp add: resolve_handle_def arenas_only_fields)

lemma in_use_version:
  assumes "alloc_st ctx s U" "h \<in> U"
  obtains p v where "resolve_handle s h = Some p" "version_read s p = Inr v" "self_handle v = h"
    "h \<noteq> HANDLE_NULL"
proof -
  from assms(1) obtain arenas SH j0 l where st: "alloc_inv ctx s arenas SH j0 l"
    "in_use_of arenas (active_arena_count ctx) SH j0 l = U" by (auto simp: alloc_st_def)
  from st(1) have vec: "vec_inv ctx s arenas" by (simp add: alloc_inv_def)
  from assms(2) st(2) obtain j i where ji: "h = mkh (snd (arenas ! j)) i" "j < active_arena_count ctx"
    "i \<in> usable_slots" "i \<notin> set (SH j)" "i \<notin> set (local_slots j0 l j)"
    by (auto simp: in_use_of_iff)
  from alloc_inv_stack [OF st(1) ji(2)] obtain m where m: "j < length arenas"
    "arena_at s (fst (arenas ! j)) m" "stack_inv (snd (arenas ! j)) m (SH j) (local_slots j0 l j)" by metis
  have i: "i < SLOTS_PER_ARENA" using ji(3) by (simp add: usable_slots_def)
  have "resolve_handle s h = Some (fst (arenas ! j), i)"
    using vec_inv_nth [OF vec m(1)] i by (simp add: ji(1) resolve_mkh)
  moreover have "version_read s (fst (arenas ! j), i) = Inr (slots m i)"
    using m(2) i by (simp add: version_read_at)
  moreover have "self_handle (slots m i) = h" using m(3) ji by (simp add: stack_inv_def)
  moreover have "h \<noteq> HANDLE_NULL" using i by (simp add: ji(1) mkh_not_NULL)
  ultimately show thesis by (rule that)
qed

text \<open>Two versions in use are in different slots.\<close>

lemma slot_of_one:
  assumes "alloc_wf ctx s" "h \<in> in_use ctx s" "h' \<in> in_use ctx s" "resolve_handle s h = Some p" "resolve_handle s h' = Some p"
  shows "h = h'"
proof -
  have st: "alloc_st ctx s (in_use ctx s)" using assms(1) by (simp add: alloc_st_iff)
  obtain q v where q: "resolve_handle s h = Some q" "version_read s q = Inr v" "self_handle v = h"
    by (rule in_use_version [OF st assms(2)]) blast
  obtain q' v' where q': "resolve_handle s h' = Some q'" "version_read s q' = Inr v'" "self_handle v' = h'"
    by (rule in_use_version [OF st assms(3)]) blast
  show ?thesis using q q' assms(4,5) by simp
qed

lemma same_arenas_alloc_st: "same_arenas s s' \<Longrightarrow> alloc_st ctx s U \<Longrightarrow> alloc_st ctx s' U"
  by (auto simp: alloc_st_def same_arenas_alloc_inv intro: same_arenas_heap_inv)

lemma same_arenas_version_read:
  "same_arenas s s' \<Longrightarrow> version_read s' p = version_read s p"
  by (simp add: same_arenas_def version_read_def arena_read_def)

lemma same_arenas_resolve: "same_arenas s s' \<Longrightarrow> resolve_handle s' h = resolve_handle s h"
  by (simp add: same_arenas_def resolve_handle_def)

section \<open>Writes to one slot\<close>

definition reads_but :: "slot_ptr \<Rightarrow> gstate \<Rightarrow> gstate \<Rightarrow> bool" where
  "reads_but p s s' \<longleftrightarrow> (\<forall>q. q \<noteq> p \<longrightarrow> version_read s' q = version_read s q)"

lemma reads_but_refl [simp]: "reads_but p s s"
  by (simp add: reads_but_def)

lemma reads_but_trans: "reads_but p s s' \<Longrightarrow> reads_but p s' s'' \<Longrightarrow> reads_but p s s''"
  by (simp add: reads_but_def)

lemma reads_but_same: "same_arenas s s' \<Longrightarrow> reads_but p s s'"
  by (simp add: reads_but_def same_arenas_version_read)

lemma version_modify_reads:
  assumes "version_modify p f s = Inr s'"
  shows "reads_but p s s'"
proof -
  obtain v where "version_read s p = Inr v"
    using assms by (auto simp: version_modify_def version_read_def split: if_splits)
  from version_modify_read [OF this, of f] assms show ?thesis by (metis reads_but_def sum.inject(2))
qed

lemma arena_top_reads: "arena_at s p m \<Longrightarrow> reads_but q s (arena_write p (m\<lparr>top_handle := w\<rparr>) s)"
  by (auto simp: reads_but_def version_read_def arena_read_def arena_write_def arena_at_def)

section \<open>Versions in use\<close>

text \<open>The versions in \<open>U\<close> have the slots and the contents they had.\<close>

definition keeps :: "u32 set \<Rightarrow> gstate \<Rightarrow> gstate \<Rightarrow> bool" where
  "keeps U s s' \<longleftrightarrow>
     (\<forall>h\<in>U. resolve_handle s' h = resolve_handle s h \<and>
        (\<forall>p. resolve_handle s h = Some p \<longrightarrow> version_read s' p = version_read s p))"

lemma keeps_refl [simp]: "keeps U s s"
  by (simp add: keeps_def)

lemma keeps_trans: "keeps U s s' \<Longrightarrow> keeps U s' s'' \<Longrightarrow> keeps U s s''"
  by (simp add: keeps_def)

lemma keeps_sym: "keeps U s s' \<Longrightarrow> keeps U s' s"
  by (simp add: keeps_def)

lemma keeps_same: "same_arenas s s' \<Longrightarrow> keeps U s s'"
  by (simp add: keeps_def same_arenas_resolve same_arenas_version_read)

lemma keepsD:
  assumes "keeps U s s'" "h \<in> U" "resolve_handle s h = Some p"
  shows "resolve_handle s' h = Some p" "version_read s' p = version_read s p"
  using assms unfolding keeps_def by metis+

text \<open>A write to a slot that no version in \<open>U\<close> has.\<close>

lemma keeps_reads_but:
  assumes "reads_but p s s'" "g_arena_table s' = g_arena_table s" "\<And>h. h \<in> U \<Longrightarrow> resolve_handle s h \<noteq> Some p"
  shows "keeps U s s'"
proof -
  have "resolve_handle s' h = resolve_handle s h" for h using assms(2) by (simp add: resolve_handle_def)
  moreover have "version_read s' q = version_read s q" if "h \<in> U" "resolve_handle s h = Some q" for h q
    using assms(1) assms(3) [OF that(1)] that(2) unfolding reads_but_def by metis
  ultimately show ?thesis by (simp add: keeps_def)
qed

text \<open>Changes outside the active arenas.\<close>

lemma keeps_active:
  assumes inv: "alloc_inv ctx s arenas SH j0 l" and U: "in_use_of arenas (active_arena_count ctx) SH j0 l = U"
    and same: "\<And>j. j < active_arena_count ctx \<Longrightarrow> g_arena_table s' (snd (arenas ! j)) = g_arena_table s (snd (arenas ! j)) \<and>
      arena_heap s' (fst (arenas ! j)) = arena_heap s (fst (arenas ! j))"
  shows "keeps U s s'"
  unfolding keeps_def
proof (intro ballI conjI allI impI)
  fix h
  assume "h \<in> U"
  then obtain j i where ji: "j < active_arena_count ctx" "i \<in> usable_slots" "h = mkh (snd (arenas ! j)) i"
    using U by (auto simp: in_use_of_iff)
  have vec: "vec_inv ctx s arenas" using inv by (simp add: alloc_inv_def)
  have j: "j < length arenas" using ji(1) alloc_inv_active [OF inv] by simp
  have i: "i < SLOTS_PER_ARENA" using ji(2) by (simp add: usable_slots_def)
  note nth = vec_inv_nth [OF vec j]
  have res: "resolve_handle s h = Some (fst (arenas ! j), i)" unfolding ji(3) by (rule resolve_mkh [OF nth(2) i nth(3,1)])
  have "resolve_handle s' h = Some (fst (arenas ! j), i)"
    unfolding ji(3) by (rule resolve_mkh [OF nth(2) i _ nth(1)]) (use same [OF ji(1)] nth(3) in simp)
  with res show "resolve_handle s' h = resolve_handle s h" by simp
  show "version_read s' p = version_read s p" if "resolve_handle s h = Some p" for p
    using that res same [OF ji(1)] by (auto simp: version_read_def arena_read_def)
qed

section \<open>The frame of an allocation\<close>

text \<open>
  \<open>pop_local\<close> writes the slot it hands out; no version in use is there, since the slot holds
  one version only after the call.
\<close>

lemma pop_local_keeps:
  assumes pop: "pop_local ctx s = Inr (h, ctx', s')" and h: "h \<noteq> HANDLE_NULL" "h \<notin> U"
    and st: "alloc_st ctx' s' (insert h U)"
  shows "keeps U s s'"
proof -
  from pop h(1) obtain p where p: "resolve_handle s h = Some p"
    "version_modify p (self_handle_update (\<lambda>_. h)) s = Inr s'"
    by (auto simp: pop_local_def Let_def split: if_splits option.splits)
  have table: "g_arena_table s' = g_arena_table s"
    using p(2) by (auto simp: version_modify_def split: if_splits)
  have wf: "alloc_wf ctx' s'" "in_use ctx' s' = insert h U" using st by (simp_all add: alloc_st_iff)
  have res: "resolve_handle s' g = resolve_handle s g" for g using table by (simp add: resolve_handle_def)
  have "resolve_handle s g \<noteq> Some p" if "g \<in> U" for g
    using slot_of_one [OF wf(1), of g h p] that h(2) p(1) by (auto simp: wf(2) res)
  then show ?thesis by (rule keeps_reads_but [OF version_modify_reads [OF p(2)] table])
qed

lemma steal_loop_keeps:
  assumes "steal_loop i ctx s = Inr (Some h, ctx', s')" "h \<noteq> HANDLE_NULL" "h \<notin> U" "alloc_st ctx' s' (insert h U)"
  shows "keeps U s s'"
  using assms
proof (induction i ctx s rule: steal_loop.induct)
  case (1 i ctx s)
  from 1(2) have "i < active_arena_count ctx" by (subst (asm) steal_loop.simps) (simp split: if_splits)
  with 1(2) obtain arena idx m where a: "block_get (owned_arenas ctx) i = Inr arena"
    "block_get (arena_indices ctx) i = Inr (Some idx)" "arena_at s arena m"
    by (subst (asm) steal_loop.simps) (auto simp: Let_def split: option.splits)
  let ?sh = "construct_handle (uint idx) 0"
  let ?s1 = "arena_write arena (m\<lparr>top_handle := ucast ?sh\<rparr>) s"
  show ?case
  proof (cases "top_slot (top_handle m) = ?sh")
    case True
    with 1(2) a \<open>i < _\<close> have "steal_loop (Suc i) ctx s = Inr (Some h, ctx', s')"
      by (subst (asm) steal_loop.simps) (simp add: Let_def)
    with 1(1) [OF \<open>i < _\<close> a(1,2) refl refl arena_read_at [OF a(3)] refl] True 1(3-5) show ?thesis by simp
  next
    case False
    with 1(2) a \<open>i < _\<close> have pop: "pop_local (ctx\<lparr>local_top := top_slot (top_handle m)\<rparr>) ?s1 = Inr (h, ctx', s')"
      by (subst (asm) steal_loop.simps) (auto simp: Let_def)
    have "reads_but (0, 0) s ?s1" by (rule arena_top_reads [OF a(3)])
    then have "keeps U s ?s1" by (rule keeps_reads_but) (auto simp: resolve_handle_def Let_def split: if_splits)
    then show ?thesis using pop_local_keeps [OF pop 1(3-5)] by (rule keeps_trans)
  qed
qed

lemma reclaim_keeps:
  assumes st: "alloc_st ctx s U" and rc: "reclaim_last_arena_if_empty ctx s = Inr (b, ctx', s')"
  shows "keeps U s s'"
proof (cases b)
  case False
  with rc show ?thesis by (auto simp: reclaim_last_arena_if_empty_def Let_def split: if_splits)
next
  case True
  let ?n = "active_arena_count ctx - 1"
  from rc True obtain arena where a: "block_get (owned_arenas ctx) ?n = Inr arena" "arena \<noteq> 0"
    "ctx' = ctx\<lparr>active_arena_count := ?n\<rparr>" "s' = madvise_dontneed arena s"
    by (auto simp: reclaim_last_arena_if_empty_def Let_def arena_at_def split: if_splits)
  have "alloc_st ctx' s' U" using reclaim_last_arena_spec [OF st] rc by (metis sum.inject(2) prod.inject)
  then obtain arenas SH j0 l where inv: "alloc_inv ctx' s' arenas SH j0 l"
    "in_use_of arenas (active_arena_count ctx') SH j0 l = U" by (auto simp: alloc_st_def)
  have vec: "vec_inv ctx' s' arenas" using inv(1) by (simp add: alloc_inv_def)
  have n: "?n < length arenas" "arena = fst (arenas ! ?n)"
    using vec a(1,2) by (auto simp: vec_inv_def a(3) nth_append split: if_splits)
  have "fst (arenas ! j) \<noteq> arena" if "j < active_arena_count ctx'" for j
    using vec_inv_fst_eq [OF vec _ n(1), of j] that n by (simp add: a(3))
  then have "keeps U s' s"
    by (intro keeps_active [OF inv]) (simp add: a(4) madvise_dontneed_def arena_write_def)
  then show ?thesis by (rule keeps_sym)
qed

text \<open>\<open>init_arena\<close> writes the arena it sets up, and the table where that is a new one.\<close>

lemma ensure_vector_capacity_same: "ensure_vector_capacity ctx s = Inr (r, ctx', s') \<Longrightarrow> same_arenas s s'"
  by (cases "owned_arenas ctx"; cases "arena_indices ctx")
    (auto simp: ensure_vector_capacity_def heap_alloc_def same_arenas_def Let_def split: if_splits option.splits)

lemma init_arena_effect:
  assumes "init_arena ctx s = Inr (0, ctx', s')"
  obtains (Reuse) p m where "block_get (owned_arenas ctx) (active_arena_count ctx) = Inr p" "p \<noteq> 0"
      "s' = arena_write p m s"
  | (New) m where "arena_heap s' = (arena_heap s)(next_ptr s \<mapsto> m)"
      "g_arena_table s' = (g_arena_table s)(unat (g_global_arena_cnt s) := next_ptr s)"
proof -
  from assms obtain p k ctx1 s1 m where sel: "init_arena_select ctx s = Inr (Some (p, k), ctx1, s1)"
    "s' = arena_write p m s1"
    by (auto simp: init_arena_def Let_def split: option.splits prod.splits)
  show thesis
  proof (cases "s1 = s \<and> active_arena_count ctx < vector_capacity ctx \<and>
      block_get (owned_arenas ctx) (active_arena_count ctx) = Inr p \<and> p \<noteq> 0")
    case True
    with sel(2) Reuse show thesis by blast
  next
    case False
    with sel(1) obtain s4 c where s4: "ensure_vector_capacity ctx s4 = Inr (0, c, s1)"
      "arena_heap s4 = (arena_heap s)(next_ptr s \<mapsto> zero_arena)" "p = next_ptr s"
      "g_arena_table s4 = (g_arena_table s)(unat (g_global_arena_cnt s) := next_ptr s)"
      by (fastforce simp: init_arena_select_def push_owned_arena_def Let_def heap_alloc_def arena_write_def
          split: if_splits option.splits prod.splits)
    from ensure_vector_capacity_same [OF s4(1)] s4 sel(2) show thesis by (intro New [of m]) (simp_all add: same_arenas_def arena_write_def)
  qed
qed

lemma init_arena_keeps:
  assumes st: "alloc_st ctx s U" and run: "init_arena ctx s = Inr (0, ctx', s')"
  shows "keeps U s s'"
proof -
  from st obtain arenas SH j0 l where hi: "heap_inv s" and inv: "alloc_inv ctx s arenas SH j0 l"
    "in_use_of arenas (active_arena_count ctx) SH j0 l = U" by (auto simp: alloc_st_def)
  have vec: "vec_inv ctx s arenas" using inv(1) by (simp add: alloc_inv_def)
  let ?n = "active_arena_count ctx"
  have len: "j < length arenas" if "j < ?n" for j using that alloc_inv_active [OF inv(1)] by simp
  from run show ?thesis
  proof (cases rule: init_arena_effect)
    case (Reuse p m)
    then have n: "?n < length arenas" "p = fst (arenas ! ?n)"
      using vec by (auto simp: vec_inv_def nth_append split: if_splits)
    have "fst (arenas ! j) \<noteq> p" if "j < ?n" for j using vec_inv_fst_eq [OF vec len [OF that] n(1)] that n(2) by simp
    then show ?thesis by (intro keeps_active [OF inv]) (simp add: Reuse(3) arena_write_def)
  next
    case (New m)
    have "fst (arenas ! j) \<noteq> next_ptr s \<and> snd (arenas ! j) \<noteq> unat (g_global_arena_cnt s)" if "j < ?n" for j
    proof -
      note nth = vec_inv_nth [OF vec len [OF that]]
      with hi have "snd (arenas ! j) < unat (g_global_arena_cnt s)" "fst (arenas ! j) < next_ptr s"
        unfolding heap_inv_def by metis+
      then show ?thesis by simp
    qed
    then show ?thesis by (intro keeps_active [OF inv]) (simp add: New)
  qed
qed

text \<open>The ways \<open>alloc_slot\<close> finds a slot.\<close>

lemma alloc_slot_run:
  assumes "alloc_slot ctx s = Inr (h, ctx', s')" "h \<noteq> HANDLE_NULL"
  obtains ctx0 b ctx1 s1 h2 ctx2 s2 where
    "ctx0 = ctx\<lparr>alloc_count := alloc_count ctx + 1\<rparr>"
    "reclaim_last_arena_if_empty ctx0 s = Inr (b, ctx1, s1) \<or> ctx1 = ctx0 \<and> s1 = s"
    "pop_local ctx1 s1 = Inr (h2, ctx2, s2)"
    "if h2 \<noteq> HANDLE_NULL then (h2, ctx2, s2) = (h, ctx', s')
     else steal_loop 0 ctx2 s2 = Inr (Some h, ctx', s') \<or>
       (\<exists>ctx3 s3 ctx4 s4. steal_loop 0 ctx2 s2 = Inr (None, ctx3, s3) \<and> init_arena ctx3 s3 = Inr (0, ctx4, s4) \<and>
          pop_local ctx4 s4 = Inr (h, ctx', s'))"
proof -
  let ?ctx0 = "ctx\<lparr>alloc_count := alloc_count ctx + 1\<rparr>"
  from assms obtain b ctx1 s1 where r: "(if alloc_count ?ctx0 mod of_nat SLOTS_PER_ARENA = 0
      then reclaim_last_arena_if_empty ?ctx0 s else Inr (False, ?ctx0, s)) = Inr (b, ctx1, s1)"
    by (cases "if alloc_count ?ctx0 mod of_nat SLOTS_PER_ARENA = 0
      then reclaim_last_arena_if_empty ?ctx0 s else Inr (False, ?ctx0, s)") (auto simp: alloc_slot_def Let_def)
  note run = assms(1) [unfolded alloc_slot_def Let_def, unfolded r bindE_Inr prod.case]
  then obtain h2 ctx2 s2 where p: "pop_local ctx1 s1 = Inr (h2, ctx2, s2)"
    by (cases "pop_local ctx1 s1") auto
  show thesis
    by (rule that [OF refl _ p, of b]) (use r run p assms(2) in \<open>auto split: if_splits option.splits\<close>)
qed

lemma alloc_slot_keeps:
  assumes st: "alloc_st ctx s U" and run: "alloc_slot ctx s = Inr (h, ctx', s')"
    and h: "h \<noteq> HANDLE_NULL" "h \<notin> U" and st': "alloc_st ctx' s' (insert h U)"
  shows "keeps U s s'"
proof -
  from run h(1) obtain ctx0 b ctx1 s1 h2 ctx2 s2 where r: "ctx0 = ctx\<lparr>alloc_count := alloc_count ctx + 1\<rparr>"
    "reclaim_last_arena_if_empty ctx0 s = Inr (b, ctx1, s1) \<or> ctx1 = ctx0 \<and> s1 = s"
    "pop_local ctx1 s1 = Inr (h2, ctx2, s2)"
    "if h2 \<noteq> HANDLE_NULL then (h2, ctx2, s2) = (h, ctx', s')
     else steal_loop 0 ctx2 s2 = Inr (Some h, ctx', s') \<or>
       (\<exists>ctx3 s3 ctx4 s4. steal_loop 0 ctx2 s2 = Inr (None, ctx3, s3) \<and> init_arena ctx3 s3 = Inr (0, ctx4, s4) \<and>
          pop_local ctx4 s4 = Inr (h, ctx', s'))" by (rule alloc_slot_run) blast
  have st0: "alloc_st ctx0 s U" using st r(1) by simp
  have s1: "keeps U s s1" "alloc_st ctx1 s1 U"
    using r(2) reclaim_keeps [OF st0] reclaim_last_arena_spec [OF st0] st0 by (auto simp: sum.inject)
  note pop = pop_local_keeps [OF _ h st']
  have "keeps U s1 s'"
  proof (cases "h2 = HANDLE_NULL")
    case False
    with r(3,4) pop show ?thesis by auto
  next
    case True
    have d: "s2 = s1" "alloc_st_drained ctx2 s1 U" using pop_local_spec [OF s1(2)] r(3) True by auto
    from r(4) True consider (Steal) "steal_loop 0 ctx2 s1 = Inr (Some h, ctx', s')"
      | (Init) ctx3 s3 ctx4 s4 where "steal_loop 0 ctx2 s1 = Inr (None, ctx3, s3)" "init_arena ctx3 s3 = Inr (0, ctx4, s4)"
        "pop_local ctx4 s4 = Inr (h, ctx', s')" by (auto simp: d(1))
    then show ?thesis
    proof cases
      case Steal
      then show ?thesis by (rule steal_loop_keeps [OF _ h st'])
    next
      case Init
      from d(2) have "ctx3 = ctx2 \<and> s3 = s1"
        using Init(1) steal_loop_spec [of s1 ctx2 _ _ _ U 0] by (fastforce simp: alloc_st_drained_def)
      then have "keeps U s1 s4" using init_arena_keeps [OF alloc_st_drained_st [OF d(2)]] Init(2) by simp
      then show ?thesis using pop [OF Init(3)] by (rule keeps_trans)
    qed
  qed
  with s1(1) show ?thesis by (rule keeps_trans)
qed

text \<open>Gates, the callbacks made and the threads' registration are not the allocator's.\<close>

definition outer_same :: "gstate \<Rightarrow> gstate \<Rightarrow> bool" where
  "outer_same s s' \<longleftrightarrow> gate_heap s' = gate_heap s \<and> free_log s' = free_log s \<and> tls s' = tls s \<and>
     g_init_done s' = g_init_done s"

lemma outer_same_refl [simp]: "outer_same s s"
  by (simp add: outer_same_def)

lemma outer_same_trans: "outer_same s s' \<Longrightarrow> outer_same s' s'' \<Longrightarrow> outer_same s s''"
  by (simp add: outer_same_def)

lemma outer_same_arenas: "arenas_only s s' \<Longrightarrow> outer_same s s'"
  by (auto simp: outer_same_def arenas_only_def)

lemma pop_local_outer: "pop_local ctx s = Inr (h, ctx', s') \<Longrightarrow> outer_same s s'"
  by (auto simp: pop_local_def version_modify_def outer_same_def Let_def split: if_splits option.splits)

lemma steal_loop_outer: "steal_loop i ctx s = Inr (r, ctx', s') \<Longrightarrow> outer_same s s'"
proof (induction i ctx s rule: steal_loop.induct)
  case (1 i ctx s)
  show ?case
    using 1 by (auto simp: steal_loop.simps [of i] Let_def outer_same_def dest!: pop_local_outer
        split: if_splits option.splits)
qed

lemma ensure_vector_capacity_outer: "ensure_vector_capacity ctx s = Inr (r, ctx', s') \<Longrightarrow> outer_same s s'"
  by (cases "owned_arenas ctx"; cases "arena_indices ctx")
    (auto simp: ensure_vector_capacity_def heap_alloc_def outer_same_def Let_def split: if_splits option.splits)

lemma init_arena_outer: "init_arena ctx s = Inr (r, ctx', s') \<Longrightarrow> outer_same s s'"
  by (auto simp: init_arena_def init_arena_select_def push_owned_arena_def Let_def heap_alloc_def outer_same_def
      dest!: ensure_vector_capacity_outer split: if_splits option.splits prod.splits)

lemma alloc_slot_outer:
  assumes "alloc_slot ctx s = Inr (h, ctx', s')" "h \<noteq> HANDLE_NULL"
  shows "outer_same s s'"
  using assms
  by (rule alloc_slot_run) (auto dest!: reclaim_frame pop_local_outer steal_loop_outer init_arena_outer outer_same_arenas
      simp: outer_same_def split: if_splits)

end
