(* ===== verification/Threads.thy ===== *)
theory Threads
  imports Arena_Props
begin

text \<open>
  Thread registration of \<open>atomsnap.c\<close>: \<open>global_init_routine\<close> behind \<open>pthread_once\<close>,
  \<open>atomsnap_global_init\<close>, \<open>atomsnap_thread_init_internal\<close>,
  \<open>get_or_init_thread_context\<close> and \<open>tls_destructor\<close>. A thread is a natural number;
  \<open>tls s t\<close> is the value of \<open>g_tls_key\<close> in thread \<open>t\<close>, a context address or 0. The
  lemmas show that a context belongs to at most one running thread, that its thread id is taken
  as long as it does, and what every failure path leaves behind.
\<close>

section \<open>Operations\<close>

definition global_init_routine :: "gstate \<Rightarrow> gstate result" where
  "global_init_routine s =
     (if \<not> key_create_ok (env s) then Inl Exit_Failure
      else let s1 = s\<lparr>g_arena_table := (\<lambda>_. 0)\<rparr>;
               s2 = s1\<lparr>g_thread_contexts := (\<lambda>_. 0)\<rparr>
           in Inr (s2\<lparr>g_tid_used := (\<lambda>_. False)\<rparr>))"

text \<open>\<open>pthread_once(&g_init_once, global_init_routine)\<close>.\<close>

definition pthread_once_init :: "gstate \<Rightarrow> gstate result" where
  "pthread_once_init s =
     (if g_init_done s then Inr s
      else bindE (global_init_routine s) (\<lambda>s'. Inr (s'\<lparr>g_init_done := True\<rparr>)))"

definition atomsnap_global_init :: "gstate \<Rightarrow> (int \<times> gstate) result" where
  "atomsnap_global_init s = bindE (pthread_once_init s) (\<lambda>s'. Inr (0, s'))"

text \<open>
  The loop that takes a thread id, from index \<open>i\<close> on; \<^term>\<open>None\<close> where \<open>tid\<close> stays -1.
  The flag is read and then set by a strong compare-and-swap that expects \<open>false\<close>.
\<close>

function acquire_tid :: "nat \<Rightarrow> gstate \<Rightarrow> nat option \<times> gstate" where
  "acquire_tid i s =
     (if i < MAX_THREADS then
        if g_tid_used s i = True then acquire_tid (Suc i) s
        else if g_tid_used s i = False
             then (Some i, s\<lparr>g_tid_used := (g_tid_used s)(i := True)\<rparr>)
             else acquire_tid (Suc i) s
      else (None, s))"
  by pat_completeness auto
termination
  by (relation "measure (\<lambda>(i, s). MAX_THREADS - i)") auto

declare acquire_tid.simps [simp del]

definition new_thread_context :: "nat \<Rightarrow> thread_context" where
  "new_thread_context tid =
     \<lparr>thread_id = tid, owned_arenas = Live [], arena_indices = Live [], active_arena_count = 0,
      vector_capacity = 0, local_top = HANDLE_NULL, alloc_count = 0\<rparr>"

definition atomsnap_thread_init_internal :: "nat \<Rightarrow> gstate \<Rightarrow> int \<times> gstate" where
  "atomsnap_thread_init_internal t s =
     (case acquire_tid 0 s of
        (None, s1) \<Rightarrow> (-1, s1)
      | (Some tid, s1) \<Rightarrow>
          let (ctx, s2) =
            (if g_thread_contexts s1 tid = 0 then
               let (p, sa) = heap_alloc s1 in
               if p = 0 then (0, sa\<lparr>g_tid_used := (g_tid_used sa)(tid := False)\<rparr>)
               else (p, sa\<lparr>ctx_heap := (ctx_heap sa)(p \<mapsto> new_thread_context tid),
                           g_thread_contexts := (g_thread_contexts sa)(tid := p)\<rparr>)
             else (g_thread_contexts s1 tid, s1)) in
          if ctx = 0 then (-1, s2)
          else let ok = setspecific_ok (env s2) (setspecific_clk s2);
                   s3 = s2\<lparr>setspecific_clk := Suc (setspecific_clk s2)\<rparr> in
            if \<not> ok then (-1, s3) else (0, s3\<lparr>tls := (tls s3)(t := ctx)\<rparr>))"

definition get_or_init_thread_context :: "nat \<Rightarrow> gstate \<Rightarrow> (ptr \<times> gstate) result" where
  "get_or_init_thread_context t s =
     bindE (pthread_once_init s) (\<lambda>s1.
       if tls s1 t = 0 then
         let (r, s2) = atomsnap_thread_init_internal t s1 in
         if r \<noteq> 0 then Inr (0, s2) else Inr (tls s2 t, s2)
       else Inr (tls s1 t, s1))"

lemma reclaim_decreases:
  "reclaim_last_arena_if_empty ctx s = Inr (True, ctx', s') \<Longrightarrow>
   active_arena_count ctx' < active_arena_count ctx"
  by (auto simp: reclaim_last_arena_if_empty_def Let_def split: if_splits)

text \<open>The \<open>while\<close> loop of \<open>tls_destructor\<close>.\<close>

function reclaim_loop :: "thread_context \<Rightarrow> gstate \<Rightarrow> (thread_context \<times> gstate) result" where
  "reclaim_loop ctx s =
     (if active_arena_count ctx > 0 then
        bindE (reclaim_last_arena_if_empty ctx s) (\<lambda>(reclaimed, ctx', s').
          if \<not> reclaimed then Inr (ctx', s') else reclaim_loop ctx' s')
      else Inr (ctx, s))"
  by pat_completeness auto
termination
  by (relation "measure (\<lambda>(ctx, s). active_arena_count ctx)") (auto dest: reclaim_decreases)

declare reclaim_loop.simps [simp del]

definition tls_destructor :: "ptr \<Rightarrow> gstate \<Rightarrow> gstate result" where
  "tls_destructor arg s =
     (if arg = 0 then Inr s
      else case ctx_heap s arg of None \<Rightarrow> Inl Use_After_Free
      | Some ctx \<Rightarrow>
          bindE (reclaim_loop ctx s) (\<lambda>(ctx', s').
            Inr (s'\<lparr>ctx_heap := (ctx_heap s')(arg \<mapsto> ctx'),
                    g_tid_used := (g_tid_used s')(thread_id ctx' := False)\<rparr>)))"

text \<open>
  Thread exit: the key's value is set to NULL and, where it was not NULL, the destructor is
  called with it.
\<close>

definition thread_exit :: "nat \<Rightarrow> gstate \<Rightarrow> gstate result" where
  "thread_exit t s =
     (let arg = tls s t in
      if arg = 0 then Inr s else tls_destructor arg (s\<lparr>tls := (tls s)(t := 0)\<rparr>))"

section \<open>Taking a thread id\<close>

lemma acquire_tid_cases:
  assumes "i \<le> MAX_THREADS"
  obtains (Full) "acquire_tid i s = (None, s)" "\<And>j. i \<le> j \<Longrightarrow> j < MAX_THREADS \<Longrightarrow> g_tid_used s j"
  | (Free) j where "acquire_tid i s = (Some j, s\<lparr>g_tid_used := (g_tid_used s)(j := True)\<rparr>)"
      "i \<le> j" "j < MAX_THREADS" "\<not> g_tid_used s j"
      "\<And>j'. i \<le> j' \<Longrightarrow> j' < j \<Longrightarrow> g_tid_used s j'"
  using assms
proof (induction "MAX_THREADS - i" arbitrary: i thesis)
  case 0
  with acquire_tid.simps [of i s] show ?case by simp
next
  case (Suc d)
  then have i: "i < MAX_THREADS" by simp
  show ?case
  proof (cases "g_tid_used s i")
    case False
    with i Suc.prems(2) [of i] show ?thesis by (simp add: acquire_tid.simps [of i])
  next
    case True
    with i have eq: "acquire_tid i s = acquire_tid (Suc i) s" by (simp add: acquire_tid.simps [of i])
    show ?thesis
    proof (rule Suc.hyps(1) [of "Suc i"])
      assume "acquire_tid (Suc i) s = (None, s)" "\<And>j. Suc i \<le> j \<Longrightarrow> j < MAX_THREADS \<Longrightarrow> g_tid_used s j"
      with True eq show thesis by (metis Suc.prems(1) Suc_leI le_neq_implies_less)
    next
      fix j
      assume "acquire_tid (Suc i) s = (Some j, s\<lparr>g_tid_used := (g_tid_used s)(j := True)\<rparr>)"
        "Suc i \<le> j" "j < MAX_THREADS" "\<not> g_tid_used s j"
        "\<And>j'. Suc i \<le> j' \<Longrightarrow> j' < j \<Longrightarrow> g_tid_used s j'"
      with True eq show thesis
        by (metis Suc.prems(2) Suc_leI Suc_leD le_neq_implies_less)
    qed (use Suc.hyps(2) i in auto)
  qed
qed

section \<open>Ownership of contexts\<close>

text \<open>
  Every registered context carries its thread id; a thread's context is registered, its thread
  id is taken, and no other thread has it.
\<close>

definition thread_wf :: "gstate \<Rightarrow> bool" where
  "thread_wf s \<longleftrightarrow>
     0 < next_ptr s \<and>
     (\<forall>tid. g_thread_contexts s tid \<noteq> 0 \<longrightarrow> tid < MAX_THREADS \<and> g_thread_contexts s tid < next_ptr s \<and>
        (\<exists>ctx. ctx_heap s (g_thread_contexts s tid) = Some ctx \<and> thread_id ctx = tid)) \<and>
     (\<forall>t. tls s t \<noteq> 0 \<longrightarrow> (\<exists>tid. g_thread_contexts s tid = tls s t \<and> g_tid_used s tid)) \<and>
     (\<forall>t t'. tls s t \<noteq> 0 \<longrightarrow> tls s t = tls s t' \<longrightarrow> t = t') \<and>
     (\<not> g_init_done s \<longrightarrow> (\<forall>t. tls s t = 0))"

lemma thread_wf_reg:
  assumes "thread_wf s" "g_thread_contexts s k \<noteq> 0"
  shows "k < MAX_THREADS" "g_thread_contexts s k < next_ptr s"
    "\<exists>ctx. ctx_heap s (g_thread_contexts s k) = Some ctx \<and> thread_id ctx = k"
  using assms by (simp_all add: thread_wf_def)

lemma thread_wf_own:
  "thread_wf s \<Longrightarrow> tls s t \<noteq> 0 \<Longrightarrow> \<exists>tid. g_thread_contexts s tid = tls s t \<and> g_tid_used s tid"
  by (simp add: thread_wf_def)

lemma thread_wf_excl: "thread_wf s \<Longrightarrow> tls s t \<noteq> 0 \<Longrightarrow> tls s t = tls s t' \<Longrightarrow> t = t'"
  by (simp add: thread_wf_def)

lemma thread_wfI:
  assumes "0 < next_ptr s"
    and "\<And>k. g_thread_contexts s k \<noteq> 0 \<Longrightarrow> k < MAX_THREADS \<and> g_thread_contexts s k < next_ptr s \<and>
        (\<exists>ctx. ctx_heap s (g_thread_contexts s k) = Some ctx \<and> thread_id ctx = k)"
    and "\<And>t. tls s t \<noteq> 0 \<Longrightarrow> \<exists>tid. g_thread_contexts s tid = tls s t \<and> g_tid_used s tid"
    and "\<And>t t'. tls s t \<noteq> 0 \<Longrightarrow> tls s t = tls s t' \<Longrightarrow> t = t'"
    and "\<not> g_init_done s \<Longrightarrow> (\<forall>t. tls s t = 0)"
  shows "thread_wf s"
  using assms by (simp add: thread_wf_def)

lemma thread_wf_ctx:
  assumes "thread_wf s" "tls s t \<noteq> 0"
  obtains tid ctx where "g_thread_contexts s tid = tls s t" "g_tid_used s tid" "tid < MAX_THREADS"
    "ctx_heap s (tls s t) = Some ctx" "thread_id ctx = tid"
  using assms by (metis thread_wf_def)

lemma thread_wf_inj:
  "thread_wf s \<Longrightarrow> g_thread_contexts s tid \<noteq> 0 \<Longrightarrow> g_thread_contexts s tid = g_thread_contexts s tid' \<Longrightarrow>
   tid = tid'"
  unfolding thread_wf_def by (metis option.inject)

lemma thread_wf_once:
  assumes "thread_wf s" "pthread_once_init s = Inr s'"
  shows "thread_wf s'" and "g_init_done s'"
  using assms
  by (auto simp: pthread_once_init_def global_init_routine_def thread_wf_def Let_def split: if_splits)

text \<open>
  Every outcome of \<open>atomsnap_thread_init_internal\<close>: all ids taken; no memory for a context,
  with the id given back; \<open>pthread_setspecific\<close> failed, with the id still taken; success.
\<close>

definition ready_context :: "gstate \<Rightarrow> nat \<Rightarrow> gstate \<Rightarrow> bool" where
  "ready_context s tid s' \<longleftrightarrow>
     tid < MAX_THREADS \<and> \<not> g_tid_used s tid \<and> (\<forall>j < tid. g_tid_used s j) \<and>
     g_tid_used s' = (g_tid_used s)(tid := True) \<and>
     (if g_thread_contexts s tid = 0
      then g_thread_contexts s' = (g_thread_contexts s)(tid := next_ptr s) \<and>
        ctx_heap s' = (ctx_heap s)(next_ptr s \<mapsto> new_thread_context tid) \<and> next_ptr s' = Suc (next_ptr s)
      else g_thread_contexts s' = g_thread_contexts s \<and> ctx_heap s' = ctx_heap s \<and>
        next_ptr s' = next_ptr s)"

lemma thread_init_cases:
  assumes "0 < next_ptr s"
  obtains (No_Id) s' where "atomsnap_thread_init_internal t s = (-1, s')" "s' = s"
      "\<forall>j < MAX_THREADS. g_tid_used s j"
  | (No_Memory) tid s' where "atomsnap_thread_init_internal t s = (-1, s')"
      "\<not> g_tid_used s tid" "s' = s\<lparr>alloc_clk := Suc (alloc_clk s)\<rparr>"
      "\<not> alloc_ok (env s) (alloc_clk s)"
  | (No_Tls) tid s' where "atomsnap_thread_init_internal t s = (-1, s')"
      "ready_context s tid s'" "tls s' = tls s" "g_init_done s' = g_init_done s"
      "arena_heap s' = arena_heap s"
  | (Ok) tid s' where "atomsnap_thread_init_internal t s = (0, s')"
      "ready_context s tid s'" "tls s' = (tls s)(t := g_thread_contexts s' tid)"
      "g_init_done s' = g_init_done s" "arena_heap s' = arena_heap s"
      "setspecific_ok (env s) (setspecific_clk s)"
proof -
  have "(0::nat) \<le> MAX_THREADS" by simp
  then show thesis
  proof (cases rule: acquire_tid_cases [where s = s])
    case Full
    from Full(1) have "atomsnap_thread_init_internal t s = (-1, s)"
      by (simp add: atomsnap_thread_init_internal_def)
    with Full(2) No_Id show thesis by blast
  next
    case (Free tid)
    let ?s1 = "s\<lparr>g_tid_used := (g_tid_used s)(tid := True)\<rparr>"
    let ?s2 = "if g_thread_contexts s tid = 0
      then ?s1\<lparr>alloc_clk := Suc (alloc_clk s), next_ptr := Suc (next_ptr s),
         ctx_heap := (ctx_heap s)(next_ptr s \<mapsto> new_thread_context tid),
         g_thread_contexts := (g_thread_contexts s)(tid := next_ptr s)\<rparr> else ?s1"
    let ?ok = "setspecific_ok (env s) (setspecific_clk s)"
    let ?s3 = "?s2\<lparr>setspecific_clk := Suc (setspecific_clk s)\<rparr>"
    let ?s4 = "?s3\<lparr>tls := (tls s)(t := g_thread_contexts ?s3 tid)\<rparr>"
    have rc: "ready_context s tid ?s3" "ready_context s tid ?s4"
      using Free by (simp_all add: ready_context_def)
    note unfold = atomsnap_thread_init_internal_def Free(1) Let_def heap_alloc_def
    show thesis
    proof (cases "g_thread_contexts s tid = 0 \<and> \<not> alloc_ok (env s) (alloc_clk s)")
      case True
      with Free(4) have "atomsnap_thread_init_internal t s = (-1, s\<lparr>alloc_clk := Suc (alloc_clk s)\<rparr>)"
        by (simp add: unfold fun_upd_idem)
      with Free(4) True show thesis by (intro No_Memory) auto
    next
      case False
      show thesis
      proof (cases ?ok)
        case True
        with False assms have "atomsnap_thread_init_internal t s = (0, ?s4)" by (auto simp: unfold)
        with rc(2) \<open>?ok\<close> show thesis by (intro Ok [of ?s4 tid]) auto
      next
        case nok: False
        with False assms have "atomsnap_thread_init_internal t s = (-1, ?s3)" by (auto simp: unfold)
        with rc(1) show thesis by (intro No_Tls [of ?s3 tid]) auto
      qed
    qed
  qed
qed

lemma thread_wf_ready:
  assumes wf: "thread_wf s" and rc: "ready_context s tid s'" and dn: "g_init_done s'"
    and tls: "tls s' = tls s \<or> tls s' = (tls s)(t := g_thread_contexts s' tid)"
  shows "thread_wf s'"
proof -
  let ?p = "g_thread_contexts s' tid"
  have p: "?p \<noteq> 0" and free: "\<not> g_tid_used s tid" and used: "g_tid_used s' = (g_tid_used s)(tid := True)"
    and tid: "tid < MAX_THREADS" and nxt: "0 < next_ptr s'"
    using rc wf by (auto simp: ready_context_def thread_wf_def split: if_splits)
  have ctxs: "g_thread_contexts s' = g_thread_contexts s \<or>
      g_thread_contexts s tid = 0 \<and> g_thread_contexts s' = (g_thread_contexts s)(tid := next_ptr s)"
    using rc by (auto simp: ready_context_def split: if_splits)
  have old: "tid' < MAX_THREADS \<and> g_thread_contexts s tid' < next_ptr s \<and>
      (\<exists>ctx. ctx_heap s (g_thread_contexts s tid') = Some ctx \<and> thread_id ctx = tid')"
    if "g_thread_contexts s tid' \<noteq> 0" for tid'
    using that wf by (simp add: thread_wf_def)
  have reg: "tid' < MAX_THREADS \<and> g_thread_contexts s' tid' < next_ptr s' \<and>
      (\<exists>ctx. ctx_heap s' (g_thread_contexts s' tid') = Some ctx \<and> thread_id ctx = tid')"
    if "g_thread_contexts s' tid' \<noteq> 0" for tid'
    using that rc old [of tid'] old [of tid]
    by (cases "g_thread_contexts s tid = 0"; cases "tid' = tid")
      (auto simp: ready_context_def new_thread_context_def less_SucI)
  have own: "\<exists>tid'. g_thread_contexts s' tid' = tls s u \<and> g_tid_used s' tid' \<and> tid' \<noteq> tid"
    if "tls s u \<noteq> 0" for u
    using thread_wf_ctx [OF wf that] free ctxs used by (metis fun_upd_other)
  have neq: "tls s u \<noteq> ?p" if "tls s u \<noteq> 0" for u
    using own [OF that] reg p by (metis option.inject)
  have "\<forall>t. tls s' t \<noteq> 0 \<longrightarrow> (\<exists>tid. g_thread_contexts s' tid = tls s' t \<and> g_tid_used s' tid)"
    using tls own used by (metis fun_upd_apply)
  moreover have "\<forall>u u'. tls s' u \<noteq> 0 \<longrightarrow> tls s' u = tls s' u' \<longrightarrow> u = u'"
    using tls neq wf p unfolding thread_wf_def by (metis fun_upd_apply)
  ultimately show ?thesis
    using nxt reg dn unfolding thread_wf_def by blast
qed

lemma get_or_init_thread_wf:
  assumes wf: "thread_wf s" and run: "get_or_init_thread_context t s = Inr (p, s')"
  shows "thread_wf s'" and "p \<noteq> 0 \<Longrightarrow> tls s' t = p"
proof -
  from run obtain s1 where s1: "pthread_once_init s = Inr s1" by (auto simp: get_or_init_thread_context_def)
  note wf1 = thread_wf_once [OF wf s1]
  have "thread_wf s' \<and> (p \<noteq> 0 \<longrightarrow> tls s' t = p)"
  proof (cases "tls s1 t = 0")
    case False
    with run s1 wf1 show ?thesis by (auto simp: get_or_init_thread_context_def)
  next
    case True
    have "0 < next_ptr s1" using wf1 by (simp add: thread_wf_def)
    then show ?thesis
    proof (cases rule: thread_init_cases [of _ t])
      case (No_Id s2)
      with run s1 wf1 True show ?thesis by (simp add: get_or_init_thread_context_def)
    next
      case (No_Memory tid s2)
      with run s1 wf1 True show ?thesis
        by (auto simp: get_or_init_thread_context_def thread_wf_def)
    next
      case (No_Tls tid s2)
      then have "thread_wf s2" using wf1 by (intro thread_wf_ready [of s1 tid s2]) auto
      with No_Tls run s1 True show ?thesis by (simp add: get_or_init_thread_context_def)
    next
      case (Ok tid s2)
      then have "thread_wf s2" using wf1 by (intro thread_wf_ready [of s1 tid s2 t]) auto
      with Ok run s1 True show ?thesis by (auto simp: get_or_init_thread_context_def)
    qed
  qed
  then show "thread_wf s'" and "p \<noteq> 0 \<Longrightarrow> tls s' t = p" by auto
qed

section \<open>Thread exit\<close>

lemma reclaim_loop_spec:
  "alloc_st ctx s U \<Longrightarrow>
   \<exists>ctx' s'. reclaim_loop ctx s = Inr (ctx', s') \<and> alloc_st ctx' s' U \<and>
     (active_arena_count ctx' = 0 \<or> reclaim_last_arena_if_empty ctx' s' = Inr (False, ctx', s'))"
proof (induction "active_arena_count ctx" arbitrary: ctx s)
  case 0
  then show ?case by (simp add: reclaim_loop.simps)
next
  case (Suc n)
  from reclaim_last_arena_spec [OF Suc.prems] obtain b ctx' s' where
    r: "reclaim_last_arena_if_empty ctx s = Inr (b, ctx', s')" "alloc_st ctx' s' U"
    "\<not> b \<Longrightarrow> ctx' = ctx \<and> s' = s" "b \<Longrightarrow> active_arena_count ctx = Suc (active_arena_count ctx')"
    by metis
  have unfold: "reclaim_loop ctx s = (if \<not> b then Inr (ctx', s') else reclaim_loop ctx' s')"
    using Suc.hyps(2) r(1) by (simp add: reclaim_loop.simps [of ctx])
  show ?case
  proof (cases b)
    case False
    with r unfold show ?thesis by auto
  next
    case True
    with Suc.hyps r(4) have "n = active_arena_count ctx'" by simp
    from Suc.hyps(1) [OF this r(2)] True unfold show ?thesis by simp
  qed
qed

lemma reclaim_loop_frame:
  "reclaim_loop ctx s = Inr (ctx', s') \<Longrightarrow> thread_id ctx' = thread_id ctx \<and> arenas_only s s'"
proof (induction "active_arena_count ctx" arbitrary: ctx s rule: less_induct)
  case less
  show ?case
  proof (cases "active_arena_count ctx > 0")
    case False
    with less.prems show ?thesis by (simp add: reclaim_loop.simps [of ctx])
  next
    case True
    with less.prems obtain b ctx1 s1 where r: "reclaim_last_arena_if_empty ctx s = Inr (b, ctx1, s1)"
      "(if \<not> b then Inr (ctx1, s1) else reclaim_loop ctx1 s1) = Inr (ctx', s')"
      by (auto simp: reclaim_loop.simps [of ctx])
    with less.hyps [of ctx1 s1] reclaim_decreases [of ctx s ctx1 s1] reclaim_frame [OF r(1)]
    show ?thesis by (cases b) (auto intro: arenas_only_trans)
  qed
qed

lemma thread_exit_spec:
  assumes wf: "thread_wf s" and t: "tls s t \<noteq> 0"
    and ctx: "ctx_heap s (tls s t) = Some ctx" and st: "alloc_st ctx s U"
  obtains ctx' s' where "thread_exit t s = Inr s'" "tls s' = (tls s)(t := 0)"
    "g_tid_used s' = (g_tid_used s)(thread_id ctx := False)"
    "ctx_heap s' = (ctx_heap s)(tls s t \<mapsto> ctx')" "thread_id ctx' = thread_id ctx"
    "alloc_st ctx' s' U" "g_thread_contexts s' = g_thread_contexts s" "next_ptr s' = next_ptr s"
    "g_init_done s' = g_init_done s"
    "active_arena_count ctx' = 0 \<or> reclaim_last_arena_if_empty ctx' s' = Inr (False, ctx', s')"
proof -
  let ?s1 = "s\<lparr>tls := (tls s)(t := 0)\<rparr>"
  have st1: "alloc_st ctx ?s1 U"
    using st same_arenas_alloc_inv [of s ?s1] same_arenas_heap_inv [of s ?s1]
    by (simp add: alloc_st_def same_arenas_def)
  from reclaim_loop_spec [OF st1] obtain ctx' s2 where r: "reclaim_loop ctx ?s1 = Inr (ctx', s2)"
    "alloc_st ctx' s2 U"
    "active_arena_count ctx' = 0 \<or> reclaim_last_arena_if_empty ctx' s2 = Inr (False, ctx', s2)" by blast
  from reclaim_loop_frame [OF r(1)] obtain h where fr: "thread_id ctx' = thread_id ctx"
    and s2: "s2 = ?s1\<lparr>arena_heap := h\<rparr>" by (auto simp: arenas_only_def)
  let ?s3 = "s2\<lparr>ctx_heap := (ctx_heap s2)(tls s t \<mapsto> ctx'),
     g_tid_used := (g_tid_used s2)(thread_id ctx' := False)\<rparr>"
  have eq: "thread_exit t s = Inr ?s3"
    using t ctx r(1) by (simp add: thread_exit_def tls_destructor_def Let_def)
  have "alloc_st ctx' ?s3 U"
    using r(2) same_arenas_alloc_inv [of s2 ?s3] same_arenas_heap_inv [of s2 ?s3]
    by (simp add: alloc_st_def same_arenas_def)
  moreover have "active_arena_count ctx' = 0 \<or>
      reclaim_last_arena_if_empty ctx' ?s3 = Inr (False, ctx', ?s3)"
    using r(3) by (auto simp: reclaim_last_arena_if_empty_def arena_read_def Let_def
        split: if_splits option.splits)
  ultimately show thesis
    using fr by (intro that [OF eq, of ctx']) (simp_all add: s2)
qed

lemma thread_exit_wf:
  assumes wf: "thread_wf s" and run: "thread_exit t s = Inr s'"
  shows "thread_wf s'" and "tls s' t = 0"
proof -
  have "thread_wf s' \<and> tls s' t = 0"
  proof (cases "tls s t = 0")
    case True
    with wf run show ?thesis by (simp add: thread_exit_def Let_def)
  next
    case False
    let ?s1 = "s\<lparr>tls := (tls s)(t := 0)\<rparr>"
    from thread_wf_ctx [OF wf False] obtain tid ctx where c: "g_thread_contexts s tid = tls s t"
      "ctx_heap s (tls s t) = Some ctx" "thread_id ctx = tid" by metis
    from run False c obtain ctx' s2 where r: "reclaim_loop ctx ?s1 = Inr (ctx', s2)"
      "s' = s2\<lparr>ctx_heap := (ctx_heap s2)(tls s t \<mapsto> ctx'),
               g_tid_used := (g_tid_used s2)(thread_id ctx' := False)\<rparr>"
      by (auto simp: thread_exit_def tls_destructor_def Let_def)
    from reclaim_loop_frame [OF r(1)] obtain h where fr: "thread_id ctx' = tid"
      and s2: "s2 = ?s1\<lparr>arena_heap := h\<rparr>" using c(3) by (auto simp: arenas_only_def)
    have s': "tls s' = (tls s)(t := 0)" "g_thread_contexts s' = g_thread_contexts s"
      "g_tid_used s' = (g_tid_used s)(tid := False)" "ctx_heap s' = (ctx_heap s)(tls s t \<mapsto> ctx')"
      "next_ptr s' = next_ptr s" "g_init_done s' = g_init_done s"
      using r(2) s2 fr by simp_all
    have other: "tid' \<noteq> tid" if "g_thread_contexts s tid' = tls s u" "u \<noteq> t" "tls s u \<noteq> 0" for u tid'
      using that c(1) thread_wf_excl [OF wf, of u t] by auto
    have reg: "k < MAX_THREADS \<and> g_thread_contexts s' k < next_ptr s' \<and>
        (\<exists>ctx. ctx_heap s' (g_thread_contexts s' k) = Some ctx \<and> thread_id ctx = k)"
      if "g_thread_contexts s' k \<noteq> 0" for k
    proof -
      from that have k: "g_thread_contexts s k \<noteq> 0" by (simp add: s')
      with c(1) thread_wf_inj [OF wf k, of tid] fr
      have "k = tid" if "g_thread_contexts s k = tls s t" using that by simp
      with thread_wf_reg [OF wf k] fr show ?thesis by (auto simp: s')
    qed
    have own: "\<exists>tid. g_thread_contexts s' tid = tls s' u \<and> g_tid_used s' tid" if "tls s' u \<noteq> 0" for u
    proof -
      from that have u: "u \<noteq> t" "tls s u \<noteq> 0" by (auto simp: s' split: if_splits)
      with thread_wf_ctx [OF wf u(2)] other show ?thesis unfolding s' by (metis fun_upd_other)
    qed
    have "thread_wf s'"
    proof (rule thread_wfI)
      show "0 < next_ptr s'" "\<not> g_init_done s' \<Longrightarrow> \<forall>t. tls s' t = 0"
        using wf by (simp_all add: s' thread_wf_def)
      show "u = u'" if "tls s' u \<noteq> 0" "tls s' u = tls s' u'" for u u'
        using that thread_wf_excl [OF wf, of u u'] by (simp add: s' split: if_splits)
    qed (use reg own in blast)+
    then show ?thesis by (simp add: s')
  qed
  then show "thread_wf s'" and "tls s' t = 0" by auto
qed

section \<open>The life of threads\<close>

text \<open>
  Threads register (on their first allocation) and exit in any order. Between these steps the
  state changes in ways that leave the registration tables alone.
\<close>

definition fresh_process :: "gstate \<Rightarrow> bool" where
  "fresh_process s \<longleftrightarrow>
     \<not> g_init_done s \<and> 0 < next_ptr s \<and> (\<forall>tid. g_thread_contexts s tid = 0) \<and> (\<forall>t. tls s t = 0)"

definition same_registration :: "gstate \<Rightarrow> gstate \<Rightarrow> bool" where
  "same_registration s s' \<longleftrightarrow>
     g_thread_contexts s' = g_thread_contexts s \<and> g_tid_used s' = g_tid_used s \<and> tls s' = tls s \<and>
     g_init_done s' = g_init_done s \<and> next_ptr s \<le> next_ptr s' \<and>
     (\<forall>p. map_option thread_id (ctx_heap s' p) = map_option thread_id (ctx_heap s p))"

inductive thread_step :: "gstate \<Rightarrow> gstate \<Rightarrow> bool" where
  Register: "get_or_init_thread_context t s = Inr (p, s') \<Longrightarrow> thread_step s s'"
| Exit: "thread_exit t s = Inr s' \<Longrightarrow> thread_step s s'"
| Work: "same_registration s s' \<Longrightarrow> thread_step s s'"

lemma thread_wf_work:
  assumes "thread_wf s" "same_registration s s'"
  shows "thread_wf s'"
proof -
  have "\<exists>ctx. ctx_heap s' p = Some ctx \<and> thread_id ctx = k"
    if "ctx_heap s p = Some c" "thread_id c = k" for p c k
    using assms(2) that unfolding same_registration_def
    by (metis map_option_eq_Some option.simps(9))
  note ctx = this
  from assms(2) have s': "g_thread_contexts s' = g_thread_contexts s" "g_tid_used s' = g_tid_used s"
    "tls s' = tls s" "g_init_done s' = g_init_done s" "next_ptr s \<le> next_ptr s'"
    by (simp_all add: same_registration_def)
  show ?thesis
  proof (rule thread_wfI)
    show "0 < next_ptr s'" "\<not> g_init_done s' \<Longrightarrow> \<forall>t. tls s' t = 0"
      using assms(1) s' by (auto simp: thread_wf_def)
    show "k < MAX_THREADS \<and> g_thread_contexts s' k < next_ptr s' \<and>
        (\<exists>ctx. ctx_heap s' (g_thread_contexts s' k) = Some ctx \<and> thread_id ctx = k)"
      if "g_thread_contexts s' k \<noteq> 0" for k
      using that thread_wf_reg [OF assms(1), of k] ctx s' by (metis less_le_trans)
  qed (use thread_wf_own [OF assms(1)] thread_wf_excl [OF assms(1)] s' in auto)
qed

interpretation threads: inductive_invariant fresh_process thread_step thread_wf
proof
  show "thread_wf s" if "fresh_process s" for s
    using that by (simp add: fresh_process_def thread_wf_def)
  show "thread_wf t" if "thread_wf s" "thread_step s t" for s t
    using that(2,1)
    by cases (auto intro: get_or_init_thread_wf(1) thread_exit_wf(1) thread_wf_work)
qed

section \<open>Properties\<close>

lemma fresh_context_wf:
  assumes "heap_inv s"
  shows "alloc_st (new_thread_context tid) s {}"
proof -
  have "alloc_inv (new_thread_context tid) s [] (\<lambda>_. []) 0 []"
    by (simp add: alloc_inv_def vec_inv_def new_thread_context_def)
  from alloc_stI [OF assms this] show ?thesis by (simp add: in_use_of_def new_thread_context_def)
qed

lemma sample_registered:
  obtains s where "get_or_init_thread_context 3 sample_state = Inr (1, s)" "tls s 3 = 1"
    "ctx_heap s 1 = Some (new_thread_context 0)" "heap_inv s"
proof -
  let ?s1 = "sample_state\<lparr>g_init_done := True\<rparr>"
  have once: "pthread_once_init sample_state = Inr ?s1"
    by (simp add: pthread_once_init_def global_init_routine_def sample_state_def sample_env_def)
  have acq: "acquire_tid 0 ?s1 = (Some 0, ?s1\<lparr>g_tid_used := (\<lambda>_. False)(0 := True)\<rparr>)"
    by (simp add: acquire_tid.simps [of 0] sample_state_def MAX_THREADS_def)
  let ?s2 = "?s1\<lparr>g_tid_used := (\<lambda>_. False)(0 := True), alloc_clk := 1, next_ptr := 2,
     ctx_heap := (\<lambda>_. None)(1 \<mapsto> new_thread_context 0), g_thread_contexts := (\<lambda>_. 0)(0 := 1),
     setspecific_clk := 1, tls := (\<lambda>_. 0)(3 := 1)\<rparr>"
  have "atomsnap_thread_init_internal 3 ?s1 = (0, ?s2)"
    by (simp add: atomsnap_thread_init_internal_def acq)
      (simp add: heap_alloc_def sample_state_def sample_env_def Let_def)
  then have "get_or_init_thread_context 3 sample_state = Inr (1, ?s2)"
    by (simp add: get_or_init_thread_context_def once) (simp add: sample_state_def)
  then show thesis
    by (rule that) (simp_all add: heap_inv_def sample_state_def)
qed

lemma sample_fresh: "fresh_process sample_state"
  by (simp add: fresh_process_def sample_state_def)



text \<open>
  Claim C26. A first call that finds a free thread id, memory and thread-specific data gives the
  thread a context: the lowest free id is taken, the context of an exited thread is adopted with
  its arenas, and only where there is none a new one is made.
\<close>

theorem registration_succeeds:
  assumes "thread_wf s" "g_init_done s" "tls s t = 0" "tid < MAX_THREADS" "\<not> g_tid_used s tid"
    "\<forall>j < tid. g_tid_used s j" "\<forall>n. alloc_ok (env s) n" "\<forall>n. setspecific_ok (env s) n"
  shows "\<exists>p s'. get_or_init_thread_context t s = Inr (p, s') \<and> p \<noteq> 0 \<and> tls s' = (tls s)(t := p) \<and>
    g_tid_used s' = (g_tid_used s)(tid := True) \<and>
    (if g_thread_contexts s tid = 0 then ctx_heap s' p = Some (new_thread_context tid)
     else p = g_thread_contexts s tid \<and> ctx_heap s' = ctx_heap s)"
proof -
  have nxt: "0 < next_ptr s" using assms(1) by (simp add: thread_wf_def)
  have "acquire_tid 0 s = (Some tid, s\<lparr>g_tid_used := (g_tid_used s)(tid := True)\<rparr>)"
  proof -
    have "(0::nat) \<le> MAX_THREADS" by simp
    then show ?thesis
    proof (cases rule: acquire_tid_cases [where s = s])
      case (Free j)
      with assms(5,6) have "j = tid" by (metis le0 nat_neq_iff)
      with Free(1) show ?thesis by simp
    qed (use assms(4,5) in auto)
  qed
  with assms nxt show ?thesis
    by (auto simp: get_or_init_thread_context_def pthread_once_init_def heap_alloc_def Let_def
        atomsnap_thread_init_internal_def)
qed

theorem registration_succeeds_witness:
  "\<exists>p s'. get_or_init_thread_context 5 (sample_state\<lparr>g_init_done := True\<rparr>) = Inr (p, s') \<and>
     ctx_heap s' p = Some (new_thread_context 0)"
proof -
  have "thread_wf (sample_state\<lparr>g_init_done := True\<rparr>)" by (simp add: thread_wf_def sample_state_def)
  from registration_succeeds [OF this, of 5 0] show ?thesis
    by (auto simp: sample_state_def sample_env_def MAX_THREADS_def)
qed



text \<open>
  A failing \<open>pthread_setspecific\<close> leaks a thread id: the call reports failure, no
  thread has the context, and yet its id stays taken, unlike on the out-of-memory path of the
  same function.
\<close>

theorem setspecific_failure_leaks_tid:
  assumes "thread_wf s" "g_init_done s" "tls s t = 0" "tid < MAX_THREADS" "\<not> g_tid_used s tid"
    "\<forall>n. alloc_ok (env s) n" "\<forall>n. \<not> setspecific_ok (env s) n"
  shows "\<exists>s' tid'. get_or_init_thread_context t s = Inr (0, s') \<and> tls s' = tls s \<and>
    \<not> g_tid_used s tid' \<and> g_tid_used s' tid' \<and> g_thread_contexts s' tid' \<noteq> 0 \<and>
    (\<forall>u. tls s' u \<noteq> g_thread_contexts s' tid')"
proof -
  have "0 < next_ptr s" using assms(1) by (simp add: thread_wf_def)
  then show ?thesis
  proof (cases rule: thread_init_cases [of _ t])
    case (No_Tls tid' s')
    have p: "g_thread_contexts s' tid' \<noteq> 0" and free: "\<not> g_tid_used s tid'" and used: "g_tid_used s' tid'"
      using No_Tls(2) \<open>0 < next_ptr s\<close> by (auto simp: ready_context_def split: if_splits)
    have wf': "thread_wf s'" using No_Tls assms by (intro thread_wf_ready [OF assms(1)]) auto
    have "tls s' u \<noteq> g_thread_contexts s' tid'" for u
    proof
      assume u: "tls s' u = g_thread_contexts s' tid'"
      with p No_Tls(3) have "tls s u \<noteq> 0" by simp
      from thread_wf_ctx [OF assms(1) this] obtain k where k: "g_thread_contexts s k = tls s u" "g_tid_used s k"
        by metis
      with free have "k \<noteq> tid'" by auto
      moreover have "g_thread_contexts s' k = g_thread_contexts s k"
        using No_Tls(2) \<open>k \<noteq> tid'\<close> by (auto simp: ready_context_def split: if_splits)
      ultimately show False using thread_wf_inj [OF wf', of tid' k] p u k No_Tls(3) by simp
    qed
    with No_Tls assms(2,3) p free used show ?thesis
      by (intro exI [of _ s'] exI [of _ tid'])
        (simp add: get_or_init_thread_context_def pthread_once_init_def)
  next
    case (No_Id s')
    with assms(4,5) show ?thesis by blast
  qed (use assms in auto)
qed

theorem setspecific_failure_leaks_tid_witness:
  "\<exists>s' tid'. get_or_init_thread_context 5 (sample_state\<lparr>g_init_done := True,
       env := sample_env\<lparr>setspecific_ok := (\<lambda>_. False)\<rparr>\<rparr>) = Inr (0, s') \<and> g_tid_used s' tid'"
proof -
  let ?s = "sample_state\<lparr>g_init_done := True, env := sample_env\<lparr>setspecific_ok := (\<lambda>_. False)\<rparr>\<rparr>"
  have "thread_wf ?s" by (simp add: thread_wf_def sample_state_def)
  from setspecific_failure_leaks_tid [OF this, of 5 0] show ?thesis
    by (auto simp: sample_state_def sample_env_def MAX_THREADS_def)
qed

end
