(* ===== verification/Versions.thy ===== *)
theory Versions
  imports Threads
begin

text \<open>
  The public operations of \<open>atomsnap.h\<close>: gates, versions, acquire and release, exchange and
  compare-exchange, each run by one thread from its call to its return. The user callback
  \<open>free_impl\<close> is code of the client: the model records each call of it, with its two
  arguments, at the end of \<open>free_log\<close>. Memory orders do not appear: every atomic access takes
  effect at once.
\<close>

section \<open>The reclamation word\<close>

text \<open>The value \<open>detach_and_adjust\<close> installs for \<open>cur\<close>, and the test of \<open>try_finalize\<close>.\<close>

definition detach_next :: "u64 \<Rightarrow> u32 \<Rightarrow> u64" where
  "detach_next cur old_refs =
     (let cnt = inner_cnt cur; flags = inner_flags cur;
          new_cnt = cnt - old_refs; new_flags = flags OR INNER_F_DETACHED
      in push_bit INNER_CNT_SHIFT (ucast new_cnt) OR ucast new_flags)"

definition finalize_due :: "u64 \<Rightarrow> bool" where
  "finalize_due state \<longleftrightarrow> inner_flags state AND INNER_F_DETACHED \<noteq> 0 \<and> inner_cnt state = 0"

lemma detach_next_pack: "detach_next (pack32 c f) r = pack32 (c - r) (f OR INNER_F_DETACHED)"
  by (simp add: detach_next_def Let_def INNER_CNT_SHIFT_def flip: pack32_def)

lemma finalize_due_pack:
  "finalize_due (pack32 c f) \<longleftrightarrow> f AND INNER_F_DETACHED \<noteq> 0 \<and> c = 0"
  by (simp add: finalize_due_def)

section \<open>Reclamation\<close>

text \<open>The call \<open>ver->gate->free_impl(obj, ver->free_context)\<close> behind its two null tests.\<close>

definition call_free_impl :: "atomsnap_version \<Rightarrow> gstate \<Rightarrow> gstate result" where
  "call_free_impl v s =
     (if gate v = 0 then Inr s
      else bindE (gate_read s (gate v)) (\<lambda>g.
        if free_impl g = 0 then Inr s
        else Inr (s\<lparr>free_log := free_log s @ [(free_impl g, object v, free_context v)]\<rparr>)))"

definition finalize_and_free :: "slot_ptr \<Rightarrow> gstate \<Rightarrow> gstate result" where
  "finalize_and_free ver s =
     bindE (version_read s ver) (\<lambda>v.
     bindE (call_free_impl v s) (\<lambda>s1. free_slot ver s1))"

definition try_finalize :: "slot_ptr \<Rightarrow> u64 \<Rightarrow> gstate \<Rightarrow> gstate result" where
  "try_finalize ver state s =
     (let flags = inner_flags state in
      if flags AND INNER_F_DETACHED = 0 then Inr s
      else if inner_cnt state \<noteq> 0 then Inr s
      else bindE (version_read s ver) (\<lambda>v.
        let old = inner_state v in
        bindE (version_modify ver (inner_state_update (\<lambda>x. x OR ucast INNER_F_FINALIZED)) s) (\<lambda>s1.
          if (ucast old :: u32) AND INNER_F_FINALIZED \<noteq> 0 then Inl Abort
          else finalize_and_free ver s1)))"

text \<open>
  The loop of \<open>detach_and_adjust\<close>: \<open>n\<close> spurious failures left, \<open>cur\<close> the value last
  read. It returns the installed value.
\<close>

function detach_loop :: "nat \<Rightarrow> slot_ptr \<Rightarrow> u32 \<Rightarrow> u64 \<Rightarrow> gstate \<Rightarrow> (u64 \<times> gstate) result" where
  "detach_loop n ver old_refs cur s =
     (let nxt = detach_next cur old_refs in
      bindE (version_read s ver) (\<lambda>v.
        let (ok, obj, expected) = cas_weak (0 < n) (inner_state v) cur nxt in
        if ok then bindE (version_modify ver (inner_state_update (\<lambda>_. obj)) s) (\<lambda>s1. Inr (nxt, s1))
        else detach_loop (n - 1) ver old_refs expected s))"
  by pat_completeness auto
termination
  by (relation "measure (\<lambda>(n, ver, refs, cur, s).
        n + (if (\<exists>v. version_read s ver = Inr v \<and> inner_state v = cur) then 0 else 1))")
    (auto simp: cas_weak_def split: if_splits)

declare detach_loop.simps [simp del]

definition detach_and_adjust :: "slot_ptr \<Rightarrow> u32 \<Rightarrow> gstate \<Rightarrow> gstate result" where
  "detach_and_adjust ver old_refs s =
     bindE (version_read s ver) (\<lambda>v.
       let (n, s1) = next_spurious s in
       bindE (detach_loop n ver old_refs (inner_state v) s1) (\<lambda>(nxt, s2).
         try_finalize ver nxt s2))"

section \<open>Gates\<close>

definition gate_write :: "ptr \<Rightarrow> atomsnap_gate \<Rightarrow> gstate \<Rightarrow> gstate" where
  "gate_write p g s = s\<lparr>gate_heap := (gate_heap s)(p \<mapsto> g)\<rparr>"

definition atomsnap_init_gate :: "atomsnap_init_context \<Rightarrow> gstate \<Rightarrow> ptr \<times> gstate" where
  "atomsnap_init_gate ctx s =
     (let (p, s1) = heap_alloc s in
      if p = 0 then (0, s1)
      else if ictx_free_impl ctx = 0 then (0, s1)
      else let n = num_extra_control_blocks ctx;
               g = \<lparr>control_block = 0, free_impl = ictx_free_impl ctx,
                    extra_control_blocks = [], num_extra_slots = n\<rparr> in
        if n > 0 then
          let (q, s2) = heap_alloc s1 in
          if q = 0 then (0, s2)
          else (p, gate_write p (g\<lparr>extra_control_blocks := replicate (nat n) (ucast HANDLE_NULL),
                                   control_block := ucast HANDLE_NULL\<rparr>) s2)
        else (p, gate_write p (g\<lparr>control_block := ucast HANDLE_NULL\<rparr>) s1))"

definition atomsnap_destroy_gate :: "ptr \<Rightarrow> gstate \<Rightarrow> gstate result" where
  "atomsnap_destroy_gate p s =
     (if p = 0 then Inr s
      else bindE (gate_read s p) (\<lambda>_. Inr (s\<lparr>gate_heap := (gate_heap s)(p := None)\<rparr>)))"

text \<open>The address \<open>get_cb_slot\<close> returns, and the accesses through it.\<close>

datatype cb_slot = Control_Block | Extra_Block int

definition get_cb_slot :: "int \<Rightarrow> cb_slot" where
  "get_cb_slot idx = (if idx = 0 then Control_Block else Extra_Block (idx - 1))"

fun cb_load :: "atomsnap_gate \<Rightarrow> cb_slot \<Rightarrow> u64 result" where
  "cb_load g Control_Block = Inr (control_block g)"
| "cb_load g (Extra_Block i) =
     (if 0 \<le> i \<and> nat i < length (extra_control_blocks g)
      then Inr (extra_control_blocks g ! nat i) else Inl Out_Of_Bounds)"

fun cb_store :: "atomsnap_gate \<Rightarrow> cb_slot \<Rightarrow> u64 \<Rightarrow> atomsnap_gate" where
  "cb_store g Control_Block w = g\<lparr>control_block := w\<rparr>"
| "cb_store g (Extra_Block i) w =
     g\<lparr>extra_control_blocks := (extra_control_blocks g)[nat i := w]\<rparr>"

text \<open>The word at slot \<open>idx\<close> of the gate at \<open>p\<close>, and a write to it.\<close>

definition read_cb :: "ptr \<Rightarrow> int \<Rightarrow> gstate \<Rightarrow> u64 result" where
  "read_cb p idx s = bindE (gate_read s p) (\<lambda>g. cb_load g (get_cb_slot idx))"

definition write_cb :: "ptr \<Rightarrow> int \<Rightarrow> u64 \<Rightarrow> gstate \<Rightarrow> gstate result" where
  "write_cb p idx w s =
     bindE (gate_read s p) (\<lambda>g.
     bindE (cb_load g (get_cb_slot idx)) (\<lambda>_.
       Inr (gate_write p (cb_store g (get_cb_slot idx) w) s)))"

section \<open>Versions\<close>

definition atomsnap_make_version :: "nat \<Rightarrow> ptr \<Rightarrow> gstate \<Rightarrow> (version_ptr \<times> gstate) result" where
  "atomsnap_make_version t gp s =
     bindE (get_or_init_thread_context t s) (\<lambda>(cp, s1).
       if cp = 0 then Inr (None, s1)
       else case ctx_heap s1 cp of None \<Rightarrow> Inl Use_After_Free
       | Some ctx \<Rightarrow>
           bindE (alloc_slot ctx s1) (\<lambda>(handle, ctx', s2).
             let s3 = s2\<lparr>ctx_heap := (ctx_heap s2)(cp \<mapsto> ctx')\<rparr> in
             if handle = HANDLE_NULL then Inr (None, s3)
             else case resolve_handle s3 handle of None \<Rightarrow> Inl Assert_Fail
             | Some slot \<Rightarrow>
                 bindE (version_modify slot
                          (\<lambda>v. v\<lparr>object := 0, free_context := 0, gate := gp, inner_state := 0\<rparr>) s3)
                   (\<lambda>s4. Inr (Some slot, s4))))"

definition atomsnap_free_version :: "version_ptr \<Rightarrow> gstate \<Rightarrow> gstate result" where
  "atomsnap_free_version version s =
     (case version of None \<Rightarrow> Inr s
      | Some ver \<Rightarrow>
          bindE (version_read s ver) (\<lambda>v.
          bindE (call_free_impl v s) (\<lambda>s1. free_slot ver s1)))"

definition atomsnap_set_object :: "version_ptr \<Rightarrow> ptr \<Rightarrow> ptr \<Rightarrow> gstate \<Rightarrow> gstate result" where
  "atomsnap_set_object ver obj fctx s =
     (case ver of None \<Rightarrow> Inr s
      | Some p \<Rightarrow>
          bindE (version_modify p (free_context_update (\<lambda>_. fctx)) s) (\<lambda>s1.
            version_modify p (object_update (\<lambda>_. obj)) s1))"

definition atomsnap_get_object :: "version_ptr \<Rightarrow> gstate \<Rightarrow> ptr result" where
  "atomsnap_get_object ver s =
     (case ver of None \<Rightarrow> Inr 0 | Some p \<Rightarrow> bindE (version_read s p) (\<lambda>v. Inr (object v)))"

definition atomsnap_acquire_version_slot ::
  "ptr \<Rightarrow> int \<Rightarrow> gstate \<Rightarrow> (version_ptr \<times> gstate) result" where
  "atomsnap_acquire_version_slot gp idx s =
     bindE (read_cb gp idx s) (\<lambda>val.
     bindE (write_cb gp idx (val + REF_COUNT_INC) s) (\<lambda>s1.
       let handle = cb_handle val in Inr (resolve_handle s1 handle, s1)))"

definition atomsnap_release_version :: "version_ptr \<Rightarrow> gstate \<Rightarrow> gstate result" where
  "atomsnap_release_version ver s =
     (case ver of None \<Rightarrow> Inr s
      | Some p \<Rightarrow>
          bindE (version_read s p) (\<lambda>v.
            let prev = inner_state v; now = prev + INNER_CNT_INC in
            bindE (version_modify p (inner_state_update (\<lambda>x. x + INNER_CNT_INC)) s) (\<lambda>s1.
              try_finalize p now s1)))"

text \<open>\<open>ver ? ver->self_handle : HANDLE_NULL\<close>.\<close>

definition handle_of :: "version_ptr \<Rightarrow> gstate \<Rightarrow> u32 result" where
  "handle_of ver s =
     (case ver of None \<Rightarrow> Inr HANDLE_NULL
      | Some p \<Rightarrow> bindE (version_read s p) (\<lambda>v. Inr (self_handle v)))"

definition atomsnap_exchange_version_slot ::
  "ptr \<Rightarrow> int \<Rightarrow> version_ptr \<Rightarrow> gstate \<Rightarrow> gstate result" where
  "atomsnap_exchange_version_slot gp idx new_ver s =
     bindE (handle_of new_ver s) (\<lambda>new_handle.
     bindE (read_cb gp idx s) (\<lambda>old_val.
     bindE (write_cb gp idx (ucast new_handle) s) (\<lambda>s1.
       let old_handle = cb_handle old_val; old_refs = cb_refs old_val in
       case resolve_handle s1 old_handle of None \<Rightarrow> Inr s1
       | Some old_ver \<Rightarrow> detach_and_adjust old_ver old_refs s1)))"

text \<open>
  The loop of \<open>atomsnap_compare_exchange_version_slot\<close> on a control block that holds \<open>cb\<close>:
  \<^term>\<open>None\<close> where it returns false, otherwise the new word and the final \<open>current_val\<close>.
\<close>

function compare_exchange_loop :: "nat \<Rightarrow> u32 \<Rightarrow> u32 \<Rightarrow> u64 \<Rightarrow> u64 \<Rightarrow> (u64 \<times> u64) option" where
  "compare_exchange_loop n exp_handle new_handle current_val cb =
     (if cb_handle current_val \<noteq> exp_handle then None
      else let next_val = ucast new_handle;
               (ok, obj, expected) = cas_weak (0 < n) cb current_val next_val in
        if ok then Some (obj, expected)
        else compare_exchange_loop (n - 1) exp_handle new_handle expected cb)"
  by pat_completeness auto
termination
  by (relation "measure (\<lambda>(n, e, h, cur, cb). n + (if cb = cur then 0 else 1))")
    (auto simp: cas_weak_def split: if_splits)

declare compare_exchange_loop.simps [simp del]

definition atomsnap_compare_exchange_version_slot ::
  "ptr \<Rightarrow> int \<Rightarrow> version_ptr \<Rightarrow> version_ptr \<Rightarrow> gstate \<Rightarrow> (bool \<times> gstate) result" where
  "atomsnap_compare_exchange_version_slot gp idx expected new_ver s =
     bindE (handle_of new_ver s) (\<lambda>new_handle.
     bindE (handle_of expected s) (\<lambda>exp_handle.
     bindE (read_cb gp idx s) (\<lambda>current_val.
       let cur_handle = cb_handle current_val in
       if cur_handle \<noteq> exp_handle then Inr (False, s)
       else let (n, s1) = next_spurious s in
         case compare_exchange_loop n exp_handle new_handle current_val current_val of
           None \<Rightarrow> Inr (False, s1)
         | Some (cb', cur') \<Rightarrow>
             bindE (write_cb gp idx cb' s1) (\<lambda>s2.
               let old_refs = cb_refs cur' in
               case resolve_handle s2 exp_handle of None \<Rightarrow> Inr (True, s2)
               | Some old_ver \<Rightarrow>
                   bindE (detach_and_adjust old_ver old_refs s2) (\<lambda>s3. Inr (True, s3))))))"

text \<open>The wrappers of \<open>atomsnap.h\<close> for slot 0.\<close>

definition atomsnap_acquire_version :: "ptr \<Rightarrow> gstate \<Rightarrow> (version_ptr \<times> gstate) result" where
  "atomsnap_acquire_version g s = atomsnap_acquire_version_slot g 0 s"

definition atomsnap_exchange_version :: "ptr \<Rightarrow> version_ptr \<Rightarrow> gstate \<Rightarrow> gstate result" where
  "atomsnap_exchange_version g v s = atomsnap_exchange_version_slot g 0 v s"

definition atomsnap_compare_exchange_version ::
  "ptr \<Rightarrow> version_ptr \<Rightarrow> version_ptr \<Rightarrow> gstate \<Rightarrow> (bool \<times> gstate) result" where
  "atomsnap_compare_exchange_version g o' n s = atomsnap_compare_exchange_version_slot g 0 o' n s"

end
