(* ===== verification/Versions_Props.thy ===== *)
theory Versions_Props
  imports Versions Alloc_Frame
begin

text \<open>
  The functional behaviour of the public operations on every branch, run by one thread: what
  each returns, what it writes, when it calls the user's callback and when it returns the slot.
\<close>

section \<open>Gates and the allocator\<close>

lemma read_cb_arenas_only: "arenas_only s s' \<Longrightarrow> read_cb gp idx s' = read_cb gp idx s"
  by (simp add: read_cb_def gate_read_def arenas_only_fields)

lemma read_cb_gates: "gate_heap s' = gate_heap s \<Longrightarrow> read_cb gp idx s' = read_cb gp idx s"
  by (simp add: read_cb_def gate_read_def)

text \<open>Writing members other than the handle of a version does not disturb the allocator.\<close>

lemma stack_inv_frame:
  assumes "stack_inv k m sh lc" "top_handle m' = top_handle m"
    "\<And>i. self_handle (slots m' i) = self_handle (slots m i)"
  shows "stack_inv k m' sh lc"
  using assms chain_frame [of sh "slots m'" "slots m" k] by (simp add: stack_inv_def)

lemma version_modify_alloc:
  assumes st: "alloc_st ctx s U" and run: "version_modify p f s = Inr s'"
    and keep: "\<And>v. self_handle (f v) = self_handle v"
  shows "alloc_st ctx s' U"
proof -
  from st obtain arenas SH j0 l where st: "heap_inv s" "alloc_inv ctx s arenas SH j0 l"
    "in_use_of arenas (active_arena_count ctx) SH j0 l = U" by (auto simp: alloc_st_def)
  from run obtain m where m: "arena_at s (fst p) m"
    and s': "s' = arena_write (fst p) (m\<lparr>slots := (slots m)(snd p := f (slots m (snd p)))\<rparr>) s"
    by (auto simp: version_modify_def split: if_splits)
  let ?m = "m\<lparr>slots := (slots m)(snd p := f (slots m (snd p)))\<rparr>"
  have same: "self_handle (slots ?m i) = self_handle (slots m i)" for i by (simp add: keep)
  have hp: "heap_inv s'" unfolding s' by (rule heap_inv_write [OF st(1) arena_at_heap [OF m]])
  have vec: "vec_inv (ctx\<lparr>local_top := local_top ctx\<rparr>) s' arenas"
    by (rule vec_inv_frame) (use st(2) in \<open>auto simp: alloc_inv_def s' arena_write_def\<close>)
  have at: "\<exists>m'. arena_at s' q m' \<and> top_handle m' = top_handle mq \<and>
      (\<forall>i. self_handle (slots m' i) = self_handle (slots mq i))" if "arena_at s q mq" for q mq
  proof (cases "q = fst p")
    case True
    then have "mq = m" using that m by (auto dest: arena_at_unique)
    with True m same show ?thesis by (intro exI [of _ ?m]) (simp add: s' arena_at_def arena_write_def)
  next
    case False
    with that show ?thesis by (intro exI [of _ mq]) (simp add: s')
  qed
  have stacks: "\<exists>m'. arena_at s' q m' \<and> stack_inv k m' sh lc"
    if "arena_at s q mq" "stack_inv k mq sh lc" for q k mq sh lc
    using at [OF that(1)] stack_inv_frame [OF that(2)] by metis
  have chains: "\<exists>m'. arena_at s' q m' \<and> chain k (slots m') h xs"
    if "arena_at s q mq" "chain k (slots mq) h xs" for q k mq h xs
  proof -
    from at [OF that(1)] obtain m' where m': "arena_at s' q m'"
      "\<forall>i. self_handle (slots m' i) = self_handle (slots mq i)" by blast
    with that(2) chain_frame [of xs "slots m'" "slots mq" k h] show ?thesis by auto
  qed
  have "alloc_inv ctx s' arenas SH j0 l"
    unfolding alloc_inv_def
  proof (intro conjI)
    show "vec_inv ctx s' arenas" using vec by simp
    show "\<forall>j < active_arena_count ctx. \<exists>m. arena_at s' (fst (arenas ! j)) m \<and>
        stack_inv (snd (arenas ! j)) m (SH j) (local_slots j0 l j)"
      using alloc_inv_stack [OF st(2)] stacks by metis
    show "if l = [] then local_top ctx = HANDLE_NULL \<or> slot_idx (local_top ctx) = 0
      else j0 < active_arena_count ctx \<and> (\<exists>m. arena_at s' (fst (arenas ! j0)) m \<and>
             chain (snd (arenas ! j0)) (slots m) (local_top ctx) l)"
    proof (cases "l = []")
      case True
      with st(2) show ?thesis by (simp add: alloc_inv_def)
    next
      case False
      with alloc_inv_local [OF st(2) False] chains show ?thesis by metis
    qed
  qed
  from alloc_stI [OF hp this st(3)] show ?thesis .
qed

section \<open>Frames\<close>

lemma free_slot_loop_frame:
  "free_slot_loop n arena slot h old_top s = Inr s' \<Longrightarrow> arenas_only s s'"
proof (induction n arena slot h old_top s rule: free_slot_loop.induct)
  case (1 n arena slot h old_top s)
  from 1(2) obtain s1 m where m: "version_modify slot (next_handle_update (\<lambda>_. top_slot old_top)) s = Inr s1"
    "arena_at s1 arena m" by (subst (asm) free_slot_loop.simps) (auto simp: Let_def)
  then have s1: "arenas_only s s1" by (auto simp: version_modify_def split: if_splits)
  obtain ok obj expected where c: "cas_weak (0 < n) (top_handle m) old_top (free_slot_new_top old_top h) =
      (ok, obj, expected)" using prod_cases3 by blast
  with 1(2) m have eq: "(if ok then Inr (arena_write arena (m\<lparr>top_handle := obj\<rparr>) s1)
      else free_slot_loop (n - 1) arena slot h expected s1) = Inr s'"
    by (subst (asm) free_slot_loop.simps) (simp add: Let_def)
  show ?case
  proof (cases ok)
    case True
    with eq s1 show ?thesis by (auto intro: arenas_only_trans)
  next
    case False
    with eq have "free_slot_loop (n - 1) arena slot h expected s1 = Inr s'" by simp
    moreover from 1(1) [OF refl m(1)] m(2) c False
    have "free_slot_loop (n - 1) arena slot h expected s1 = Inr s' \<Longrightarrow> arenas_only s1 s'" by simp
    ultimately show ?thesis using s1 by (blast intro: arenas_only_trans)
  qed
qed

lemma free_slot_frame:
  assumes "free_slot p s = Inr s'"
  shows "gate_heap s' = gate_heap s" "free_log s' = free_log s" "g_arena_table s' = g_arena_table s"
    "ctx_heap s' = ctx_heap s"
proof -
  from assms obtain n arena h top_w where
    "free_slot_loop n arena p h top_w (s\<lparr>cas_clk := Suc (cas_clk s)\<rparr>) = Inr s'"
    by (auto simp: free_slot_def next_spurious_def Let_def)
  from arenas_only_fields [OF free_slot_loop_frame [OF this]]
  show "gate_heap s' = gate_heap s" "free_log s' = free_log s" "g_arena_table s' = g_arena_table s"
    "ctx_heap s' = ctx_heap s" by simp_all
qed

text \<open>The callback registered with the gate at \<open>gp\<close>; 0 where there is none.\<close>

definition callback_of :: "gstate \<Rightarrow> ptr \<Rightarrow> ptr" where
  "callback_of s gp =
     (if gp = 0 then 0 else case gate_heap s gp of None \<Rightarrow> 0 | Some g \<Rightarrow> free_impl g)"

lemma call_free_impl_eq:
  assumes "callback_of s (gate v) \<noteq> 0"
  shows "call_free_impl v s =
    Inr (s\<lparr>free_log := free_log s @ [(callback_of s (gate v), object v, free_context v)]\<rparr>)"
  using assms by (auto simp: call_free_impl_def callback_of_def gate_read_def split: if_splits option.splits)

lemma write_cb_spec:
  assumes "read_cb gp idx s = Inr w"
  obtains s' where "write_cb gp idx w' s = Inr s'" "read_cb gp idx s' = Inr w'" "same_arenas s s'"
    "free_log s' = free_log s" "callback_of s' = callback_of s" "ctx_heap s' = ctx_heap s"
    "\<And>q i. q \<noteq> gp \<or> i \<noteq> idx \<Longrightarrow> read_cb q i s' = read_cb q i s" "cas_clk s' = cas_clk s" "env s' = env s"
proof -
  from assms obtain g where g: "gp \<noteq> 0" "gate_heap s gp = Some g" "cb_load g (get_cb_slot idx) = Inr w"
    by (auto simp: read_cb_def gate_read_def split: if_splits option.splits)
  let ?s' = "gate_write gp (cb_store g (get_cb_slot idx) w') s"
  have eq: "write_cb gp idx w' s = Inr ?s'" using g by (simp add: write_cb_def gate_read_def)
  have load: "cb_load (cb_store g (get_cb_slot idx) w') (get_cb_slot idx) = Inr w'"
    using g(3) by (auto simp: get_cb_slot_def split: if_splits)
  have other: "cb_load (cb_store g (get_cb_slot idx) w') (get_cb_slot i) = cb_load g (get_cb_slot i)"
    if "i \<noteq> idx" for i
    using that g(3) by (auto simp: get_cb_slot_def nth_list_update split: if_splits)
  have impl: "free_impl (cb_store g (get_cb_slot idx) w') = free_impl g" by (simp add: get_cb_slot_def)
  show thesis
  proof (rule that [OF eq])
    show "read_cb gp idx ?s' = Inr w'" using g(1) load by (simp add: read_cb_def gate_read_def gate_write_def)
    show "read_cb q i ?s' = read_cb q i s" if "q \<noteq> gp \<or> i \<noteq> idx" for q i
      using that g other by (cases "q = gp") (auto simp: read_cb_def gate_read_def gate_write_def)
    show "callback_of ?s' = callback_of s"
      using g impl by (auto simp: callback_of_def gate_write_def)
  qed (simp_all add: gate_write_def same_arenas_def)
qed

section \<open>Reclamation\<close>

text \<open>A version in use, at its place, with a callback to call.\<close>

definition live_version :: "thread_context \<Rightarrow> gstate \<Rightarrow> u32 \<Rightarrow> slot_ptr \<Rightarrow> atomsnap_version \<Rightarrow> bool" where
  "live_version ctx s h p v \<longleftrightarrow>
     alloc_wf ctx s \<and> h \<in> in_use ctx s \<and> resolve_handle s h = Some p \<and> version_read s p = Inr v \<and>
     callback_of s (gate v) \<noteq> 0"

text \<open>
  The outcome of reclaiming version \<open>v\<close> with handle \<open>h\<close>: its callback has been called once,
  last, with its object and context, and its handle is no longer in use.
\<close>

definition reclaimed :: "thread_context \<Rightarrow> gstate \<Rightarrow> u32 \<Rightarrow> atomsnap_version \<Rightarrow> gstate \<Rightarrow> bool" where
  "reclaimed ctx s h v s' \<longleftrightarrow>
     free_log s' = free_log s @ [(callback_of s (gate v), object v, free_context v)] \<and>
     alloc_wf ctx s' \<and> in_use ctx s' = in_use ctx s - {h}"

text \<open>The outcome of not reclaiming it: only its inner state changed.\<close>

definition kept :: "thread_context \<Rightarrow> gstate \<Rightarrow> slot_ptr \<Rightarrow> atomsnap_version \<Rightarrow> u64 \<Rightarrow> gstate \<Rightarrow> bool" where
  "kept ctx s p v w s' \<longleftrightarrow>
     free_log s' = free_log s \<and> alloc_wf ctx s' \<and> in_use ctx s' = in_use ctx s \<and>
     version_read s' p = Inr (v\<lparr>inner_state := w\<rparr>)"

lemma live_version_frame:
  assumes "live_version ctx s h p v" "same_arenas s s'" "callback_of s' = callback_of s"
  shows "live_version ctx s' h p v" "in_use ctx s' = in_use ctx s"
proof -
  have "alloc_st ctx s' (in_use ctx s)"
    using assms(1) same_arenas_alloc_st [OF assms(2)] by (simp add: live_version_def alloc_st_iff)
  then show "live_version ctx s' h p v" "in_use ctx s' = in_use ctx s"
    using assms by (simp_all add: live_version_def alloc_st_iff same_arenas_version_read same_arenas_resolve)
qed

lemma live_version_modify:
  assumes live: "live_version ctx s h p v" and keep: "\<And>v. self_handle (f v) = self_handle v"
    "\<And>v. gate (f v) = gate v"
  obtains s' where "version_modify p f s = Inr s'" "live_version ctx s' h p (f v)"
    "in_use ctx s' = in_use ctx s" "free_log s' = free_log s" "callback_of s' = callback_of s"
    "arenas_only s s'"
proof -
  from live have rd: "version_read s p = Inr v" and st: "alloc_st ctx s (in_use ctx s)"
    and r: "resolve_handle s h = Some p" and h: "h \<in> in_use ctx s" and cb: "callback_of s (gate v) \<noteq> 0"
    by (simp_all add: live_version_def alloc_st_iff)
  from version_modify_read [OF rd, of f] obtain s' where s': "version_modify p f s = Inr s'"
    "version_read s' p = Inr (f v)" "arenas_only s s'" by metis
  note st' = version_modify_alloc [OF st s'(1) keep(1)]
  have cb': "callback_of s' = callback_of s"
    using s'(3) by (simp add: callback_of_def arenas_only_fields fun_eq_iff)
  show thesis
    by (rule that [OF s'(1)])
      (use s' st' cb' r h cb keep(2) in
        \<open>simp_all add: live_version_def alloc_st_iff resolve_arenas_only arenas_only_fields\<close>)
qed

lemma finalize_and_free_spec:
  assumes live: "live_version ctx s h p v"
  obtains s' where "finalize_and_free p s = Inr s'" "reclaimed ctx s h v s'" "gate_heap s' = gate_heap s"
    "g_arena_table s' = g_arena_table s"
proof -
  let ?s1 = "s\<lparr>free_log := free_log s @ [(callback_of s (gate v), object v, free_context v)]\<rparr>"
  have same: "same_arenas s ?s1" by (simp add: same_arenas_def)
  from live_version_frame [OF live same] have live1: "live_version ctx ?s1 h p v"
    "in_use ctx ?s1 = in_use ctx s" by (simp_all add: callback_of_def fun_eq_iff)
  from live1(1) have st: "alloc_st ctx ?s1 (in_use ctx ?s1)" "h \<in> in_use ctx ?s1" "resolve_handle ?s1 h = Some p"
    by (simp_all add: live_version_def alloc_st_iff)
  from free_slot_spec [OF st(1,2)] st(3) obtain s' where s': "free_slot p ?s1 = Inr s'"
    "alloc_st ctx s' (in_use ctx ?s1 - {h})" by (metis option.inject)
  have eq: "finalize_and_free p s = Inr s'"
    using live s'(1) by (simp add: finalize_and_free_def live_version_def call_free_impl_eq)
  show thesis
    by (rule that [OF eq])
      (use s' live1(2) free_slot_frame [OF s'(1)] in \<open>simp_all add: reclaimed_def alloc_st_iff\<close>)
qed

lemma finalized_flag: "INNER_F_DETACHED AND INNER_F_FINALIZED = 0"
  by (simp add: const_defs)

text \<open>
  \<open>try_finalize\<close> on the state of the version just written, which carries no FINALIZED flag.
\<close>

lemma try_finalize_spec:
  assumes live: "live_version ctx s h p v" and w: "inner_state v = w"
    and nf: "lo32 w AND INNER_F_FINALIZED = 0"
  obtains s' where "try_finalize p w s = Inr s'"
    "finalize_due w \<longrightarrow> reclaimed ctx s h v s'" "\<not> finalize_due w \<longrightarrow> s' = s"
    "gate_heap s' = gate_heap s" "g_arena_table s' = g_arena_table s"
proof (cases "finalize_due w")
  case False
  then have eq: "try_finalize p w s = Inr s" by (auto simp: try_finalize_def finalize_due_def Let_def)
  show thesis by (rule that [OF eq]) (use False in simp_all)
next
  case True
  let ?f = "inner_state_update (\<lambda>x. x OR ucast INNER_F_FINALIZED)"
  have keep: "\<And>v. self_handle (?f v) = self_handle v" "\<And>v. gate (?f v) = gate v" by simp_all
  obtain s1 where s1: "version_modify p ?f s = Inr s1"
    "live_version ctx s1 h p (?f v)" "in_use ctx s1 = in_use ctx s" "free_log s1 = free_log s"
    "callback_of s1 = callback_of s" "arenas_only s s1"
    by (rule live_version_modify [OF live keep]) blast
  from finalize_and_free_spec [OF s1(2)] obtain s' where s': "finalize_and_free p s1 = Inr s'"
    "reclaimed ctx s1 h (?f v) s'" "gate_heap s' = gate_heap s1" "g_arena_table s' = g_arena_table s1" by metis
  have rd: "version_read s p = Inr v" using live by (simp add: live_version_def)
  have eq: "try_finalize p w s = Inr s'"
    using True rd s1(1) s'(1) nf w by (simp add: try_finalize_def finalize_due_def Let_def flip: lo32_def)
  show thesis
    by (rule that [OF eq])
      (use True s' s1 in \<open>simp_all add: reclaimed_def arenas_only_fields\<close>)
qed

lemma detach_loop_eq:
  assumes "version_read s p = Inr v"
  shows "detach_loop n p r cur s =
    bindE (version_modify p (inner_state_update (\<lambda>_. detach_next (inner_state v) r)) s)
      (\<lambda>s1. Inr (detach_next (inner_state v) r, s1))"
proof -
  have fresh: "detach_loop n p r (inner_state v) s =
      bindE (version_modify p (inner_state_update (\<lambda>_. detach_next (inner_state v) r)) s)
        (\<lambda>s1. Inr (detach_next (inner_state v) r, s1))" for n
  proof (induction n)
    case 0
    from assms show ?case by (subst detach_loop.simps) (simp add: Let_def)
  next
    case (Suc n)
    with assms show ?case by (subst detach_loop.simps) (simp add: Let_def)
  qed
  show ?thesis
  proof (cases "cur = inner_state v")
    case True
    with fresh show ?thesis by simp
  next
    case False
    with assms fresh show ?thesis by (subst detach_loop.simps) (simp add: Let_def)
  qed
qed

lemma detach_and_adjust_spec:
  assumes live: "live_version ctx s h p v" and w: "inner_state v = pack32 c 0"
  obtains s' where "detach_and_adjust p r s = Inr s'"
    "c = r \<longrightarrow> reclaimed ctx s h v s'"
    "c \<noteq> r \<longrightarrow> kept ctx s p v (pack32 (c - r) INNER_F_DETACHED) s'"
    "gate_heap s' = gate_heap s" "g_arena_table s' = g_arena_table s"
proof -
  let ?w = "pack32 (c - r) INNER_F_DETACHED"
  let ?f = "inner_state_update (\<lambda>_. ?w)"
  let ?s1 = "s\<lparr>cas_clk := Suc (cas_clk s)\<rparr>"
  have same: "same_arenas s ?s1" by (simp add: same_arenas_def)
  from live_version_frame [OF live same] have live1: "live_version ctx ?s1 h p v"
    "in_use ctx ?s1 = in_use ctx s" by (simp_all add: callback_of_def fun_eq_iff)
  have keep: "\<And>v. self_handle (?f v) = self_handle v" "\<And>v. gate (?f v) = gate v" by simp_all
  obtain s2 where s2: "version_modify p ?f ?s1 = Inr s2"
    "live_version ctx s2 h p (?f v)" "in_use ctx s2 = in_use ctx ?s1" "free_log s2 = free_log ?s1"
    "callback_of s2 = callback_of ?s1" "arenas_only ?s1 s2"
    by (rule live_version_modify [OF live1(1) keep]) blast
  have nf: "lo32 ?w AND INNER_F_FINALIZED = 0" by (simp add: finalized_flag)
  obtain s' where s': "try_finalize p ?w s2 = Inr s'"
    "finalize_due ?w \<longrightarrow> reclaimed ctx s2 h (?f v) s'" "\<not> finalize_due ?w \<longrightarrow> s' = s2"
    "gate_heap s' = gate_heap s2" "g_arena_table s' = g_arena_table s2"
    by (rule try_finalize_spec [OF s2(2) _ nf]) (simp, blast)
  have rd: "version_read s p = Inr v" "version_read ?s1 p = Inr v"
    using live live1 by (simp_all add: live_version_def)
  have eq: "detach_and_adjust p r s = Inr s'"
    using rd s2(1) s'(1) w
    by (simp add: detach_and_adjust_def next_spurious_def detach_loop_eq [OF rd(2)] detach_next_pack)
  have due: "finalize_due ?w \<longleftrightarrow> c = r" by (auto simp: finalize_due_pack const_defs)
  have cb: "callback_of s2 = callback_of s" using s2(5) by (simp add: callback_of_def fun_eq_iff)
  show thesis
  proof (rule that [OF eq])
    show "c = r \<longrightarrow> reclaimed ctx s h v s'"
      using s'(2) due s2(3,4) live1(2) cb by (simp add: reclaimed_def)
    show "c \<noteq> r \<longrightarrow> kept ctx s p v ?w s'"
      using s'(3) due s2 live1(2) by (simp add: kept_def live_version_def)
  qed (use s'(4,5) s2(6) in \<open>simp_all add: arenas_only_fields\<close>)
qed

lemma compare_exchange_loop_eq:
  assumes "cb_handle cb = e"
  shows "compare_exchange_loop n e h cb cb = Some (ucast h, cb)"
proof (induction n)
  case 0
  from assms show ?case by (subst compare_exchange_loop.simps) (simp add: Let_def)
next
  case (Suc n)
  with assms show ?case by (subst compare_exchange_loop.simps) (simp add: Let_def)
qed

section \<open>Properties\<close>

text \<open>
  Claim C14. \<open>atomsnap_exchange_version_slot\<close> installs the new handle with a count of zero. The
  version it takes out is reclaimed at once if every reference taken on it has been returned:
  its callback is called once, with its object and context, and its slot goes back to the pool.
  Otherwise it stays, detached, with exactly the outstanding references on its counter.
\<close>

theorem exchange_version_correct:
  assumes "live_version ctx s h p v" "inner_state v = pack32 c 0"
    "read_cb gp idx s = Inr (pack32 r h)" "handle_of new_ver s = Inr nh"
  shows "\<exists>s'. atomsnap_exchange_version_slot gp idx new_ver s = Inr s' \<and>
    read_cb gp idx s' = Inr (ucast nh) \<and>
    (if c = r then reclaimed ctx s h v s'
     else kept ctx s p v (pack32 (c - r) INNER_F_DETACHED) s')"
proof -
  from write_cb_spec [OF assms(3), of "ucast nh"] obtain s1 where s1: "write_cb gp idx (ucast nh) s = Inr s1"
    "read_cb gp idx s1 = Inr (ucast nh)" "same_arenas s s1" "free_log s1 = free_log s"
    "callback_of s1 = callback_of s" by metis
  note live1 = live_version_frame [OF assms(1) s1(3,5)]
  then have res: "resolve_handle s1 h = Some p" by (simp add: live_version_def)
  obtain s' where s': "detach_and_adjust p r s1 = Inr s'" "c = r \<longrightarrow> reclaimed ctx s1 h v s'"
    "c \<noteq> r \<longrightarrow> kept ctx s1 p v (pack32 (c - r) INNER_F_DETACHED) s'" "gate_heap s' = gate_heap s1"
    by (rule detach_and_adjust_spec [OF live1(1) assms(2)]) blast
  have "atomsnap_exchange_version_slot gp idx new_ver s = Inr s'"
    using assms(3,4) s1(1) s'(1) res by (simp add: atomsnap_exchange_version_slot_def Let_def)
  moreover have "read_cb gp idx s' = Inr (ucast nh)"
    using s1(2) read_cb_gates [OF s'(4)] by simp
  ultimately show ?thesis
    using s'(2,3) s1(4,5) live1(2) by (auto simp: reclaimed_def kept_def)
qed

text \<open>
  Claim C15. \<open>atomsnap_release_version\<close> reclaims the version exactly when it is detached and this
  was the last outstanding reference; otherwise it only increments the counter in the upper half
  of the inner state, and the flags in the lower half are untouched even when the counter wraps.
\<close>

theorem release_version_correct:
  assumes "live_version ctx s h p v" "inner_state v = pack32 c f" "f AND INNER_F_FINALIZED = 0"
  shows "\<exists>s'. atomsnap_release_version (Some p) s = Inr s' \<and>
    (if f AND INNER_F_DETACHED \<noteq> 0 \<and> c = -1 then reclaimed ctx s h v s'
     else kept ctx s p v (pack32 (c + 1) f) s')"
proof -
  let ?w = "pack32 (c + 1) f"
  let ?f = "inner_state_update (\<lambda>x. x + INNER_CNT_INC)"
  have keep: "\<And>v. self_handle (?f v) = self_handle v" "\<And>v. gate (?f v) = gate v" by simp_all
  obtain s1 where s1: "version_modify p ?f s = Inr s1"
    "live_version ctx s1 h p (?f v)" "in_use ctx s1 = in_use ctx s" "free_log s1 = free_log s"
    "callback_of s1 = callback_of s" "arenas_only s s1"
    by (rule live_version_modify [OF assms(1) keep]) blast
  have iw: "inner_state (?f v) = ?w" using assms(2) by simp
  have nf: "lo32 ?w AND INNER_F_FINALIZED = 0" using assms(3) by simp
  obtain s' where s': "try_finalize p ?w s1 = Inr s'"
    "finalize_due ?w \<longrightarrow> reclaimed ctx s1 h (?f v) s'" "\<not> finalize_due ?w \<longrightarrow> s' = s1"
    by (rule try_finalize_spec [OF s1(2) iw nf]) blast
  have rd: "version_read s p = Inr v" using assms(1) by (simp add: live_version_def)
  have "atomsnap_release_version (Some p) s = Inr s'"
    using rd s1(1) s'(1) assms(2) by (simp add: atomsnap_release_version_def Let_def)
  moreover have "c + 1 = 0 \<longleftrightarrow> c = -1" by (simp add: eq_neg_iff_add_eq_0)
  ultimately show ?thesis
    using s'(2,3) s1 assms(2)
    by (auto simp: finalize_due_pack reclaimed_def kept_def live_version_def)
qed

lemma compare_exchange_cases:
  assumes "live_version ctx s h p v" "inner_state v = pack32 c 0"
    "read_cb gp idx s = Inr (pack32 r h)" "handle_of new_ver s = Inr nh" "handle_of expected s = Inr e"
  shows "e \<noteq> h \<Longrightarrow> atomsnap_compare_exchange_version_slot gp idx expected new_ver s = Inr (False, s)"
    and "e = h \<Longrightarrow> (\<exists>s'. atomsnap_compare_exchange_version_slot gp idx expected new_ver s = Inr (True, s') \<and>
      read_cb gp idx s' = Inr (ucast nh) \<and>
      (if c = r then reclaimed ctx s h v s'
       else kept ctx s p v (pack32 (c - r) INNER_F_DETACHED) s'))"
proof -
  show "e \<noteq> h \<Longrightarrow> atomsnap_compare_exchange_version_slot gp idx expected new_ver s = Inr (False, s)"
    using assms(3-5) by (auto simp: atomsnap_compare_exchange_version_slot_def Let_def)
  show "e = h \<Longrightarrow> (\<exists>s'. atomsnap_compare_exchange_version_slot gp idx expected new_ver s = Inr (True, s') \<and>
      read_cb gp idx s' = Inr (ucast nh) \<and>
      (if c = r then reclaimed ctx s h v s'
       else kept ctx s p v (pack32 (c - r) INNER_F_DETACHED) s'))"
  proof -
    assume e: "e = h"
    let ?s0 = "s\<lparr>cas_clk := Suc (cas_clk s)\<rparr>"
    have same: "same_arenas s ?s0" by (simp add: same_arenas_def)
    have live0: "live_version ctx ?s0 h p v" "in_use ctx ?s0 = in_use ctx s"
      by (rule live_version_frame [OF assms(1) same], simp add: callback_of_def fun_eq_iff)+
    have cb0: "read_cb gp idx ?s0 = Inr (pack32 r h)" using assms(3) read_cb_gates [of ?s0 s] by simp
    from write_cb_spec [OF cb0, of "ucast nh"] obtain s1 where s1: "write_cb gp idx (ucast nh) ?s0 = Inr s1"
      "read_cb gp idx s1 = Inr (ucast nh)" "same_arenas ?s0 s1" "free_log s1 = free_log ?s0"
      "callback_of s1 = callback_of ?s0" by metis
    note live1 = live_version_frame [OF live0(1) s1(3,5)]
    then have res: "resolve_handle s1 h = Some p" by (simp add: live_version_def)
    obtain s' where s': "detach_and_adjust p r s1 = Inr s'" "c = r \<longrightarrow> reclaimed ctx s1 h v s'"
      "c \<noteq> r \<longrightarrow> kept ctx s1 p v (pack32 (c - r) INNER_F_DETACHED) s'" "gate_heap s' = gate_heap s1"
      by (rule detach_and_adjust_spec [OF live1(1) assms(2)]) blast
    have loop: "compare_exchange_loop n h nh (pack32 r h) (pack32 r h) = Some (ucast nh, pack32 r h)" for n
      by (rule compare_exchange_loop_eq) simp
    have "atomsnap_compare_exchange_version_slot gp idx expected new_ver s = Inr (True, s')"
      using assms(3-5) e s1(1) s'(1) res loop
      by (simp add: atomsnap_compare_exchange_version_slot_def next_spurious_def Let_def)
    moreover have "read_cb gp idx s' = Inr (ucast nh)" using s1(2) read_cb_gates [OF s'(4)] by simp
    moreover have "callback_of s1 = callback_of s" using s1(5) by (simp add: callback_of_def fun_eq_iff)
    ultimately show "\<exists>s'. atomsnap_compare_exchange_version_slot gp idx expected new_ver s = Inr (True, s') \<and>
      read_cb gp idx s' = Inr (ucast nh) \<and>
      (if c = r then reclaimed ctx s h v s'
       else kept ctx s p v (pack32 (c - r) INNER_F_DETACHED) s')"
      using s'(2,3) s1(4) live1(2) live0(2) by (auto simp: reclaimed_def kept_def)
  qed
qed

text \<open>
  Claim C16. \<open>atomsnap_compare_exchange_version_slot\<close> returns true exactly when the control block
  holds the expected handle. Then it behaves as an exchange, however often the weak
  compare-and-swap fails; otherwise it changes nothing.
\<close>

theorem compare_exchange_version_correct:
  assumes "live_version ctx s h p v" "inner_state v = pack32 c 0"
    "read_cb gp idx s = Inr (pack32 r h)" "handle_of new_ver s = Inr nh" "handle_of expected s = Inr e"
  shows "\<exists>s'. atomsnap_compare_exchange_version_slot gp idx expected new_ver s = Inr (e = h, s') \<and>
    (if e \<noteq> h then s' = s
     else read_cb gp idx s' = Inr (ucast nh) \<and>
       (if c = r then reclaimed ctx s h v s'
        else kept ctx s p v (pack32 (c - r) INNER_F_DETACHED) s'))"
  using compare_exchange_cases [OF assms] by (cases "e = h") auto

text \<open>
  Claim C17. \<open>atomsnap_acquire_version_slot\<close> returns the version the control block names and
  takes one reference: the count in the upper half goes up by one, wrapping at \<open>2 ^ 32\<close>, and
  the handle in the lower half, the other control blocks and the versions do not change. A slot
  index outside the gate's blocks is an out-of-bounds access.
\<close>

theorem acquire_version_correct:
  assumes "gp \<noteq> 0" "gate_heap s gp = Some g"
  shows "if idx = 0 \<or> 1 \<le> idx \<and> nat idx \<le> length (extra_control_blocks g)
    then \<exists>w s'. read_cb gp idx s = Inr w \<and>
      atomsnap_acquire_version_slot gp idx s = Inr (resolve_handle s (cb_handle w), s') \<and>
      read_cb gp idx s' = Inr (pack32 (cb_refs w + 1) (cb_handle w)) \<and>
      (\<forall>q i. q \<noteq> gp \<or> i \<noteq> idx \<longrightarrow> read_cb q i s' = read_cb q i s) \<and> arena_heap s' = arena_heap s
    else atomsnap_acquire_version_slot gp idx s = Inl Out_Of_Bounds"
proof (cases "idx = 0 \<or> 1 \<le> idx \<and> nat idx \<le> length (extra_control_blocks g)")
  case False
  then have "read_cb gp idx s = Inl Out_Of_Bounds"
    using assms by (auto simp: read_cb_def gate_read_def get_cb_slot_def)
  with False show ?thesis by (simp add: atomsnap_acquire_version_slot_def)
next
  case True
  then have "cb_load g (get_cb_slot idx) \<noteq> Inl e" for e
    by (auto simp: get_cb_slot_def)
  then obtain w where "cb_load g (get_cb_slot idx) = Inr w" by (cases "cb_load g (get_cb_slot idx)") auto
  then have w: "read_cb gp idx s = Inr w" using assms by (simp add: read_cb_def gate_read_def)
  from write_cb_spec [OF w, of "w + REF_COUNT_INC"] obtain s' where
    s': "write_cb gp idx (w + REF_COUNT_INC) s = Inr s'" "read_cb gp idx s' = Inr (w + REF_COUNT_INC)"
    "same_arenas s s'" "\<forall>q i. q \<noteq> gp \<or> i \<noteq> idx \<longrightarrow> read_cb q i s' = read_cb q i s" by metis
  have inc: "w + REF_COUNT_INC = pack32 (cb_refs w + 1) (cb_handle w)"
    by (metis cb_word.mk_eta cb_word.mk_inc)
  have "atomsnap_acquire_version_slot gp idx s = Inr (resolve_handle s (cb_handle w), s')"
    using w s'(1) same_arenas_resolve [OF s'(3)] by (simp add: atomsnap_acquire_version_slot_def Let_def)
  moreover have "arena_heap s' = arena_heap s" using s'(3) by (simp add: same_arenas_def)
  ultimately show ?thesis using True w s'(2,4) inc by auto
qed

lemma make_version_spec:
  assumes "g_init_done s" "tls s t = cp" "cp \<noteq> 0" "ctx_heap s cp = Some ctx" "alloc_st ctx s U"
    "memory_available s"
  obtains h p s' ctx' where "atomsnap_make_version t gp s = Inr (Some p, s')"
    "ctx_heap s' cp = Some ctx'" "h \<notin> U" "alloc_st ctx' s' (insert h U)" "resolve_handle s' h = Some p"
    "version_read s' p =
       Inr \<lparr>object = 0, free_context = 0, gate = gp, inner_state = 0, self_handle = h\<rparr>"
    "keeps U s s'" "outer_same s s'"
proof -
  have "g_global_arena_cnt s \<noteq> -1"
    using assms(6) by (auto simp: memory_available_def MAX_ARENAS_def unsigned_minus_1_eq_mask mask_eq_exp_minus_1)
  from assms(5) this obtain h ctx' s2 where a: "alloc_slot ctx s = Inr (h, ctx', s2)" "h \<noteq> HANDLE_NULL"
    "h \<notin> U" "alloc_st ctx' s2 (insert h U)"
  proof (cases rule: alloc_slot_spec)
    case (Failed ctx' s' ctx1 s1)
    with init_arena_available [of s1 ctx1] memory_available_arenas [of s s1] assms(6) show thesis by simp
  qed
  let ?s3 = "s2\<lparr>ctx_heap := (ctx_heap s2)(cp \<mapsto> ctx')\<rparr>"
  have st3: "alloc_st ctx' ?s3 (insert h U)"
    by (rule same_arenas_alloc_st [OF _ a(4)]) (simp add: same_arenas_def)
  obtain p v where p: "resolve_handle ?s3 h = Some p" "version_read ?s3 p = Inr v" "self_handle v = h"
    by (rule in_use_version [OF st3 insertI1]) blast
  let ?f = "\<lambda>v :: atomsnap_version. v\<lparr>object := 0, free_context := 0, gate := gp, inner_state := 0\<rparr>"
  from version_modify_read [OF p(2), of ?f] obtain s4 where s4: "version_modify p ?f ?s3 = Inr s4"
    "version_read s4 p = Inr (?f v)" "arenas_only ?s3 s4" by metis
  have eq: "atomsnap_make_version t gp s = Inr (Some p, s4)"
    using assms(1-4) a(1,2) p(1) s4(1)
    by (simp add: atomsnap_make_version_def get_or_init_thread_context_def pthread_once_init_def Let_def)
  show thesis
  proof (rule that [OF eq])
    show "ctx_heap s4 cp = Some ctx'" using s4(3) by (simp add: arenas_only_fields)
    show "alloc_st ctx' s4 (insert h U)" by (rule version_modify_alloc [OF st3 s4(1)]) simp
    show "resolve_handle s4 h = Some p" using s4(3) p(1) by (simp add: resolve_arenas_only)
    show "version_read s4 p = Inr \<lparr>object = 0, free_context = 0, gate = gp, inner_state = 0, self_handle = h\<rparr>"
      using s4(2) p(3) by simp
    have s3: "same_arenas s2 ?s3" by (simp add: same_arenas_def)
    have "resolve_handle ?s3 g \<noteq> Some p" if "g \<in> U" for g
      using slot_of_one [of ctx' ?s3 g h p] st3 that a(3) p(1) by (auto simp: alloc_st_iff)
    then have "keeps U ?s3 s4"
      by (rule keeps_reads_but [OF version_modify_reads [OF s4(1)] arenas_only_fields(1) [OF s4(3)]])
    with alloc_slot_keeps [OF assms(5) a] keeps_same [OF s3] show "keeps U s s4" by (blast intro: keeps_trans)
    show "outer_same s s4"
      using alloc_slot_outer [OF a(1,2)] outer_same_arenas [OF s4(3)] by (simp add: outer_same_def)
  qed (rule a(3))
qed

text \<open>
  Claim C18. \<open>atomsnap_make_version\<close> returns a version whose slot was not in use, attached to the
  gate, with no object, a zero inner state and its own handle in place, whenever memory is
  available; the handle is the only change to the set in use, and every version in use keeps its
  slot and its contents, whatever arenas were reclaimed or set up for the new one.
\<close>

theorem make_version_correct:
  assumes "g_init_done s" "tls s t = cp" "cp \<noteq> 0" "ctx_heap s cp = Some ctx" "alloc_wf ctx s"
    "memory_available s"
  shows "\<exists>h p s' ctx'. atomsnap_make_version t gp s = Inr (Some p, s') \<and>
    ctx_heap s' cp = Some ctx' \<and> h \<notin> in_use ctx s \<and> alloc_wf ctx' s' \<and>
    in_use ctx' s' = insert h (in_use ctx s) \<and> resolve_handle s' h = Some p \<and>
    version_read s' p =
      Inr \<lparr>object = 0, free_context = 0, gate = gp, inner_state = 0, self_handle = h\<rparr> \<and>
    keeps (in_use ctx s) s s'"
proof -
  have "alloc_st ctx s (in_use ctx s)" using assms(5) by (simp add: alloc_st_iff)
  from make_version_spec [OF assms(1-4) this assms(6)] show ?thesis by (metis alloc_st_iff)
qed

text \<open>
  \<open>atomsnap_free_version\<close> on an unpublished version calls its callback once and returns
  the slot; on NULL it does nothing. What \<open>atomsnap_set_object\<close> stored is what
  \<open>atomsnap_get_object\<close> reads and what the callback receives.
\<close>

theorem set_object_free_version:
  assumes "live_version ctx s h p v"
  shows "\<exists>s1 s2. atomsnap_set_object (Some p) ob fc s = Inr s1 \<and> atomsnap_get_object (Some p) s1 = Inr ob \<and>
    atomsnap_free_version (Some p) s1 = Inr s2 \<and>
    free_log s2 = free_log s @ [(callback_of s (gate v), ob, fc)] \<and>
    alloc_wf ctx s2 \<and> in_use ctx s2 = in_use ctx s - {h} \<and>
    atomsnap_set_object None ob fc s = Inr s \<and> atomsnap_get_object None s = Inr 0 \<and>
    atomsnap_free_version None s = Inr s"
proof -
  let ?f1 = "free_context_update (\<lambda>_. fc)" and ?f2 = "object_update (\<lambda>_. ob)"
  have k1: "\<And>v. self_handle (?f1 v) = self_handle v" "\<And>v. gate (?f1 v) = gate v" by simp_all
  have k2: "\<And>v. self_handle (?f2 v) = self_handle v" "\<And>v. gate (?f2 v) = gate v" by simp_all
  obtain s0 where s0: "version_modify p ?f1 s = Inr s0" "live_version ctx s0 h p (?f1 v)"
    "in_use ctx s0 = in_use ctx s" "free_log s0 = free_log s" "callback_of s0 = callback_of s"
    by (rule live_version_modify [OF assms k1]) blast
  obtain s1 where s1: "version_modify p ?f2 s0 = Inr s1" "live_version ctx s1 h p (?f2 (?f1 v))"
    "in_use ctx s1 = in_use ctx s0" "free_log s1 = free_log s0" "callback_of s1 = callback_of s0"
    by (rule live_version_modify [OF s0(2) k2]) blast
  obtain s2 where s2: "finalize_and_free p s1 = Inr s2" "reclaimed ctx s1 h (?f2 (?f1 v)) s2"
    by (rule finalize_and_free_spec [OF s1(2)]) blast
  have "atomsnap_free_version (Some p) s1 = finalize_and_free p s1"
    by (simp add: atomsnap_free_version_def finalize_and_free_def)
  moreover have "atomsnap_set_object (Some p) ob fc s = Inr s1"
    using s0(1) s1(1) by (simp add: atomsnap_set_object_def)
  moreover have "atomsnap_get_object (Some p) s1 = Inr ob"
    using s1(2) by (simp add: atomsnap_get_object_def live_version_def)
  ultimately show ?thesis
    using s0 s1 s2
    by (auto simp: reclaimed_def atomsnap_set_object_def atomsnap_get_object_def atomsnap_free_version_def)
qed

text \<open>
  \<open>atomsnap_init_gate\<close> returns a gate exactly when memory and a callback are there: all
  of its control blocks, the main one and the requested extra ones, then hold the null handle
  with a count of zero, so that an acquire on any of them returns NULL, and indices beyond them
  are out of bounds. Otherwise it returns NULL and creates no gate.
\<close>

theorem init_gate_correct:
  assumes "\<forall>n. alloc_ok (env s) n" "0 < next_ptr s"
  shows "\<exists>p s'. atomsnap_init_gate ictx s = (p, s') \<and>
    (if ictx_free_impl ictx = 0 then p = 0 \<and> gate_heap s' = gate_heap s
     else p \<noteq> 0 \<and> callback_of s' p = ictx_free_impl ictx \<and>
       (\<forall>idx. 0 \<le> idx \<and> idx \<le> max 0 (num_extra_control_blocks ictx) \<longrightarrow>
          read_cb p idx s' = Inr (pack32 0 HANDLE_NULL) \<and>
          (\<exists>s''. atomsnap_acquire_version_slot p idx s' = Inr (None, s''))) \<and>
       (\<forall>idx. idx < 0 \<or> max 0 (num_extra_control_blocks ictx) < idx \<longrightarrow>
          atomsnap_acquire_version_slot p idx s' = Inl Out_Of_Bounds))"
proof -
  obtain p s' where r: "atomsnap_init_gate ictx s = (p, s')" by fastforce
  let ?n = "num_extra_control_blocks ictx"
  show ?thesis
  proof (cases "ictx_free_impl ictx = 0")
    case True
    with r assms show ?thesis
      by (auto simp: atomsnap_init_gate_def heap_alloc_def Let_def)
  next
    case False
    let ?g = "\<lparr>control_block = pack32 0 HANDLE_NULL, free_impl = ictx_free_impl ictx,
      extra_control_blocks = replicate (nat ?n) (pack32 0 HANDLE_NULL), num_extra_slots = ?n\<rparr>"
    from r False assms have p: "p = next_ptr s" and g: "gate_heap s' p = Some ?g"
      by (auto simp: atomsnap_init_gate_def heap_alloc_def gate_write_def Let_def ucast_eq_pack32
          split: if_splits)
    have rd: "read_cb p idx s' = (if 0 \<le> idx \<and> idx \<le> max 0 ?n then Inr (pack32 0 HANDLE_NULL)
        else Inl Out_Of_Bounds)" for idx
      using p g assms(2) by (auto simp: read_cb_def gate_read_def get_cb_slot_def)
    have acq: "\<exists>s''. atomsnap_acquire_version_slot p idx s' = Inr (None, s'')"
      if "0 \<le> idx \<and> idx \<le> max 0 ?n" for idx
    proof -
      have w: "read_cb p idx s' = Inr (pack32 0 HANDLE_NULL)" using that rd by simp
      from write_cb_spec [OF w, of "pack32 0 HANDLE_NULL + REF_COUNT_INC"] obtain s'' where
        "write_cb p idx (pack32 0 HANDLE_NULL + REF_COUNT_INC) s' = Inr s''" by metis
      with w show ?thesis by (simp add: atomsnap_acquire_version_slot_def resolve_handle_def)
    qed
    have "atomsnap_acquire_version_slot p idx s' = Inl Out_Of_Bounds" if "idx < 0 \<or> max 0 ?n < idx" for idx
      using that rd [of idx] by (auto simp: atomsnap_acquire_version_slot_def)
    with r False p g rd acq assms(2) show ?thesis by (auto simp: callback_of_def)
  qed
qed

section \<open>Instances\<close>

text \<open>A registered thread in a process with memory, and a version it made.\<close>

definition ready_state :: gstate where
  "ready_state = sample_state\<lparr>g_init_done := True, next_ptr := 8, tls := (\<lambda>_. 0)(0 := 6),
     ctx_heap := (\<lambda>_. None)(6 \<mapsto> new_thread_context 0)\<rparr>"

lemma ready_state_wf:
  "alloc_wf (new_thread_context 0) ready_state" "in_use (new_thread_context 0) ready_state = {}"
  "memory_available ready_state"
proof -
  have "heap_inv ready_state" by (simp add: heap_inv_def ready_state_def sample_state_def)
  from fresh_context_wf [OF this, of 0]
  show "alloc_wf (new_thread_context 0) ready_state" "in_use (new_thread_context 0) ready_state = {}"
    by (simp_all add: alloc_st_iff)
  show "memory_available ready_state"
    by (simp add: memory_available_def ready_state_def sample_state_def sample_env_def MAX_ARENAS_def)
qed

theorem make_version_correct_witness:
  "\<exists>h p s'. atomsnap_make_version 0 7 ready_state = Inr (Some p, s') \<and> resolve_handle s' h = Some p"
proof -
  have "g_init_done ready_state" "tls ready_state 0 = 6" "ctx_heap ready_state 6 = Some (new_thread_context 0)"
    by (simp_all add: ready_state_def)
  from make_version_correct [OF this(1,2) _ this(3) ready_state_wf(1,3), of 7] show ?thesis by auto
qed

lemma sample_live:
  obtains ctx s h p v where "live_version ctx s h p v" "inner_state v = w" "gate v = 7"
    "read_cb 7 0 s = Inr (pack32 r h)" "callback_of s 7 = 9" "handle_of (Some p) s = Inr h"
    "in_use ctx s = {h}" "object v = 0" "\<And>i x. read_cb 7 i s = Inr x \<Longrightarrow> i = 0"
    "g_init_done s" "ctx_heap s 6 = Some ctx"
proof -
  have rs: "g_init_done ready_state" "tls ready_state 0 = 6" "(6 :: nat) \<noteq> 0"
    "ctx_heap ready_state 6 = Some (new_thread_context 0)"
    by (simp_all add: ready_state_def)
  have st: "alloc_st (new_thread_context 0) ready_state {}" by (simp add: alloc_st_iff ready_state_wf)
  obtain h p s1 ctx where m: "alloc_st ctx s1 (insert h {})" "resolve_handle s1 h = Some p"
    "version_read s1 p =
       Inr \<lparr>object = 0, free_context = 0, gate = 7, inner_state = 0, self_handle = h\<rparr>"
    "ctx_heap s1 6 = Some ctx" "outer_same ready_state s1"
    by (rule make_version_spec [OF rs st ready_state_wf(3)]) blast
  let ?g = "\<lparr>control_block = pack32 r h, free_impl = 9, extra_control_blocks = [], num_extra_slots = 0\<rparr>"
  let ?v = "\<lparr>object = 0, free_context = 0, gate = 7, inner_state = 0, self_handle = h\<rparr>"
  let ?s2 = "gate_write 7 ?g s1"
  have same: "same_arenas s1 ?s2" by (simp add: same_arenas_def gate_write_def)
  have "callback_of ?s2 7 \<noteq> 0" by (simp add: callback_of_def gate_write_def)
  then have live: "live_version ctx ?s2 h p ?v"
    using same_arenas_alloc_st [OF same m(1)] m(2,3)
    by (simp add: live_version_def alloc_st_iff same_arenas_version_read [OF same]
        same_arenas_resolve [OF same])
  let ?f = "inner_state_update (\<lambda>_. w)"
  have keep: "\<And>v. self_handle (?f v) = self_handle v" "\<And>v. gate (?f v) = gate v" by simp_all
  obtain s3 where s3: "live_version ctx s3 h p (?f ?v)" "callback_of s3 = callback_of ?s2" "arenas_only ?s2 s3"
    "in_use ctx s3 = in_use ctx ?s2"
    by (rule live_version_modify [OF live keep]) blast
  have use: "in_use ctx s3 = {h}" using s3(4) same_arenas_alloc_st [OF same m(1)] by (simp add: alloc_st_iff)
  have none: "i = 0" if "read_cb 7 i s3 = Inr x" for i x
    using that unfolding read_cb_arenas_only [OF s3(3)]
    by (auto simp: read_cb_def gate_read_def get_cb_slot_def gate_write_def split: if_splits)
  have "read_cb 7 0 s3 = Inr (pack32 r h)"
    unfolding read_cb_arenas_only [OF s3(3)]
    by (simp add: read_cb_def gate_read_def get_cb_slot_def gate_write_def)
  moreover have "callback_of s3 7 = 9" using s3(2) by (simp add: callback_of_def gate_write_def)
  moreover have "handle_of (Some p) s3 = Inr h" using s3(1) by (simp add: handle_of_def live_version_def)
  moreover have "g_init_done s3" "ctx_heap s3 6 = Some ctx"
    using m(4,5) s3(3) rs(1) by (auto simp: outer_same_def arenas_only_def gate_write_def)
  ultimately show thesis using s3(1) use none by (intro that [of ctx s3 h p "?f ?v"]) simp_all
qed

theorem exchange_version_correct_witness:
  "\<exists>ctx s h p v s'. atomsnap_exchange_version_slot 7 0 None s = Inr s' \<and>
     kept ctx s p v (pack32 (-2) INNER_F_DETACHED) s' \<and> read_cb 7 0 s = Inr (pack32 3 h)"
proof -
  obtain ctx s h p v where l: "live_version ctx s h p v" "inner_state v = pack32 1 0"
    "read_cb 7 0 s = Inr (pack32 3 h)" by (rule sample_live) blast
  have "handle_of None s = Inr HANDLE_NULL" by (simp add: handle_of_def)
  from exchange_version_correct [OF l this] obtain s' where
    "atomsnap_exchange_version_slot 7 0 None s = Inr s'" "kept ctx s p v (pack32 (-2) INNER_F_DETACHED) s'"
    by auto
  with l(3) show ?thesis by blast
qed

theorem release_version_correct_witness:
  "\<exists>ctx s h p v s'. atomsnap_release_version (Some p) s = Inr s' \<and> reclaimed ctx s h v s' \<and>
     inner_state v = pack32 (-1) INNER_F_DETACHED"
proof -
  obtain ctx s h p v where l: "live_version ctx s h p v" "inner_state v = pack32 (-1) INNER_F_DETACHED"
    by (rule sample_live) blast
  have "INNER_F_DETACHED AND INNER_F_DETACHED \<noteq> 0" by (simp add: const_defs)
  with release_version_correct [OF l finalized_flag] obtain s' where
    "atomsnap_release_version (Some p) s = Inr s'" "reclaimed ctx s h v s'" by auto
  with l(2) show ?thesis by blast
qed

theorem compare_exchange_version_correct_witness:
  "\<exists>ctx s h p v s'. atomsnap_compare_exchange_version_slot 7 0 (Some p) None s = Inr (True, s') \<and>
     reclaimed ctx s h v s'"
proof -
  obtain ctx s h p v where l: "live_version ctx s h p v" "inner_state v = pack32 1 0"
    "read_cb 7 0 s = Inr (pack32 1 h)" "handle_of (Some p) s = Inr h" by (rule sample_live) blast
  have "handle_of None s = Inr HANDLE_NULL" by (simp add: handle_of_def)
  from compare_exchange_version_correct [OF l(1-3) this l(4)] obtain s' where
    "atomsnap_compare_exchange_version_slot 7 0 (Some p) None s = Inr (True, s')" "reclaimed ctx s h v s'"
    by auto
  then show ?thesis by blast
qed

theorem acquire_version_correct_witness:
  "\<exists>s'. atomsnap_acquire_version_slot 7 1
     (gate_write 7 \<lparr>control_block = 0, free_impl = 9, extra_control_blocks = [ucast HANDLE_NULL],
        num_extra_slots = 1\<rparr> sample_state) = Inr (None, s')"
proof -
  let ?g = "\<lparr>control_block = 0, free_impl = 9, extra_control_blocks = [ucast HANDLE_NULL], num_extra_slots = 1\<rparr>"
  let ?s = "gate_write 7 ?g sample_state"
  have rd: "read_cb 7 1 ?s = Inr (ucast HANDLE_NULL)"
    by (simp add: read_cb_def gate_read_def get_cb_slot_def gate_write_def)
  have "gate_heap ?s 7 = Some ?g" by (simp add: gate_write_def)
  from acquire_version_correct [OF _ this, of 1] rd show ?thesis by (auto simp: resolve_handle_def)
qed

theorem set_object_free_version_witness:
  "\<exists>ctx s h p v s1 s2. live_version ctx s h p v \<and> atomsnap_set_object (Some p) 11 12 s = Inr s1 \<and>
     atomsnap_free_version (Some p) s1 = Inr s2 \<and> last (free_log s2) = (9, 11, 12)"
proof -
  obtain ctx s h p v where l: "live_version ctx s h p v" "gate v = 7" "callback_of s 7 = 9"
    by (rule sample_live) blast
  from set_object_free_version [OF l(1), of 11 12] l(2,3) obtain s1 s2 where
    "atomsnap_set_object (Some p) 11 12 s = Inr s1" "atomsnap_free_version (Some p) s1 = Inr s2"
    "last (free_log s2) = (9, 11, 12)" by auto
  with l(1) show ?thesis by blast
qed

theorem init_gate_correct_witness:
  "\<exists>p s'. atomsnap_init_gate \<lparr>ictx_free_impl = 9, num_extra_control_blocks = 2\<rparr> sample_state = (p, s') \<and>
     read_cb p 2 s' = Inr (pack32 0 HANDLE_NULL)"
proof -
  have "\<forall>n. alloc_ok (env sample_state) n" "0 < next_ptr sample_state"
    by (simp_all add: sample_state_def sample_env_def)
  from init_gate_correct [OF this, of "\<lparr>ictx_free_impl = 9, num_extra_control_blocks = 2\<rparr>"]
  show ?thesis by auto
qed

end
