(* ===== verification/Stack_Conc.thy ===== *)
theory Stack_Conc
  imports Arena_Inv
begin

text \<open>
  One arena under every interleaving of the thread that owns it and of the threads that return
  slots to it. Returning threads run \<open>free_slot\<close>: load the top, store the link, try the
  compare-and-swap, again until it succeeds. The owner runs the parts of \<open>alloc_slot\<close> that
  touch the arena: \<open>pop_local\<close>, the check and the exchange of the batch steal, the depth check
  and the \<open>madvise\<close> of \<open>reclaim_last_arena_if_empty\<close>, and \<open>setup_arena_stack\<close>. Each
  atomic access is one step.

  \<open>shared\<close>, \<open>own\<close> and \<open>used\<close> are history variables: the slots in the shared stack, in the
  owner's local stack, and handed out.
\<close>

section \<open>Steps\<close>

text \<open>
  \<open>F_Link i h old\<close>: returning slot \<open>i\<close> with handle \<open>h\<close>, about to store the link to the
  top of \<open>old\<close>; \<open>F_Cas i h old\<close>: link stored, about to compare-and-swap.
\<close>

datatype free_pc = F_Idle | F_Link nat u32 u64 | F_Cas nat u32 u64

datatype owner_pc = O_Idle | O_Steal | O_Madvise | O_Assert_Failed

record stack_state =
  mem :: memory_arena
  active :: bool
  local :: u32
  opc :: owner_pc
  fpc :: "nat \<Rightarrow> free_pc"
  shared :: "nat list"
  own :: "nat list"
  used :: "nat set"

definition set_link :: "nat \<Rightarrow> u32 \<Rightarrow> memory_arena \<Rightarrow> memory_arena" where
  "set_link i h m = m\<lparr>slots := (slots m)(i := (slots m i)\<lparr>self_handle := h\<rparr>)\<rparr>"

text \<open>The local stack holds no slot of arena \<open>k\<close>: it is empty or belongs to another arena.\<close>

definition elsewhere :: "nat \<Rightarrow> u32 \<Rightarrow> bool" where
  "elsewhere k h \<longleftrightarrow> h = HANDLE_NULL \<or> slot_idx h = 0 \<or> unat (arena_idx h) \<noteq> k"

inductive stack_step :: "nat \<Rightarrow> stack_state \<Rightarrow> stack_state \<Rightarrow> bool" for k :: nat where
  Init:
    "opc s = O_Idle \<Longrightarrow> \<not> active s \<Longrightarrow> elsewhere k (local s) \<Longrightarrow>
     setup_arena_stack k (mem s) = (nxt, m') \<Longrightarrow>
     stack_step k s (s\<lparr>mem := m', active := True, local := nxt, shared := [], own := all_slots\<rparr>)"
| Pop:
    "opc s = O_Idle \<Longrightarrow> \<not> elsewhere k (local s) \<Longrightarrow> i = unat (slot_idx (local s)) \<Longrightarrow>
     stack_step k s (s\<lparr>local := next_handle (slots (mem s) i), mem := set_link i (local s) (mem s),
       own := tl (own s), used := insert i (used s)\<rparr>)"
| Elsewhere:
    "opc s = O_Idle \<Longrightarrow> elsewhere k (local s) \<Longrightarrow> elsewhere k h \<Longrightarrow>
     stack_step k s (s\<lparr>local := h\<rparr>)"
| Steal_Check:
    "opc s = O_Idle \<Longrightarrow> active s \<Longrightarrow> elsewhere k (local s) \<Longrightarrow>
     top_slot (top_handle (mem s)) \<noteq> construct_handle (int k) 0 \<Longrightarrow>
     stack_step k s (s\<lparr>opc := O_Steal\<rparr>)"
| Steal:
    "opc s = O_Steal \<Longrightarrow> batch_top = top_handle (mem s) \<Longrightarrow>
     stack_step k s
       (if top_slot batch_top = construct_handle (int k) 0 then s\<lparr>opc := O_Assert_Failed\<rparr>
        else s\<lparr>mem := (mem s)\<lparr>top_handle := ucast (construct_handle (int k) 0)\<rparr>,
               local := top_slot batch_top, opc := O_Idle, own := shared s, shared := []\<rparr>)"
| Reclaim_Check:
    "opc s = O_Idle \<Longrightarrow> active s \<Longrightarrow>
     top_depth (top_handle (mem s)) = of_nat (SLOTS_PER_ARENA - 1) \<Longrightarrow>
     stack_step k s (s\<lparr>opc := O_Madvise\<rparr>)"
| Madvise:
    "opc s = O_Madvise \<Longrightarrow>
     stack_step k s (s\<lparr>mem := zero_arena, active := False, opc := O_Idle, shared := []\<rparr>)"
| Free_Load:
    "fpc s t = F_Idle \<Longrightarrow> i \<in> used s \<Longrightarrow>
     stack_step k s (s\<lparr>fpc := (fpc s)(t := F_Link i (self_handle (slots (mem s) i)) (top_handle (mem s))),
       used := used s - {i}\<rparr>)"
| Free_Link:
    "fpc s t = F_Link i h old \<Longrightarrow>
     stack_step k s (s\<lparr>mem := set_link i (top_slot old) (mem s), fpc := (fpc s)(t := F_Cas i h old)\<rparr>)"
| Free_Fail:
    "fpc s t = F_Cas i h old \<Longrightarrow>
     stack_step k s (s\<lparr>fpc := (fpc s)(t := F_Link i h (top_handle (mem s)))\<rparr>)"
| Free_Ok:
    "fpc s t = F_Cas i h old \<Longrightarrow> top_handle (mem s) = old \<Longrightarrow>
     stack_step k s (s\<lparr>mem := (mem s)\<lparr>top_handle := free_slot_new_top old h\<rparr>,
       fpc := (fpc s)(t := F_Idle), shared := i # shared s\<rparr>)"

definition stack_init :: "nat \<Rightarrow> stack_state \<Rightarrow> bool" where
  "stack_init k s \<longleftrightarrow>
     k < MAX_ARENAS \<and> \<not> active s \<and> local s = HANDLE_NULL \<and> opc s = O_Idle \<and> (\<forall>t. fpc s t = F_Idle) \<and>
     shared s = [] \<and> own s = [] \<and> used s = {}"

section \<open>Invariant\<close>

fun fslot :: "free_pc \<Rightarrow> nat option" where
  "fslot F_Idle = None"
| "fslot (F_Link i h old) = Some i"
| "fslot (F_Cas i h old) = Some i"

definition freeing :: "stack_state \<Rightarrow> nat set" where
  "freeing s = {i. \<exists>t. fslot (fpc s t) = Some i}"

fun fpc_ok :: "nat \<Rightarrow> stack_state \<Rightarrow> free_pc \<Rightarrow> bool" where
  "fpc_ok k s F_Idle \<longleftrightarrow> True"
| "fpc_ok k s (F_Link i h old) \<longleftrightarrow> h = mkh k i"
| "fpc_ok k s (F_Cas i h old) \<longleftrightarrow> h = mkh k i \<and> next_handle (slots (mem s) i) = top_slot old"

text \<open>
  The four places a slot of an active arena can be in are disjoint and complete; an inactive
  arena has no slot anywhere.
\<close>

definition parts :: "nat set \<Rightarrow> nat set \<Rightarrow> nat set \<Rightarrow> nat set \<Rightarrow> nat set \<Rightarrow> bool" where
  "parts A B U F D \<longleftrightarrow>
     A \<inter> B = {} \<and> A \<inter> U = {} \<and> A \<inter> F = {} \<and> B \<inter> U = {} \<and> B \<inter> F = {} \<and> U \<inter> F = {} \<and> A \<union> B \<union> U \<union> F = D"

definition places :: "stack_state \<Rightarrow> bool" where
  "places s \<longleftrightarrow>
     distinct (shared s) \<and> distinct (own s) \<and>
     parts (set (shared s)) (set (own s)) (used s) (freeing s) (if active s then usable_slots else {}) \<and>
     (\<forall>t u i. fslot (fpc s t) = Some i \<longrightarrow> fslot (fpc s u) = Some i \<longrightarrow> t = u)"

definition memory_ok :: "nat \<Rightarrow> stack_state \<Rightarrow> bool" where
  "memory_ok k s \<longleftrightarrow>
     (active s \<longrightarrow> chain k (slots (mem s)) (top_slot (top_handle (mem s))) (shared s) \<and>
        hi32 (top_handle (mem s)) = of_nat (length (shared s))) \<and>
     (if own s = [] then elsewhere k (local s) else chain k (slots (mem s)) (local s) (own s)) \<and>
     (\<forall>i \<in> used s. self_handle (slots (mem s) i) = mkh k i) \<and>
     (\<forall>t. fpc_ok k s (fpc s t))"

fun opc_ok :: "stack_state \<Rightarrow> owner_pc \<Rightarrow> bool" where
  "opc_ok s O_Idle \<longleftrightarrow> True"
| "opc_ok s O_Steal \<longleftrightarrow> active s \<and> own s = [] \<and> shared s \<noteq> []"
| "opc_ok s O_Madvise \<longleftrightarrow> active s \<and> set (shared s) = usable_slots"
| "opc_ok s O_Assert_Failed \<longleftrightarrow> False"

definition stack_ok :: "nat \<Rightarrow> stack_state \<Rightarrow> bool" where
  "stack_ok k s \<longleftrightarrow> k < MAX_ARENAS \<and> places s \<and> memory_ok k s \<and> opc_ok s (opc s)"

lemma elsewhere_mkh:
  assumes "k < MAX_ARENAS" "i < SLOTS_PER_ARENA" "0 < i"
  shows "\<not> elsewhere k (mkh k i)"
  using assms by (simp add: elsewhere_def mkh_not_NULL slot_idx_mkh_eq_0)

lemma chain_not_elsewhere:
  "k < MAX_ARENAS \<Longrightarrow> chain k sl h xs \<Longrightarrow> xs \<noteq> [] \<Longrightarrow> \<not> elsewhere k h"
  by (cases xs) (auto intro: elsewhere_mkh [THEN notE])

lemma elsewhere_sentinel: "elsewhere k (mkh k 0)"
  by (simp add: elsewhere_def slot_idx_mkh_eq_0)

lemma own_Nil_iff:
  "stack_ok k s \<Longrightarrow> own s = [] \<longleftrightarrow> elsewhere k (local s)"
  by (auto simp: stack_ok_def memory_ok_def dest: chain_not_elsewhere split: if_splits)

lemma set_link_slots [simp]:
  "top_handle (set_link i h m) = top_handle m"
  "slots (set_link i h m) = (slots m)(i := (slots m i)\<lparr>self_handle := h\<rparr>)"
  by (simp_all add: set_link_def)

section \<open>Preservation\<close>

lemma parts_moves:
  "parts A (insert i B) U F D \<Longrightarrow> i \<notin> B \<Longrightarrow> parts A B (insert i U) F D"
  "parts A {} U F D \<Longrightarrow> parts {} A U F D"
  "parts A B U F D \<Longrightarrow> i \<in> U \<Longrightarrow> parts A B (U - {i}) (insert i F) D"
  "parts A B U F D \<Longrightarrow> i \<in> F \<Longrightarrow> parts (insert i A) B U (F - {i}) D"
  unfolding parts_def by blast+

lemma parts_full: "parts D B U F D \<Longrightarrow> B = {} \<and> U = {} \<and> F = {}"
  unfolding parts_def by blast

lemma freeing_same: "fslot p = fslot (fpc s t) \<Longrightarrow> fpc s' = (fpc s)(t := p) \<Longrightarrow> freeing s' = freeing s"
  by (auto simp: freeing_def split: if_splits)

lemma freeing_start:
  "fpc s t = F_Idle \<Longrightarrow> fslot p = Some i \<Longrightarrow> fpc s' = (fpc s)(t := p) \<Longrightarrow>
   freeing s' = insert i (freeing s)"
  by (auto simp: freeing_def) (metis fslot.simps(1) option.distinct(1))

lemma freeing_end:
  assumes "places s" "fslot (fpc s t) = Some i" "fpc s' = (fpc s)(t := F_Idle)"
  shows "freeing s' = freeing s - {i}"
proof -
  have one: "u = t" if "fslot (fpc s u) = Some i" for u
    using assms(1,2) that by (simp add: places_def)
  have "j \<in> freeing s' \<longleftrightarrow> (\<exists>u. u \<noteq> t \<and> fslot (fpc s u) = Some j)" for j
    by (auto simp: freeing_def assms(3))
  moreover have "j \<in> freeing s \<longleftrightarrow> j = i \<or> (\<exists>u. u \<noteq> t \<and> fslot (fpc s u) = Some j)" for j
    using assms(2) unfolding freeing_def mem_Collect_eq by (metis option.inject)
  ultimately show ?thesis using one by blast
qed

lemma places_fpc:
  assumes "places s" "fpc s' = fpc s" "distinct (shared s')" "distinct (own s')"
    "parts (set (shared s')) (set (own s')) (used s') (freeing s) (if active s' then usable_slots else {})"
  shows "places s'"
proof -
  have "freeing s' = freeing s" by (simp add: freeing_def assms(2))
  with assms show ?thesis by (simp add: places_def)
qed

lemma placesI:
  assumes "distinct (shared s)" "distinct (own s)"
    "parts (set (shared s)) (set (own s)) (used s) F (if active s then usable_slots else {})"
    "freeing s = F" "\<And>t u i. fslot (fpc s t) = Some i \<Longrightarrow> fslot (fpc s u) = Some i \<Longrightarrow> t = u"
  shows "places s"
  unfolding places_def using assms by blast

lemma freeingI: "fslot (fpc s t) = Some i \<Longrightarrow> i \<in> freeing s"
  by (auto simp: freeing_def)

lemma fpc_idle: "freeing s = {} \<Longrightarrow> fpc s t = F_Idle"
  by (cases "fpc s t") (metis empty_iff freeingI fslot.simps)+

lemma fpc_ok_frame:
  "fpc_ok k s p \<Longrightarrow> (\<And>i. fslot p = Some i \<Longrightarrow> slots (mem s') i = slots (mem s) i) \<Longrightarrow> fpc_ok k s' p"
  by (cases p) auto

lemma stack_ok_D:
  assumes "stack_ok k s"
  shows "k < MAX_ARENAS" "places s" "memory_ok k s" "opc_ok s (opc s)"
    "parts (set (shared s)) (set (own s)) (used s) (freeing s) (if active s then usable_slots else {})"
    "distinct (shared s)" "distinct (own s)"
    "fslot (fpc s t) = Some i \<Longrightarrow> fslot (fpc s u) = Some i \<Longrightarrow> t = u" "fpc_ok k s (fpc s t)"
  using assms by (simp_all add: stack_ok_def places_def memory_ok_def)

lemma inactive_empty:
  assumes "stack_ok k s" "\<not> active s"
  shows "shared s = []" "own s = []" "used s = {}" "freeing s = {}"
  using stack_ok_D(5) [OF assms(1)] assms(2) by (simp_all add: parts_def)

lemma stack_Init:
  assumes ok: "stack_ok k s" and g: "opc s = O_Idle" "\<not> active s" "setup_arena_stack k (mem s) = (nxt, m')"
  shows "stack_ok k (s\<lparr>mem := m', active := True, local := nxt, shared := [], own := all_slots\<rparr>)"
proof -
  from g(3) have m': "nxt = mkh k (SLOTS_PER_ARENA - 1)" "top_handle m' = ucast (mkh k 0)"
    "slots m' = fresh_slots k (mem s)" by (auto simp: setup_arena_stack_closed)
  note empty = inactive_empty [OF ok g(2)]
  show ?thesis
    using ok g(1) empty setup_chain [of k "mem s"] fpc_idle [OF empty(4)]
    by (simp add: stack_ok_def places_def parts_def memory_ok_def freeing_def m' distinct_all_slots
        set_all_slots all_slots_not_Nil)
qed

lemma own_top:
  assumes ok: "stack_ok k s" and g: "\<not> elsewhere k (local s)" "i = unat (slot_idx (local s))"
  obtains l where "own s = i # l" "local s = mkh k i" "i \<in> usable_slots" "active s"
    "chain k (slots (mem s)) (next_handle (slots (mem s) i)) l" "i \<notin> set l"
proof -
  from own_Nil_iff [OF ok] g(1) obtain j l where own: "own s = j # l" by (cases "own s") auto
  with stack_ok_D(3) [OF ok] have c: "local s = mkh k j" "0 < j" "j < SLOTS_PER_ARENA"
    "chain k (slots (mem s)) (next_handle (slots (mem s) j)) l"
    by (simp_all add: memory_ok_def)
  then have "j = i" using g(2) by (simp add: slots_lt)
  moreover have "active s" using inactive_empty [OF ok] own by auto
  ultimately show thesis
    using that [of l] own c stack_ok_D(7) [OF ok] by (simp add: usable_slots_def)
qed

lemma stack_Pop:
  assumes ok: "stack_ok k s" and g: "opc s = O_Idle" "\<not> elsewhere k (local s)"
    "i = unat (slot_idx (local s))"
  shows "stack_ok k (s\<lparr>local := next_handle (slots (mem s) i), mem := set_link i (local s) (mem s),
       own := tl (own s), used := insert i (used s)\<rparr>)" (is "stack_ok k ?s'")
proof -
  from own_top [OF ok g(2,3)] obtain l where own: "own s = i # l" "local s = mkh k i" "active s"
    "chain k (slots (mem s)) (next_handle (slots (mem s) i)) l" "i \<notin> set l" by metis
  note pt = stack_ok_D(5) [OF ok]
  have nin: "i \<notin> set (shared s)" "i \<notin> freeing s" "i \<notin> used s" using pt own by (auto simp: parts_def)
  have fp: "fpc_ok k ?s' (fpc s t)" for t
    by (rule fpc_ok_frame [OF stack_ok_D(9) [OF ok]]) (use nin(2) in \<open>auto dest: freeingI\<close>)
  have "parts (set (shared s)) (set l) (insert i (used s)) (freeing s) usable_slots"
    using pt own(1,3,5) by (intro parts_moves(1)) simp_all
  then have "places ?s'"
    by (intro places_fpc [OF stack_ok_D(2) [OF ok]]) (use own stack_ok_D(6,7) [OF ok] in simp_all)
  moreover have "memory_ok k ?s'"
    using stack_ok_D(3) [OF ok] own nin fp by (auto simp: memory_ok_def elsewhere_sentinel)
  ultimately show ?thesis
    using ok g(1) by (simp add: stack_ok_def)
qed

lemma stack_Steal:
  assumes ok: "stack_ok k s" and g: "opc s = O_Steal"
  shows "top_slot (top_handle (mem s)) \<noteq> mkh k 0"
    "stack_ok k (s\<lparr>mem := (mem s)\<lparr>top_handle := ucast (mkh k 0)\<rparr>,
       local := top_slot (top_handle (mem s)), opc := O_Idle, own := shared s, shared := []\<rparr>)"
proof -
  let ?s' = "s\<lparr>mem := (mem s)\<lparr>top_handle := ucast (mkh k 0)\<rparr>,
       local := top_slot (top_handle (mem s)), opc := O_Idle, own := shared s, shared := []\<rparr>"
  have s: "active s" "own s = []" "shared s \<noteq> []" using stack_ok_D(4) [OF ok] g by simp_all
  then have c: "chain k (slots (mem s)) (top_slot (top_handle (mem s))) (shared s)"
    using stack_ok_D(3) [OF ok] by (simp add: memory_ok_def)
  with s(3) show "top_slot (top_handle (mem s)) \<noteq> mkh k 0"
    by (cases "shared s") (auto simp: mkh_0_iff)
  have fp: "fpc_ok k ?s' (fpc s t)" for t
    using stack_ok_D(9) [OF ok, of t] by (rule fpc_ok_frame) simp
  have "parts {} (set (shared s)) (used s) (freeing s) usable_slots"
    using stack_ok_D(5) [OF ok] s by (intro parts_moves(2)) simp
  then have "places ?s'"
    by (intro places_fpc [OF stack_ok_D(2) [OF ok]]) (use s stack_ok_D(6) [OF ok] in simp_all)
  moreover have "memory_ok k ?s'"
    using stack_ok_D(3) [OF ok] s c fp by (simp add: memory_ok_def)
  ultimately show "stack_ok k ?s'" using ok by (simp add: stack_ok_def)
qed

lemma shared_full_iff:
  assumes "stack_ok k s" "active s"
  shows "top_depth (top_handle (mem s)) = of_nat (SLOTS_PER_ARENA - 1) \<longleftrightarrow> set (shared s) = usable_slots"
proof -
  have "set (shared s) \<subseteq> usable_slots" "hi32 (top_handle (mem s)) = of_nat (length (shared s))"
    using stack_ok_D(3,5) [OF assms(1)] assms(2) by (auto simp: parts_def memory_ok_def)
  with stack_ok_D(6) [OF assms(1)] show ?thesis
    using depth_full_iff [OF _ length_distinct_usable] full_stack by blast
qed

lemma madvise_empty:
  assumes ok: "stack_ok k s" and g: "opc s = O_Madvise"
  shows "used s = {}" "freeing s = {}" "own s = []"
proof -
  have "active s" "set (shared s) = usable_slots" using stack_ok_D(4) [OF ok] g by simp_all
  with stack_ok_D(5) [OF ok] have "parts usable_slots (set (own s)) (used s) (freeing s) usable_slots"
    by simp
  from parts_full [OF this] show "used s = {}" "freeing s = {}" "own s = []" by simp_all
qed

lemma stack_Madvise:
  assumes ok: "stack_ok k s" and g: "opc s = O_Madvise"
  shows "stack_ok k (s\<lparr>mem := zero_arena, active := False, opc := O_Idle, shared := []\<rparr>)"
  using ok madvise_empty [OF ok g] fpc_idle [OF madvise_empty(2) [OF ok g]]
  by (simp add: stack_ok_def places_def parts_def memory_ok_def freeing_def)

lemma stack_Free_Load:
  assumes ok: "stack_ok k s" and g: "fpc s t = F_Idle" "i \<in> used s"
  shows "stack_ok k (s\<lparr>fpc := (fpc s)(t := F_Link i (self_handle (slots (mem s) i)) (top_handle (mem s))),
       used := used s - {i}\<rparr>)" (is "stack_ok k ?s'")
proof -
  have fr: "freeing ?s' = insert i (freeing s)" using g(1) by (rule freeing_start [where i = i]) simp_all
  have nin: "i \<notin> freeing s" using stack_ok_D(5) [OF ok] g(2) by (auto simp: parts_def)
  have "t' = u" if "fslot (fpc ?s' t') = Some j" "fslot (fpc ?s' u) = Some j" for t' u j
    using that stack_ok_D(8) [OF ok, of t' j u] nin freeingI [of s t' j] freeingI [of s u j]
    by (auto split: if_splits)
  note one = this
  have "places ?s'"
  proof (rule placesI [OF _ _ _ fr one])
    show "parts (set (shared ?s')) (set (own ?s')) (used ?s') (insert i (freeing s))
        (if active ?s' then usable_slots else {})"
      using parts_moves(3) [OF stack_ok_D(5) [OF ok] g(2)] by simp
  qed (use stack_ok_D(6,7) [OF ok] in simp_all)
  moreover have "fpc_ok k ?s' (fpc ?s' u)" for u
    using stack_ok_D(9) [OF ok, of u] stack_ok_D(3) [OF ok] g(2) fpc_ok_frame [of k s "fpc s u" ?s']
    by (auto simp: memory_ok_def)
  then have "memory_ok k ?s'" using stack_ok_D(3) [OF ok] unfolding memory_ok_def by simp
  moreover have "opc_ok ?s' (opc s)" using stack_ok_D(4) [OF ok] by (cases "opc s") simp_all
  ultimately show ?thesis using ok by (simp add: stack_ok_def)
qed

lemma stack_retry:
  assumes ok: "stack_ok k s" and sl: "fslot p = fslot (fpc s t)" "fslot p = Some i"
    and s': "s' = s\<lparr>mem := m, fpc := (fpc s)(t := p)\<rparr>"
    and m: "top_handle m = top_handle (mem s)" "\<And>j. j \<noteq> i \<Longrightarrow> slots m j = slots (mem s) j"
    and p: "fpc_ok k s' p"
  shows "stack_ok k s'"
proof -
  have fr: "freeing s' = freeing s" by (rule freeing_same [OF sl(1)]) (simp add: s')
  have i: "i \<in> freeing s" using sl by (intro freeingI [of s t]) simp
  have nin: "i \<notin> set (shared s)" "i \<notin> set (own s)" "i \<notin> used s"
    using stack_ok_D(5) [OF ok] i by (auto simp: parts_def)
  have eq: "fslot (fpc s' u) = fslot (fpc s u)" for u using sl(1) by (simp add: s')
  have "places s'"
    using stack_ok_D(2) [OF ok] unfolding places_def fr eq by (simp add: s')
  moreover have chain: "chain k (slots m) h xs = chain k (slots (mem s)) h xs" if "i \<notin> set xs" for h xs
    using m(2) that by (intro chain_frame) metis
  have fp: "fpc_ok k s' (fpc s' u)" for u
  proof (cases "u = t")
    case True
    with p show ?thesis by (simp add: s')
  next
    case False
    have "slots (mem s') j = slots (mem s) j" if "fslot (fpc s u) = Some j" for j
    proof -
      have "j \<noteq> i" using that False sl stack_ok_D(8) [OF ok, of u i t] by metis
      then show ?thesis by (simp add: s' m(2))
    qed
    from fpc_ok_frame [OF stack_ok_D(9) [OF ok, of u] this] False show ?thesis by (simp add: s')
  qed
  have "self_handle (slots m j) = mkh k j" if "j \<in> used s" for j
  proof -
    have "j \<noteq> i" using that nin(3) by blast
    with m(2) that stack_ok_D(3) [OF ok] show ?thesis by (simp add: memory_ok_def)
  qed
  then have "memory_ok k s'"
    using stack_ok_D(3) [OF ok] fp chain nin m(1) unfolding memory_ok_def by (simp add: s')
  moreover have "opc_ok s' (opc s)" using stack_ok_D(4) [OF ok] by (cases "opc s") (simp_all add: s')
  ultimately show ?thesis using ok by (simp add: stack_ok_def s')
qed

lemma stack_Free_Ok:
  assumes ok: "stack_ok k s" and g: "fpc s t = F_Cas i h old" "top_handle (mem s) = old"
  shows "stack_ok k (s\<lparr>mem := (mem s)\<lparr>top_handle := free_slot_new_top old h\<rparr>,
       fpc := (fpc s)(t := F_Idle), shared := i # shared s\<rparr>)" (is "stack_ok k ?s'")
proof -
  have h: "h = mkh k i" "next_handle (slots (mem s) i) = top_slot old"
    using stack_ok_D(9) [OF ok, of t] g(1) by simp_all
  have i: "i \<in> freeing s" using g(1) by (intro freeingI [of s t]) simp
  have act: "active s" using inactive_empty(4) [OF ok] i by auto
  have nin: "i \<notin> set (shared s)" "i \<notin> set (own s)" "i \<in> usable_slots"
    using stack_ok_D(5) [OF ok] i act by (auto simp: parts_def)
  have fr: "freeing ?s' = freeing s - {i}"
    by (rule freeing_end [OF stack_ok_D(2) [OF ok], of t]) (simp_all add: g(1))
  have "t' = u" if "fslot (fpc ?s' t') = Some j" "fslot (fpc ?s' u) = Some j" for t' u j
    using that stack_ok_D(8) [OF ok, of t' j u] by (auto split: if_splits)
  note one = this
  have "places ?s'"
  proof (rule placesI [OF _ _ _ fr one])
    show "parts (set (shared ?s')) (set (own ?s')) (used ?s') (freeing s - {i})
        (if active ?s' then usable_slots else {})"
      using parts_moves(4) [OF stack_ok_D(5) [OF ok] i] by simp
  qed (use stack_ok_D(6,7) [OF ok] nin in simp_all)
  moreover have "fpc_ok k ?s' (fpc ?s' u)" for u
    using fpc_ok_frame [OF stack_ok_D(9) [OF ok, of u], of ?s'] by simp
  moreover obtain d h' where "old = pack32 d h'" by (rule pack32_cases)
  ultimately have "memory_ok k ?s'" and pl: "places ?s'"
    using stack_ok_D(3) [OF ok] act h nin(3) g(2)
    unfolding memory_ok_def by (auto simp: free_slot_new_top_pack usable_slots_def)
  moreover have "opc_ok ?s' (opc s)"
  proof (cases "opc s")
    case O_Madvise
    with madvise_empty(2) [OF ok] i show ?thesis by simp
  qed (use stack_ok_D(4) [OF ok] in simp_all)
  ultimately show ?thesis using ok by (simp add: stack_ok_def)
qed

lemma stack_preserved:
  assumes ok: "stack_ok k s" and step: "stack_step k s s'"
  shows "stack_ok k s'"
  using step
proof cases
  case (Init nxt m')
  then show ?thesis using stack_Init [OF ok] by blast
next
  case (Pop i)
  then show ?thesis using stack_Pop [OF ok] by blast
next
  case (Elsewhere h)
  then show ?thesis
    using ok own_Nil_iff [OF ok]
    by (auto simp: stack_ok_def places_def memory_ok_def freeing_def intro: fpc_ok_frame)
next
  case Steal_Check
  have "opc_ok (s\<lparr>opc := O_Steal\<rparr>) O_Steal"
    using Steal_Check stack_ok_D(3) [OF ok] own_Nil_iff [OF ok] by (auto simp: memory_ok_def)
  with ok Steal_Check(1) show ?thesis
    by (auto simp: stack_ok_def places_def memory_ok_def freeing_def intro: fpc_ok_frame)
next
  case (Steal batch_top)
  then show ?thesis using stack_Steal [OF ok] by simp
next
  case Reclaim_Check
  with shared_full_iff [OF ok] ok show ?thesis
    by (auto simp: stack_ok_def places_def memory_ok_def freeing_def intro: fpc_ok_frame)
next
  case Madvise
  then show ?thesis using stack_Madvise [OF ok] by blast
next
  case (Free_Load t i)
  then show ?thesis using stack_Free_Load [OF ok] by blast
next
  case (Free_Link t i h old)
  have "h = mkh k i" using stack_ok_D(9) [OF ok, of t] Free_Link by simp
  then show ?thesis
    by (intro stack_retry [OF ok, of "F_Cas i h old" t i s' "set_link i (top_slot old) (mem s)"])
      (use Free_Link in auto)
next
  case (Free_Fail t i h old)
  have "h = mkh k i" using stack_ok_D(9) [OF ok, of t] Free_Fail by simp
  then show ?thesis
    by (intro stack_retry [OF ok, of "F_Link i h (top_handle (mem s))" t i s' "mem s"])
      (use Free_Fail in auto)
next
  case (Free_Ok t i h old)
  then show ?thesis using stack_Free_Ok [OF ok] by blast
qed

section \<open>Specification\<close>

text \<open>
  What the arena promises: a pool of slots. A slot is taken only while nobody has it, and given
  back by the one who has it.
\<close>

inductive pool_step :: "nat set \<Rightarrow> nat set \<Rightarrow> bool" where
  Take: "i \<in> usable_slots \<Longrightarrow> i \<notin> taken \<Longrightarrow> pool_step taken (insert i taken)"
| Give: "i \<in> taken \<Longrightarrow> pool_step taken (taken - {i})"

definition pool_init :: "nat set \<Rightarrow> bool" where
  "pool_init taken \<longleftrightarrow> taken = {}"

definition taken_slots :: "stack_state \<Rightarrow> nat set" where
  "taken_slots s = used s \<union> freeing s"

lemma stack_refines:
  assumes ok: "stack_ok k s" and step: "stack_step k s s'"
  shows "pool_step (taken_slots s) (taken_slots s') \<or> taken_slots s' = taken_slots s"
  using step
proof cases
  case (Pop i)
  from own_top [OF ok Pop(3,4)] obtain l where own: "own s = i # l" "i \<in> usable_slots" by metis
  then have "i \<notin> taken_slots s" using stack_ok_D(5) [OF ok] by (auto simp: parts_def taken_slots_def)
  moreover have "taken_slots s' = insert i (taken_slots s)"
    using Pop(1) by (simp add: taken_slots_def freeing_def)
  ultimately show ?thesis using own(2) by (simp add: Take)
next
  case (Free_Load t i)
  have "freeing s' = insert i (freeing s)"
    using Free_Load by (intro freeing_start [of s t _ i s']) auto
  then have "taken_slots s' = taken_slots s" using Free_Load(1,3) by (auto simp: taken_slots_def)
  then show ?thesis ..
next
  case (Free_Link t i h old)
  then have "freeing s' = freeing s" by (intro freeing_same [of _ s t s']) auto
  then show ?thesis using Free_Link(1) by (simp add: taken_slots_def)
next
  case (Free_Fail t i h old)
  then have "freeing s' = freeing s" by (intro freeing_same [of _ s t s']) auto
  then show ?thesis using Free_Fail(1) by (simp add: taken_slots_def)
next
  case (Free_Ok t i h old)
  have i: "i \<in> freeing s" using Free_Ok(2) by (intro freeingI [of s t]) simp
  have "freeing s' = freeing s - {i}"
    using Free_Ok by (intro freeing_end [OF stack_ok_D(2) [OF ok], of t]) auto
  moreover have "i \<notin> used s" using i stack_ok_D(5) [OF ok] by (auto simp: parts_def)
  ultimately have "taken_slots s' = taken_slots s - {i}" using Free_Ok(1) by (auto simp: taken_slots_def)
  with i show ?thesis by (simp add: Give taken_slots_def)
qed (auto simp: taken_slots_def freeing_def)

interpretation arena_stack: simulation "stack_init k" "stack_step k" "stack_ok k" pool_init pool_step taken_slots
  for k :: nat
proof
  show "stack_ok k s" if "stack_init k s" for s
    using that by (simp add: stack_init_def stack_ok_def places_def parts_def memory_ok_def freeing_def
        elsewhere_def)
  show "stack_ok k t" if "stack_ok k s" "stack_step k s t" for s t
    using that by (rule stack_preserved)
  show "pool_init (taken_slots s)" if "stack_init k s" for s
    using that by (simp add: stack_init_def pool_init_def taken_slots_def freeing_def)
  show "pool_step (taken_slots s) (taken_slots t) \<or> taken_slots t = taken_slots s"
    if "stack_ok k s" "stack_step k s t" for s t
    using that by (rule stack_refines)
qed

section \<open>An execution\<close>

text \<open>The owner sets the arena up, then takes every slot and returns it at once.\<close>

definition stack0 :: stack_state where
  "stack0 = \<lparr>mem = zero_arena, active = False, local = HANDLE_NULL, opc = O_Idle,
     fpc = (\<lambda>_. F_Idle), shared = [], own = [], used = {}\<rparr>"

definition stack1 :: stack_state where
  "stack1 = stack0\<lparr>mem := snd (setup_arena_stack 0 zero_arena), active := True,
     local := fst (setup_arena_stack 0 zero_arena), shared := [], own := all_slots\<rparr>"

lemma stack0_init: "stack_init 0 stack0"
  by (simp add: stack_init_def stack0_def MAX_ARENAS_def)

lemma stack1_reach: "reach (stack_init 0) (stack_step 0) stack1"
proof -
  have "stack_step 0 stack0 stack1"
    unfolding stack1_def
    by (rule stack_step.Init) (simp_all add: stack0_def elsewhere_def setup_arena_stack_closed)
  with stack0_init show ?thesis by (meson reach_init reach_step)
qed

lemma free_cycle:
  assumes r: "reach (stack_init k) (stack_step k) s" and idle: "opc s = O_Idle" "\<forall>t. fpc s t = F_Idle"
    "used s = {}" and own: "own s = i # l"
  obtains s' where "reach (stack_init k) (stack_step k) s'" "opc s' = O_Idle" "\<forall>t. fpc s' t = F_Idle"
    "used s' = {}" "own s' = l" "active s' = active s" "shared s' = i # shared s"
proof -
  note ok = arena_stack.inv_reach [OF r]
  have ne: "\<not> elsewhere k (local s)" using own_Nil_iff [OF ok] own by simp
  from own_top [OF ok ne refl] own have i: "i = unat (slot_idx (local s))" by auto
  define a where "a = s\<lparr>local := next_handle (slots (mem s) i), mem := set_link i (local s) (mem s),
       own := tl (own s), used := insert i (used s)\<rparr>"
  define b where "b = a\<lparr>fpc := (fpc a)(0 := F_Link i (self_handle (slots (mem a) i)) (top_handle (mem a))),
       used := used a - {i}\<rparr>"
  define c where "c = b\<lparr>mem := set_link i (top_slot (top_handle (mem a))) (mem b),
       fpc := (fpc b)(0 := F_Cas i (self_handle (slots (mem a) i)) (top_handle (mem a)))\<rparr>"
  define d where "d = c\<lparr>mem := (mem c)\<lparr>top_handle := free_slot_new_top (top_handle (mem a))
         (self_handle (slots (mem a) i))\<rparr>, fpc := (fpc c)(0 := F_Idle), shared := i # shared c\<rparr>"
  have "stack_step k s a" unfolding a_def using idle(1) ne i by (rule stack_step.Pop)
  moreover have "stack_step k a b"
    unfolding b_def by (rule stack_step.Free_Load) (use idle in \<open>simp_all add: a_def\<close>)
  moreover have "stack_step k b c" unfolding c_def by (rule stack_step.Free_Link) (simp add: b_def)
  moreover have "stack_step k c d"
    unfolding d_def by (rule stack_step.Free_Ok) (simp_all add: c_def b_def)
  ultimately have "reach (stack_init k) (stack_step k) d" using r by (metis reach_step)
  then show thesis
    by (rule that) (use idle own in \<open>auto simp: d_def c_def b_def a_def\<close>)
qed

lemma free_all:
  "n \<le> length all_slots \<Longrightarrow>
   \<exists>s. reach (stack_init 0) (stack_step 0) s \<and> opc s = O_Idle \<and> (\<forall>t. fpc s t = F_Idle) \<and> used s = {} \<and>
     active s \<and> length (own s) = length all_slots - n \<and> length (shared s) = n"
proof (induction n)
  case 0
  show ?case
    by (intro exI [of _ stack1] conjI stack1_reach) (simp_all add: stack1_def stack0_def)
next
  case (Suc n)
  then obtain s where s: "reach (stack_init 0) (stack_step 0) s" "opc s = O_Idle" "\<forall>t. fpc s t = F_Idle"
    "used s = {}" "active s" "length (own s) = length all_slots - n" "length (shared s) = n" by auto
  with Suc.prems obtain i l where own: "own s = i # l" by (cases "own s") auto
  from free_cycle [OF s(1-4) own] s own show ?case by (metis diff_Suc_1 diff_Suc_eq_diff_pred length_Cons
        diff_commute)
qed

lemma madvise_reachable: "\<exists>s. reach (stack_init 0) (stack_step 0) s \<and> opc s = O_Madvise"
proof -
  from free_all [of "length all_slots"] obtain s where s: "reach (stack_init 0) (stack_step 0) s"
    "opc s = O_Idle" "active s" "length (shared s) = length all_slots" by auto
  note ok = arena_stack.inv_reach [OF s(1)]
  have "length all_slots = SLOTS_PER_ARENA - 1" by (simp add: all_slots_def)
  moreover have "set (shared s) \<subseteq> usable_slots" using stack_ok_D(5) [OF ok] s(3) by (auto simp: parts_def)
  ultimately have "set (shared s) = usable_slots"
    using full_stack [OF stack_ok_D(6) [OF ok]] s(4) by simp
  then have "stack_step 0 s (s\<lparr>opc := O_Madvise\<rparr>)"
    using shared_full_iff [OF ok s(3)] s by (intro stack_step.Reclaim_Check) auto
  with s(1) have "reach (stack_init 0) (stack_step 0) (s\<lparr>opc := O_Madvise\<rparr>)" by (rule reach_step)
  then show ?thesis by (intro exI [of _ "s\<lparr>opc := O_Madvise\<rparr>"]) simp
qed

section \<open>Properties\<close>

text \<open>
  Claim C19. Under every interleaving of the owner with any number of returning threads, each
  slot of an active arena is in exactly one place: the shared stack, the owner's local stack,
  handed out, or being returned by one thread. The shared stack is the list the links in memory
  spell, and the depth field of its top word is its length.
\<close>

theorem slots_in_one_place:
  assumes "reach (stack_init k) (stack_step k) s" "active s"
  shows "parts (set (shared s)) (set (own s)) (used s) (freeing s) usable_slots \<and>
    distinct (shared s) \<and> distinct (own s) \<and>
    walk SLOTS_PER_ARENA (slots (mem s)) (top_slot (top_handle (mem s))) = shared s \<and>
    hi32 (top_handle (mem s)) = of_nat (length (shared s))"
proof -
  note ok = arena_stack.inv_reach [OF assms(1)]
  have pt: "parts (set (shared s)) (set (own s)) (used s) (freeing s) usable_slots"
    using stack_ok_D(5) [OF ok] assms(2) by simp
  have c: "chain k (slots (mem s)) (top_slot (top_handle (mem s))) (shared s)"
    and d: "hi32 (top_handle (mem s)) = of_nat (length (shared s))"
    using stack_ok_D(3) [OF ok] assms(2) by (simp_all add: memory_ok_def)
  have "length (shared s) < SLOTS_PER_ARENA"
    using length_distinct_usable [OF stack_ok_D(6) [OF ok] chain_usable [OF c]] by (simp add: le_less_trans)
  with chain_walk [OF c] pt d stack_ok_D(6,7) [OF ok] show ?thesis by blast
qed

theorem slots_in_one_place_witness:
  "parts {} (set all_slots) {} (freeing stack1) usable_slots"
  using slots_in_one_place [OF stack1_reach] by (simp add: stack1_def stack0_def)

text \<open>
  \<open>pop_local\<close> never hands out a slot that somebody has: the popped slot is a usable
  one, neither handed out nor being returned, and afterwards it carries its own handle.
\<close>

theorem pop_hands_out_free_slot:
  assumes "reach (stack_init k) (stack_step k) s" "\<not> elsewhere k (local s)"
    "i = unat (slot_idx (local s))"
  shows "i \<in> usable_slots \<and> i \<notin> used s \<and> i \<notin> freeing s \<and>
    self_handle (slots (set_link i (local s) (mem s)) i) = mkh k i"
proof -
  note ok = arena_stack.inv_reach [OF assms(1)]
  from own_top [OF ok assms(2,3)] obtain l where "own s = i # l" "local s = mkh k i" "i \<in> usable_slots"
    by metis
  with stack_ok_D(5) [OF ok] show ?thesis by (auto simp: parts_def)
qed

lemma stack1_local: "local stack1 = mkh 0 3275"
  by (simp add: stack1_def setup_arena_stack_closed SLOTS_PER_ARENA_def)

theorem pop_hands_out_free_slot_witness: "3275 \<in> usable_slots \<and> 3275 \<notin> used stack1"
proof -
  have ne: "\<not> elsewhere 0 (local stack1)"
    unfolding stack1_local by (rule elsewhere_mkh) (simp_all add: MAX_ARENAS_def SLOTS_PER_ARENA_def)
  have eq: "3275 = unat (slot_idx (local stack1))" unfolding stack1_local by simp
  from pop_hands_out_free_slot [OF stack1_reach ne eq] show ?thesis by blast
qed

text \<open>
  Claim C21. An arena's memory is given back to the operating system only when nobody has a slot
  of it: at the \<open>madvise\<close> of \<open>reclaim_last_arena_if_empty\<close> no slot is handed out, being
  returned, or in the local stack, however the depth check and the returning threads interleave.
\<close>

theorem madvise_only_when_idle:
  assumes "reach (stack_init k) (stack_step k) s" "opc s = O_Madvise"
  shows "used s = {} \<and> freeing s = {} \<and> own s = [] \<and> set (shared s) = usable_slots"
  using madvise_empty [OF arena_stack.inv_reach [OF assms(1)] assms(2)]
    stack_ok_D(4) [OF arena_stack.inv_reach [OF assms(1)]] assms(2) by simp

theorem madvise_only_when_idle_witness:
  "\<exists>s. reach (stack_init 0) (stack_step 0) s \<and> opc s = O_Madvise \<and> used s = {} \<and> freeing s = {}"
  using madvise_reachable madvise_only_when_idle [of 0] by blast

text \<open>
  The assertion after the batch-steal exchange never fails: only the owner empties the
  shared stack, so a stack found non-empty still is when it is taken.
\<close>

theorem steal_assert_holds:
  assumes "reach (stack_init k) (stack_step k) s"
  shows "opc s \<noteq> O_Assert_Failed \<and>
    (opc s = O_Steal \<longrightarrow> top_slot (top_handle (mem s)) \<noteq> construct_handle (int k) 0)"
proof -
  note ok = arena_stack.inv_reach [OF assms]
  show ?thesis using stack_ok_D(4) [OF ok] stack_Steal(1) [OF ok] by auto
qed

theorem steal_assert_holds_witness: "opc stack1 \<noteq> O_Assert_Failed"
  using steal_assert_holds [OF stack1_reach] by blast



end
