(* ===== verification/Refcount_Conc.thy ===== *)
theory Refcount_Conc
  imports Versions "HOL-Library.Multiset"
begin

text \<open>
  The reference-counting protocol of \<open>atomsnap.c\<close> under every interleaving of its atomic
  accesses. A step is one atomic read-modify-write of a control block or of a version's
  \<open>inner_state\<close>, one compare-and-swap attempt, the callback, or the return of a slot; between
  two steps of a thread any number of steps of other threads may happen. The words are the
  64-bit words of the code and their arithmetic is that of \<open>Versions\<close>.

  \<open>status\<close>, \<open>holders\<close>, \<open>allocs\<close> and \<open>calls\<close> are history variables: no step's guard on
  the words reads them, except where they express the rules the callers follow (a thread
  releases what it acquired, publishes or frees a version it made and has not published, holds
  the version it passes as \<open>expected\<close>). \<open>lim\<close> bounds the references held on one version at
  the same time.
\<close>

section \<open>Steps\<close>

text \<open>
  Where a thread is inside an operation. \<open>Det_Load h r\<close> and \<open>Det_Cas h r cur\<close>: in
  \<open>detach_and_adjust(h, r)\<close>, before the load and before a compare-and-swap that expects
  \<open>cur\<close>. \<open>Cx_Cas c e n cur\<close>: in the loop of compare-exchange. \<open>Fin_Or\<close>, \<open>Fin_Call\<close>,
  \<open>Fin_Free\<close>: in \<open>try_finalize\<close> before the fetch-or, before the callback, before
  \<open>free_slot\<close>. \<open>Aborted\<close>: after \<open>abort()\<close>.
\<close>

datatype rc_pc =
    Idle
  | Det_Load u32 u32
  | Det_Cas u32 u32 u64
  | Cx_Cas nat u32 u32 u64
  | Fin_Or u32
  | Fin_Call u32
  | Fin_Free u32
  | Aborted

datatype vstatus =
    Unused
  | Private nat
  | Published nat
  | Detaching nat u32
  | Detached
  | Finalizing nat

record rc_state =
  cbs :: "nat \<Rightarrow> u64"
  inner :: "u32 \<Rightarrow> u64"
  obj :: "u32 \<Rightarrow> nat"
  pc :: "nat \<Rightarrow> rc_pc"
  status :: "u32 \<Rightarrow> vstatus"
  holders :: "u32 \<Rightarrow> nat multiset"
  allocs :: "u32 \<Rightarrow> nat"
  calls :: "u32 \<Rightarrow> nat list"

text \<open>Where \<open>try_finalize\<close> goes with the value it was given.\<close>

definition after_adjust :: "u32 \<Rightarrow> u64 \<Rightarrow> rc_pc" where
  "after_adjust h w = (if finalize_due w then Fin_Or h else Idle)"

text \<open>What an exchange does with the version it took out of the control block.\<close>

definition after_exchange :: "u64 \<Rightarrow> rc_pc" where
  "after_exchange old =
     (if cb_handle old = HANDLE_NULL then Idle else Det_Load (cb_handle old) (cb_refs old))"

definition take_out :: "nat \<Rightarrow> u64 \<Rightarrow> (u32 \<Rightarrow> vstatus) \<Rightarrow> u32 \<Rightarrow> vstatus" where
  "take_out t old st =
     (if cb_handle old = HANDLE_NULL then st else st(cb_handle old := Detaching t (cb_refs old)))"

definition put_in :: "nat \<Rightarrow> u32 \<Rightarrow> (u32 \<Rightarrow> vstatus) \<Rightarrow> u32 \<Rightarrow> vstatus" where
  "put_in c n st = (if n = HANDLE_NULL then st else st(n := Published c))"

text \<open>The version a writer may install: NULL, or one it made and has not published.\<close>

definition may_install :: "rc_state \<Rightarrow> nat \<Rightarrow> u32 \<Rightarrow> bool" where
  "may_install s t n \<longleftrightarrow> n = HANDLE_NULL \<or> status s n = Private t"

definition may_expect :: "rc_state \<Rightarrow> nat \<Rightarrow> u32 \<Rightarrow> bool" where
  "may_expect s t e \<longleftrightarrow> e = HANDLE_NULL \<or> t \<in># holders s e"

text \<open>
  Steps are labelled with the call they begin or with what they report to the caller: the
  version made or acquired, the outcome of a compare-exchange, the callback. All other steps
  inside an operation are \<open>L_Tau\<close>.
\<close>

datatype rc_label =
    L_Make u32
  | L_Set u32 nat
  | L_Free u32
  | L_Acquire nat u32
  | L_Release u32
  | L_Exchange nat u32
  | L_Cx nat u32 u32
  | L_Cx_Refuse nat u32 u32
  | L_Cx_False
  | L_Cx_True
  | L_Callback u32
  | L_Tau

text \<open>The atomic steps of thread \<open>t\<close>.\<close>

inductive rc_act :: "nat \<Rightarrow> nat \<Rightarrow> rc_label \<Rightarrow> rc_state \<Rightarrow> rc_state \<Rightarrow> bool"
  for lim :: nat and t :: nat where
  Make:
    "pc s t = Idle \<Longrightarrow> h \<noteq> HANDLE_NULL \<Longrightarrow> status s h = Unused \<Longrightarrow>
     rc_act lim t (L_Make h) s (s\<lparr>status := (status s)(h := Private t), inner := (inner s)(h := 0),
       obj := (obj s)(h := 0), allocs := (allocs s)(h := Suc (allocs s h))\<rparr>)"
| Set_Object:
    "pc s t = Idle \<Longrightarrow> status s h = Private t \<Longrightarrow>
     rc_act lim t (L_Set h v) s (s\<lparr>obj := (obj s)(h := v)\<rparr>)"
| Free_Version:
    "pc s t = Idle \<Longrightarrow> status s h = Private t \<Longrightarrow>
     rc_act lim t (L_Free h) s (s\<lparr>status := (status s)(h := Finalizing t), pc := (pc s)(t := Fin_Call h)\<rparr>)"
| Acquire:
    "pc s t = Idle \<Longrightarrow> h = cb_handle (cbs s c) \<Longrightarrow> size (holders s h) < lim \<Longrightarrow>
     rc_act lim t (L_Acquire c h) s (s\<lparr>cbs := (cbs s)(c := cbs s c + REF_COUNT_INC),
       holders := (if h = HANDLE_NULL then holders s
                   else (holders s)(h := add_mset t (holders s h)))\<rparr>)"
| Release:
    "pc s t = Idle \<Longrightarrow> t \<in># holders s h \<Longrightarrow> w = inner s h + INNER_CNT_INC \<Longrightarrow>
     rc_act lim t (L_Release h) s (s\<lparr>inner := (inner s)(h := w),
       holders := (holders s)(h := holders s h - {#t#}),
       status := (if finalize_due w then (status s)(h := Finalizing t) else status s),
       pc := (pc s)(t := after_adjust h w)\<rparr>)"
| Exchange:
    "pc s t = Idle \<Longrightarrow> may_install s t n \<Longrightarrow> old = cbs s c \<Longrightarrow>
     rc_act lim t (L_Exchange c n) s (s\<lparr>cbs := (cbs s)(c := ucast n),
       status := put_in c n (take_out t old (status s)),
       pc := (pc s)(t := after_exchange old)\<rparr>)"
| Cx_Load:
    "pc s t = Idle \<Longrightarrow> may_install s t n \<Longrightarrow> may_expect s t e \<Longrightarrow> cb_handle (cbs s c) = e \<Longrightarrow>
     rc_act lim t (L_Cx c e n) s (s\<lparr>pc := (pc s)(t := Cx_Cas c e n (cbs s c))\<rparr>)"
| Cx_Refuse:
    "pc s t = Idle \<Longrightarrow> may_install s t n \<Longrightarrow> may_expect s t e \<Longrightarrow> cb_handle (cbs s c) \<noteq> e \<Longrightarrow>
     rc_act lim t (L_Cx_Refuse c e n) s s"
| Cx_Mismatch:
    "pc s t = Cx_Cas c e n cur \<Longrightarrow> cb_handle cur \<noteq> e \<Longrightarrow>
     rc_act lim t L_Cx_False s (s\<lparr>pc := (pc s)(t := Idle)\<rparr>)"
| Cx_Fail:
    "pc s t = Cx_Cas c e n cur \<Longrightarrow> cb_handle cur = e \<Longrightarrow>
     rc_act lim t L_Tau s (s\<lparr>pc := (pc s)(t := Cx_Cas c e n (cbs s c))\<rparr>)"
| Cx_Ok:
    "pc s t = Cx_Cas c e n cur \<Longrightarrow> cb_handle cur = e \<Longrightarrow> cbs s c = cur \<Longrightarrow>
     rc_act lim t L_Cx_True s (s\<lparr>cbs := (cbs s)(c := ucast n),
       status := put_in c n (take_out t cur (status s)),
       pc := (pc s)(t := after_exchange cur)\<rparr>)"
| Detach_Load:
    "pc s t = Det_Load h r \<Longrightarrow>
     rc_act lim t L_Tau s (s\<lparr>pc := (pc s)(t := Det_Cas h r (inner s h))\<rparr>)"
| Detach_Fail:
    "pc s t = Det_Cas h r cur \<Longrightarrow>
     rc_act lim t L_Tau s (s\<lparr>pc := (pc s)(t := Det_Cas h r (inner s h))\<rparr>)"
| Detach_Ok:
    "pc s t = Det_Cas h r cur \<Longrightarrow> inner s h = cur \<Longrightarrow> w = detach_next cur r \<Longrightarrow>
     rc_act lim t L_Tau s (s\<lparr>inner := (inner s)(h := w),
       status := (status s)(h := if finalize_due w then Finalizing t else Detached),
       pc := (pc s)(t := after_adjust h w)\<rparr>)"
| Claim:
    "pc s t = Fin_Or h \<Longrightarrow> w = inner s h \<Longrightarrow>
     rc_act lim t L_Tau s (s\<lparr>inner := (inner s)(h := w OR ucast INNER_F_FINALIZED),
       pc := (pc s)(t := if inner_flags w AND INNER_F_FINALIZED \<noteq> 0 then Aborted else Fin_Call h)\<rparr>)"
| Callback:
    "pc s t = Fin_Call h \<Longrightarrow>
     rc_act lim t (L_Callback h) s (s\<lparr>calls := (calls s)(h := obj s h # calls s h),
       pc := (pc s)(t := Fin_Free h)\<rparr>)"
| Free_Slot:
    "pc s t = Fin_Free h \<Longrightarrow>
     rc_act lim t L_Tau s (s\<lparr>status := (status s)(h := Unused), pc := (pc s)(t := Idle)\<rparr>)"

definition rc_step :: "nat \<Rightarrow> rc_state \<Rightarrow> rc_state \<Rightarrow> bool" where
  "rc_step lim s s' \<longleftrightarrow> (\<exists>t l. rc_act lim t l s s')"

lemma rc_stepI: "rc_act lim t l s s' \<Longrightarrow> rc_step lim s s'"
  by (auto simp: rc_step_def)

definition rc_init :: "rc_state \<Rightarrow> bool" where
  "rc_init s \<longleftrightarrow>
     (\<forall>c. cbs s c = ucast HANDLE_NULL) \<and> (\<forall>t. pc s t = Idle) \<and> (\<forall>h. status s h = Unused) \<and>
     (\<forall>h. holders s h = {#}) \<and> (\<forall>h. allocs s h = 0 \<and> calls s h = [])"

section \<open>Invariant\<close>

text \<open>
  The number of references held on a version, as the words show it: outer count minus inner
  count while it is published or being detached, minus the inner count once it is detached.
\<close>

definition pins :: "rc_state \<Rightarrow> u32 \<Rightarrow> u32" where
  "pins s h = of_nat (size (holders s h))"

fun ver_ok :: "rc_state \<Rightarrow> u32 \<Rightarrow> vstatus \<Rightarrow> bool" where
  "ver_ok s h Unused \<longleftrightarrow> holders s h = {#} \<and> length (calls s h) = allocs s h"
| "ver_ok s h (Private t) \<longleftrightarrow>
     h \<noteq> HANDLE_NULL \<and> holders s h = {#} \<and> Suc (length (calls s h)) = allocs s h \<and> inner s h = 0"
| "ver_ok s h (Published c) \<longleftrightarrow>
     h \<noteq> HANDLE_NULL \<and> cb_handle (cbs s c) = h \<and> Suc (length (calls s h)) = allocs s h \<and>
     inner s h = pack32 (cb_refs (cbs s c) - pins s h) 0"
| "ver_ok s h (Detaching t r) \<longleftrightarrow>
     (pc s t = Det_Load h r \<or> (\<exists>cur. pc s t = Det_Cas h r cur)) \<and>
     Suc (length (calls s h)) = allocs s h \<and> inner s h = pack32 (r - pins s h) 0"
| "ver_ok s h Detached \<longleftrightarrow>
     holders s h \<noteq> {#} \<and> Suc (length (calls s h)) = allocs s h \<and>
     inner s h = pack32 (- pins s h) INNER_F_DETACHED"
| "ver_ok s h (Finalizing t) \<longleftrightarrow>
     holders s h = {#} \<and>
     (pc s t = Fin_Or h \<and> Suc (length (calls s h)) = allocs s h \<and> inner s h = pack32 0 INNER_F_DETACHED \<or>
      pc s t = Fin_Call h \<and> Suc (length (calls s h)) = allocs s h \<or>
      pc s t = Fin_Free h \<and> length (calls s h) = allocs s h)"

fun pc_ok :: "rc_state \<Rightarrow> nat \<Rightarrow> rc_pc \<Rightarrow> bool" where
  "pc_ok s t Idle \<longleftrightarrow> True"
| "pc_ok s t (Det_Load h r) \<longleftrightarrow> status s h = Detaching t r"
| "pc_ok s t (Det_Cas h r cur) \<longleftrightarrow> status s h = Detaching t r"
| "pc_ok s t (Cx_Cas c e n cur) \<longleftrightarrow> may_install s t n \<and> may_expect s t e"
| "pc_ok s t (Fin_Or h) \<longleftrightarrow> status s h = Finalizing t"
| "pc_ok s t (Fin_Call h) \<longleftrightarrow> status s h = Finalizing t"
| "pc_ok s t (Fin_Free h) \<longleftrightarrow> status s h = Finalizing t"
| "pc_ok s t Aborted \<longleftrightarrow> False"

definition cb_ok :: "rc_state \<Rightarrow> nat \<Rightarrow> bool" where
  "cb_ok s c \<longleftrightarrow>
     cb_handle (cbs s c) = HANDLE_NULL \<or> status s (cb_handle (cbs s c)) = Published c"

definition rc_inv :: "nat \<Rightarrow> rc_state \<Rightarrow> bool" where
  "rc_inv lim s \<longleftrightarrow>
     (\<forall>h. ver_ok s h (status s h)) \<and> (\<forall>h. size (holders s h) \<le> lim) \<and>
     (\<forall>t. pc_ok s t (pc s t)) \<and> (\<forall>c. cb_ok s c) \<and> status s HANDLE_NULL = Unused"

text \<open>
  A step of thread \<open>t\<close> that touches the versions in \<open>H\<close> and the control blocks in \<open>C\<close>
  keeps the invariant if what it touches is in order afterwards, and if it changes the status
  only of versions that no other thread and no other control block relies on.
\<close>

fun own_status :: "nat \<Rightarrow> nat set \<Rightarrow> vstatus \<Rightarrow> bool" where
  "own_status t C Unused \<longleftrightarrow> True"
| "own_status t C (Private u) \<longleftrightarrow> u = t"
| "own_status t C (Published c) \<longleftrightarrow> c \<in> C"
| "own_status t C (Detaching u r) \<longleftrightarrow> u = t"
| "own_status t C Detached \<longleftrightarrow> True"
| "own_status t C (Finalizing u) \<longleftrightarrow> u = t"

fun uses :: "nat \<Rightarrow> nat set \<Rightarrow> vstatus \<Rightarrow> bool" where
  "uses t C (Published c) \<longleftrightarrow> c \<in> C"
| "uses t C (Detaching u r) \<longleftrightarrow> u = t"
| "uses t C (Finalizing u) \<longleftrightarrow> u = t"
| "uses t C _ \<longleftrightarrow> False"

definition untouched :: "rc_state \<Rightarrow> rc_state \<Rightarrow> u32 set \<Rightarrow> nat \<Rightarrow> nat set \<Rightarrow> bool" where
  "untouched s s' H t C \<longleftrightarrow>
     (\<forall>h. h \<notin> H \<longrightarrow> status s' h = status s h \<and> holders s' h = holders s h \<and> inner s' h = inner s h \<and>
        calls s' h = calls s h \<and> allocs s' h = allocs s h) \<and>
     (\<forall>u. u \<noteq> t \<longrightarrow> pc s' u = pc s u) \<and> (\<forall>c. c \<notin> C \<longrightarrow> cbs s' c = cbs s c)"

lemma ver_ok_frame:
  assumes "ver_ok s h st" "\<not> uses t C st"
    and "holders s' h = holders s h" "inner s' h = inner s h" "calls s' h = calls s h"
    "allocs s' h = allocs s h" "\<And>u. u \<noteq> t \<Longrightarrow> pc s' u = pc s u" "\<And>c. c \<notin> C \<Longrightarrow> cbs s' c = cbs s c"
  shows "ver_ok s' h st"
  using assms by (cases st) (auto simp: pins_def)

lemma pc_ok_frame:
  assumes "pc_ok s u p" "u \<noteq> t"
    and keep: "\<And>h. status s' h = status s h \<or> own_status t C (status s h)"
    "\<And>h. u \<in># holders s h \<Longrightarrow> u \<in># holders s' h"
  shows "pc_ok s' u p"
proof -
  have det: "status s' h = Detaching u r" if "status s h = Detaching u r" for h r
    using keep(1) [of h] that assms(2) by auto
  have fin: "status s' h = Finalizing u" if "status s h = Finalizing u" for h
    using keep(1) [of h] that assms(2) by auto
  have priv: "status s' h = Private u" if "status s h = Private u" for h
    using keep(1) [of h] that assms(2) by auto
  show ?thesis
    using assms(1) det fin priv keep(2)
    by (cases p) (auto simp: may_install_def may_expect_def)
qed

lemma rc_inv_step:
  assumes inv: "rc_inv lim s" and fr: "untouched s s' H t C"
    and unused: "\<And>h. h \<notin> H \<Longrightarrow> \<not> uses t C (status s h)"
    and H: "\<And>h. h \<in> H \<Longrightarrow> ver_ok s' h (status s' h)" "\<And>h. h \<in> H \<Longrightarrow> size (holders s' h) \<le> lim"
    and keep: "\<And>h. h \<in> H \<Longrightarrow> status s' h = status s h \<or> own_status t C (status s h)"
    "\<And>h u. h \<in> H \<Longrightarrow> u \<noteq> t \<Longrightarrow> u \<in># holders s h \<Longrightarrow> u \<in># holders s' h"
    and T: "pc_ok s' t (pc s' t)" and C: "\<And>c. c \<in> C \<Longrightarrow> cb_ok s' c" and null: "HANDLE_NULL \<notin> H"
  shows "rc_inv lim s'"
proof -
  have "ver_ok s' h (status s' h)" for h
    using H(1) [of h] ver_ok_frame [of s h "status s h" t C s'] unused [of h] fr inv
    by (cases "h \<in> H") (auto simp: untouched_def rc_inv_def)
  moreover have "size (holders s' h) \<le> lim" for h
    using H(2) [of h] fr inv by (cases "h \<in> H") (auto simp: untouched_def rc_inv_def)
  moreover have "pc_ok s' u (pc s' u)" for u
  proof (cases "u = t")
    case False
    have "status s' h = status s h \<or> own_status t C (status s h)" for h
      using keep(1) [of h] fr by (cases "h \<in> H") (auto simp: untouched_def)
    moreover have "u \<in># holders s h \<Longrightarrow> u \<in># holders s' h" for h
      using keep(2) [of h u] fr False by (cases "h \<in> H") (auto simp: untouched_def)
    moreover have "pc_ok s u (pc s u)" "pc s' u = pc s u"
      using inv fr False by (auto simp: rc_inv_def untouched_def)
    ultimately show ?thesis using pc_ok_frame [of s u "pc s u" t s' C] False by metis
  qed (use T in simp)
  moreover have "cb_ok s' c" for c
  proof (cases "c \<in> C")
    case False
    have "cbs s' c = cbs s c" "cb_ok s c"
      using fr inv False by (auto simp: untouched_def rc_inv_def)
    moreover have "status s' h = Published c" if "status s h = Published c" for h
      using keep(1) [of h] fr that False by (cases "h \<in> H") (auto simp: untouched_def)
    ultimately show ?thesis by (auto simp: cb_ok_def)
  qed (use C in simp)
  moreover have "status s' HANDLE_NULL = Unused"
    using fr inv null by (auto simp: untouched_def rc_inv_def)
  ultimately show ?thesis by (simp add: rc_inv_def)
qed

text \<open>What the invariant says of one version, thread or control block.\<close>

lemma rc_inv_ver: "rc_inv lim s \<Longrightarrow> ver_ok s h (status s h)"
  and rc_inv_size: "rc_inv lim s \<Longrightarrow> size (holders s h) \<le> lim"
  and rc_inv_pc: "rc_inv lim s \<Longrightarrow> pc_ok s t (pc s t)"
  and rc_inv_cb: "rc_inv lim s \<Longrightarrow> cb_ok s c"
  and rc_inv_null: "rc_inv lim s \<Longrightarrow> status s HANDLE_NULL = Unused"
  by (simp_all add: rc_inv_def)

lemma uses_pc:
  assumes "rc_inv lim s" "uses t C (status s h)"
  shows "(\<exists>c\<in>C. cb_handle (cbs s c) = h \<and> h \<noteq> HANDLE_NULL) \<or> (\<exists>r. pc s t = Det_Load h r) \<or>
    (\<exists>r cur. pc s t = Det_Cas h r cur) \<or> pc s t = Fin_Or h \<or> pc s t = Fin_Call h \<or> pc s t = Fin_Free h"
  using rc_inv_ver [OF assms(1), of h] assms(2) by (cases "status s h") auto

lemma held_status:
  assumes "rc_inv lim s" "t \<in># holders s h"
  shows "(\<exists>c. status s h = Published c) \<or> (\<exists>u r. status s h = Detaching u r) \<or> status s h = Detached"
  using rc_inv_ver [OF assms(1), of h] assms(2) by (cases "status s h") auto

section \<open>Preservation\<close>

lemma detached_flag [simp]:
  "INNER_F_DETACHED AND INNER_F_DETACHED = INNER_F_DETACHED" "INNER_F_DETACHED \<noteq> 0"
  "INNER_F_DETACHED AND INNER_F_FINALIZED = 0"
  by (simp_all add: const_defs)

lemma of_nat_pins_eq_0:
  "n < 2 ^ 32 \<Longrightarrow> (of_nat n :: u32) = 0 \<longleftrightarrow> n = 0"
  by (auto simp: word_of_nat_eq_0_iff dest: dvd_imp_le)

lemma step_Make:
  assumes inv: "rc_inv lim s" and g: "pc s t = Idle" "h \<noteq> HANDLE_NULL" "status s h = Unused"
  shows "rc_inv lim (s\<lparr>status := (status s)(h := Private t), inner := (inner s)(h := 0),
       obj := (obj s)(h := 0), allocs := (allocs s)(h := Suc (allocs s h))\<rparr>)"
  by (rule rc_inv_step [OF inv, where H = "{h}" and t = t and C = "{}"])
    (use g rc_inv_ver [OF inv, of h] uses_pc [OF inv, of t "{}"] in
      \<open>auto simp: untouched_def\<close>)

lemma step_Set_Object:
  assumes inv: "rc_inv lim s" and g: "pc s t = Idle"
  shows "rc_inv lim (s\<lparr>obj := (obj s)(h := v)\<rparr>)"
  by (rule rc_inv_step [OF inv, where H = "{}" and t = t and C = "{}"])
    (use g uses_pc [OF inv, of t "{}"] in \<open>auto simp: untouched_def\<close>)

lemma step_Free_Version:
  assumes inv: "rc_inv lim s" and g: "pc s t = Idle" "status s h = Private t"
  shows "rc_inv lim (s\<lparr>status := (status s)(h := Finalizing t), pc := (pc s)(t := Fin_Call h)\<rparr>)"
  by (rule rc_inv_step [OF inv, where H = "{h}" and t = t and C = "{}"])
    (use g rc_inv_ver [OF inv, of h] uses_pc [OF inv, of t "{}"] in
      \<open>auto simp: untouched_def\<close>)

lemma step_Acquire:
  assumes inv: "rc_inv lim s" and g: "pc s t = Idle" "h = cb_handle (cbs s c)"
    "size (holders s h) < lim"
  shows "rc_inv lim (s\<lparr>cbs := (cbs s)(c := cbs s c + REF_COUNT_INC),
       holders := (if h = HANDLE_NULL then holders s
                   else (holders s)(h := add_mset t (holders s h)))\<rparr>)"
proof -
  obtain r where w: "cbs s c = pack32 r h" using g(2) by (metis cb_word.mk_eta)
  show ?thesis
  proof (cases "h = HANDLE_NULL")
    case True
    with w show ?thesis
      by (intro rc_inv_step [OF inv, where H = "{}" and t = t and C = "{c}"])
        (use g(1,3) uses_pc [OF inv, of t "{c}"] in \<open>auto simp: untouched_def cb_ok_def\<close>)
  next
    case False
    with rc_inv_cb [OF inv, of c] w have pub: "status s h = Published c" by (simp add: cb_ok_def)
    with rc_inv_ver [OF inv, of h] w False show ?thesis
      by (intro rc_inv_step [OF inv, where H = "{h}" and t = t and C = "{c}"])
        (use False g(1,3) rc_inv_null [OF inv] uses_pc [OF inv, of t "{c}"] in
          \<open>auto simp: untouched_def cb_ok_def pins_def algebra_simps\<close>)
  qed
qed

lemma step_Release:
  assumes inv: "rc_inv lim s" and lim: "lim < 2 ^ 32" and g: "pc s t = Idle" "t \<in># holders s h"
    "w = inner s h + INNER_CNT_INC"
  shows "rc_inv lim (s\<lparr>inner := (inner s)(h := w),
       holders := (holders s)(h := holders s h - {#t#}),
       status := (if finalize_due w then (status s)(h := Finalizing t) else status s),
       pc := (pc s)(t := after_adjust h w)\<rparr>)"
proof -
  obtain M where M: "holders s h = add_mset t M" using g(2) by (metis insert_DiffM)
  then have pins: "pins s h = of_nat (size M) + 1" by (simp add: pins_def)
  have size: "size M < 2 ^ 32" "size M \<le> lim"
    using rc_inv_size [OF inv, of h] lim M by simp_all
  note unused = uses_pc [OF inv, of t "{}"]
  have null: "h \<noteq> HANDLE_NULL" using rc_inv_null [OF inv] held_status [OF inv g(2)] by auto
  from held_status [OF inv g(2)] show ?thesis
  proof (elim disjE exE)
    assume "status s h = Detached"
    moreover from this have w: "w = pack32 (- of_nat (size M)) INNER_F_DETACHED"
      using rc_inv_ver [OF inv, of h] by (simp add: g(3) pins)
    moreover have "finalize_due w \<longleftrightarrow> M = {#}"
      using of_nat_pins_eq_0 [OF size(1)] by (simp add: w finalize_due_pack)
    ultimately show ?thesis
      by (intro rc_inv_step [OF inv, where H = "{h}" and t = t and C = "{}"])
        (use g unused size null M rc_inv_ver [OF inv, of h] in
          \<open>auto simp: untouched_def after_adjust_def pins_def\<close>)
  next
    fix c assume "status s h = Published c"
    with rc_inv_ver [OF inv, of h] show ?thesis
      by (intro rc_inv_step [OF inv, where H = "{h}" and t = t and C = "{}"])
        (use g unused size null M in
          \<open>auto simp: untouched_def after_adjust_def pins_def finalize_due_pack algebra_simps\<close>)
  next
    fix u r assume "status s h = Detaching u r"
    with rc_inv_ver [OF inv, of h] show ?thesis
      by (intro rc_inv_step [OF inv, where H = "{h}" and t = t and C = "{}"])
        (use g unused size null M in
          \<open>auto simp: untouched_def after_adjust_def pins_def finalize_due_pack algebra_simps\<close>)
  qed
qed

text \<open>
  The successful exchange, shared by both writers: the old version leaves the control block
  with the references taken on it so far, the new one enters with none.
\<close>

lemma step_install:
  assumes inv: "rc_inv lim s" and idle: "pc s t = Idle \<or> (\<exists>c e n cur. pc s t = Cx_Cas c e n cur)"
    and n: "may_install s t n" and old: "old = cbs s c"
  shows "rc_inv lim (s\<lparr>cbs := (cbs s)(c := ucast n),
       status := put_in c n (take_out t old (status s)), pc := (pc s)(t := after_exchange old)\<rparr>)"
    (is "rc_inv lim ?s'")
proof -
  obtain r h where w: "old = pack32 r h" by (rule pack32_cases)
  have cb: "cbs s c = pack32 r h" using old w by simp
  have pub: "status s h = Published c" if "h \<noteq> HANDLE_NULL"
    using that rc_inv_cb [OF inv, of c] by (simp add: cb cb_ok_def)
  have new: "status s n = Private t" "n \<noteq> h" if "n \<noteq> HANDLE_NULL"
    using that n pub by (auto simp: may_install_def)
  note vh = rc_inv_ver [OF inv, of h] and vn = rc_inv_ver [OF inv, of n]
  note defs = put_in_def take_out_def after_exchange_def w
  show ?thesis
  proof (rule rc_inv_step [OF inv, where H = "{h, n} - {HANDLE_NULL}" and t = t and C = "{c}"])
    show "untouched s ?s' ({h, n} - {HANDLE_NULL}) t {c}"
      by (auto simp: untouched_def defs)
    show "\<not> uses t {c} (status s h')" if "h' \<notin> {h, n} - {HANDLE_NULL}" for h'
      using that uses_pc [OF inv, of t "{c}" h'] idle cb by auto
    show "ver_ok ?s' h' (status ?s' h')" if "h' \<in> {h, n} - {HANDLE_NULL}" for h'
    proof (cases "h' = n")
      case True
      with that new vn show ?thesis by (auto simp: defs pins_def)
    next
      case False
      with that pub vh cb show ?thesis by (auto simp: defs pins_def)
    qed
    show "status ?s' h' = status s h' \<or> own_status t {c} (status s h')"
      if "h' \<in> {h, n} - {HANDLE_NULL}" for h'
      using that pub new by (auto simp: defs)
    show "pc_ok ?s' t (pc ?s' t)"
      using pub new by (auto simp: defs)
    show "cb_ok ?s' c'" if "c' \<in> {c}" for c'
      using that by (auto simp: cb_ok_def put_in_def)
  qed (use rc_inv_size [OF inv] in simp_all)
qed

lemma step_pc_only:
  assumes inv: "rc_inv lim s" and H: "\<And>h. uses t {} (status s h) \<Longrightarrow> ver_ok (s\<lparr>pc := (pc s)(t := p)\<rparr>) h (status s h)"
    and T: "pc_ok s t p"
  shows "rc_inv lim (s\<lparr>pc := (pc s)(t := p)\<rparr>)"
proof (rule rc_inv_step [OF inv, where H = "{h. uses t {} (status s h)}" and t = t and C = "{}"])
  show "pc_ok (s\<lparr>pc := (pc s)(t := p)\<rparr>) t (pc (s\<lparr>pc := (pc s)(t := p)\<rparr>) t)"
    using T by (cases p) (auto simp: may_install_def may_expect_def)
qed (use H rc_inv_size [OF inv] rc_inv_null [OF inv] in \<open>auto simp: untouched_def\<close>)

lemma not_using:
  assumes "rc_inv lim s" "pc s t = Idle \<or> (\<exists>c e n cur. pc s t = Cx_Cas c e n cur)"
  shows "\<not> uses t {} (status s h)"
  using uses_pc [OF assms(1), of t "{}" h] assms(2) by auto

lemma step_Cx:
  assumes inv: "rc_inv lim s" and t: "pc s t = Idle \<or> (\<exists>c e n cur. pc s t = Cx_Cas c e n cur)"
    and p: "p = Idle \<or> p = Cx_Cas c e n cur \<and> may_install s t n \<and> may_expect s t e"
  shows "rc_inv lim (s\<lparr>pc := (pc s)(t := p)\<rparr>)"
  by (rule step_pc_only [OF inv]) (use not_using [OF inv t] p in auto)

lemma step_Det:
  assumes inv: "rc_inv lim s" and t: "pc s t = Det_Load h r \<or> (\<exists>cur. pc s t = Det_Cas h r cur)"
  shows "rc_inv lim (s\<lparr>pc := (pc s)(t := Det_Cas h r cur')\<rparr>)"
proof (rule step_pc_only [OF inv])
  from t rc_inv_pc [OF inv, of t] have st: "status s h = Detaching t r" by auto
  then show "pc_ok s t (Det_Cas h r cur')" by simp
  show "ver_ok (s\<lparr>pc := (pc s)(t := Det_Cas h r cur')\<rparr>) h' (status s h')"
    if "uses t {} (status s h')" for h'
    using uses_pc [OF inv that] t st rc_inv_ver [OF inv, of h'] by (auto simp: pins_def)
qed

lemma step_Detach_Ok:
  assumes inv: "rc_inv lim s" and lim: "lim < 2 ^ 32" and t: "pc s t = Det_Cas h r cur"
    and w: "w = detach_next (inner s h) r"
  shows "rc_inv lim (s\<lparr>inner := (inner s)(h := w),
       status := (status s)(h := if finalize_due w then Finalizing t else Detached),
       pc := (pc s)(t := after_adjust h w)\<rparr>)"
proof -
  from t rc_inv_pc [OF inv, of t] have st: "status s h = Detaching t r" by simp
  with rc_inv_ver [OF inv, of h] have v: "inner s h = pack32 (r - pins s h) 0"
    "Suc (length (calls s h)) = allocs s h" by simp_all
  have w': "w = pack32 (- pins s h) INNER_F_DETACHED" by (simp add: w v detach_next_pack)
  have size: "size (holders s h) < 2 ^ 32" using rc_inv_size [OF inv, of h] lim by simp
  have due: "finalize_due w \<longleftrightarrow> holders s h = {#}"
    using of_nat_pins_eq_0 [OF size] by (simp add: w' finalize_due_pack pins_def)
  have null: "h \<noteq> HANDLE_NULL" using rc_inv_null [OF inv] st by auto
  show ?thesis
    by (rule rc_inv_step [OF inv, where H = "{h}" and t = t and C = "{}"])
      (use t st v w' due null rc_inv_size [OF inv, of h] uses_pc [OF inv, of t "{}"] in
        \<open>auto simp: untouched_def after_adjust_def pins_def\<close>)
qed

lemma step_Claim:
  assumes inv: "rc_inv lim s" and t: "pc s t = Fin_Or h" and w: "w = inner s h"
  shows "rc_inv lim (s\<lparr>inner := (inner s)(h := w OR ucast INNER_F_FINALIZED),
       pc := (pc s)(t := if inner_flags w AND INNER_F_FINALIZED \<noteq> 0 then Aborted else Fin_Call h)\<rparr>)"
proof -
  from t rc_inv_pc [OF inv, of t] have st: "status s h = Finalizing t" by simp
  with t rc_inv_ver [OF inv, of h] have v: "holders s h = {#}" "Suc (length (calls s h)) = allocs s h"
    "w = pack32 0 INNER_F_DETACHED" by (simp_all add: w)
  have null: "h \<noteq> HANDLE_NULL" using rc_inv_null [OF inv] st by auto
  show ?thesis
    by (rule rc_inv_step [OF inv, where H = "{h}" and t = t and C = "{}"])
      (use t st v null uses_pc [OF inv, of t "{}"] in \<open>auto simp: untouched_def\<close>)
qed

lemma step_Callback:
  assumes inv: "rc_inv lim s" and t: "pc s t = Fin_Call h"
  shows "rc_inv lim (s\<lparr>calls := (calls s)(h := obj s h # calls s h), pc := (pc s)(t := Fin_Free h)\<rparr>)"
proof -
  from t rc_inv_pc [OF inv, of t] have st: "status s h = Finalizing t" by simp
  with t rc_inv_ver [OF inv, of h] have v: "holders s h = {#}" "Suc (length (calls s h)) = allocs s h"
    by simp_all
  have null: "h \<noteq> HANDLE_NULL" using rc_inv_null [OF inv] st by auto
  show ?thesis
    by (rule rc_inv_step [OF inv, where H = "{h}" and t = t and C = "{}"])
      (use t st v null uses_pc [OF inv, of t "{}"] in \<open>auto simp: untouched_def\<close>)
qed

lemma step_Free_Slot:
  assumes inv: "rc_inv lim s" and t: "pc s t = Fin_Free h"
  shows "rc_inv lim (s\<lparr>status := (status s)(h := Unused), pc := (pc s)(t := Idle)\<rparr>)"
proof -
  from t rc_inv_pc [OF inv, of t] have st: "status s h = Finalizing t" by simp
  with t rc_inv_ver [OF inv, of h] have v: "holders s h = {#}" "length (calls s h) = allocs s h"
    by simp_all
  have null: "h \<noteq> HANDLE_NULL" using rc_inv_null [OF inv] st by auto
  show ?thesis
    by (rule rc_inv_step [OF inv, where H = "{h}" and t = t and C = "{}"])
      (use t st v null uses_pc [OF inv, of t "{}"] in \<open>auto simp: untouched_def\<close>)
qed

lemma rc_inv_init: "rc_init s \<Longrightarrow> rc_inv lim s"
  by (simp add: rc_init_def rc_inv_def cb_ok_def)

lemma rc_inv_preserved:
  assumes lim: "lim < 2 ^ 32" and inv: "rc_inv lim s" and act: "rc_act lim t l s s'"
  shows "rc_inv lim s'"
  using act
proof cases
  case (Make h)
  show ?thesis unfolding Make(2) by (rule step_Make [OF inv Make(3-)])
next
  case (Set_Object h v)
  show ?thesis unfolding Set_Object(2) by (rule step_Set_Object [OF inv Set_Object(3)])
next
  case (Free_Version h)
  show ?thesis unfolding Free_Version(2) by (rule step_Free_Version [OF inv Free_Version(3-)])
next
  case (Acquire h c)
  show ?thesis unfolding Acquire(2) by (rule step_Acquire [OF inv Acquire(3-)])
next
  case (Release h w)
  show ?thesis unfolding Release(2) by (rule step_Release [OF inv lim Release(3-)])
next
  case (Exchange n old c)
  then show ?thesis by (auto intro!: step_install [OF inv] simp del: cb_handle_lo cb_refs_hi)
next
  case (Cx_Load n e c)
  show ?thesis unfolding Cx_Load(2) using Cx_Load(3-)
    by (intro step_Cx [OF inv, where c = c and e = e and n = n]) auto
next
  case (Cx_Mismatch c e n cur)
  then show ?thesis by (auto intro!: step_Cx [OF inv])
next
  case (Cx_Fail c e n cur)
  with rc_inv_pc [OF inv, of t] show ?thesis
    by (auto intro!: step_Cx [OF inv, where c = c and e = e and n = n])
next
  case (Cx_Ok c e n cur)
  with rc_inv_pc [OF inv, of t] show ?thesis
    by (auto intro!: step_install [OF inv])
next
  case (Detach_Ok h r cur w)
  then show ?thesis using step_Detach_Ok [OF inv lim Detach_Ok(3)] by blast
next
  case (Claim h w)
  show ?thesis unfolding Claim(2) by (rule step_Claim [OF inv Claim(3-)])
next
  case (Callback h)
  show ?thesis unfolding Callback(2) by (rule step_Callback [OF inv Callback(3)])
next
  case (Free_Slot h)
  show ?thesis unfolding Free_Slot(2) by (rule step_Free_Slot [OF inv Free_Slot(3)])
qed (auto intro!: step_Det [OF inv] intro: inv)

section \<open>Specification\<close>

text \<open>
  What a gate promises, with no counters: a cell holds a version or nothing; a reader of a cell
  gets the version it holds; a version is destroyed, once and with its content, only when no
  cell holds it, no reader has it and its maker no longer owns it.
\<close>

record snap_state =
  current :: "nat \<Rightarrow> u32 option"
  owner :: "u32 \<Rightarrow> nat option"
  alive :: "u32 set"
  readers :: "u32 \<Rightarrow> nat multiset"
  content :: "u32 \<Rightarrow> nat"
  destroyed :: "u32 \<Rightarrow> nat list"

inductive snap_step :: "snap_state \<Rightarrow> snap_state \<Rightarrow> bool" where
  New: "h \<notin> alive a \<Longrightarrow>
    snap_step a (a\<lparr>alive := insert h (alive a), owner := (owner a)(h := Some t),
      content := (content a)(h := 0)\<rparr>)"
| Write: "owner a h = Some t \<Longrightarrow> snap_step a (a\<lparr>content := (content a)(h := v)\<rparr>)"
| Discard: "owner a h = Some t \<Longrightarrow> snap_step a (a\<lparr>owner := (owner a)(h := None)\<rparr>)"
| Read: "current a c = Some h \<Longrightarrow>
    snap_step a (a\<lparr>readers := (readers a)(h := add_mset t (readers a h))\<rparr>)"
| Done: "t \<in># readers a h \<Longrightarrow>
    snap_step a (a\<lparr>readers := (readers a)(h := readers a h - {#t#})\<rparr>)"
| Clear: "snap_step a (a\<lparr>current := (current a)(c := None)\<rparr>)"
| Replace: "owner a h = Some t \<Longrightarrow>
    snap_step a (a\<lparr>current := (current a)(c := Some h), owner := (owner a)(h := None)\<rparr>)"
| Destroy: "h \<in> alive a \<Longrightarrow> owner a h = None \<Longrightarrow> \<forall>c. current a c \<noteq> Some h \<Longrightarrow> readers a h = {#} \<Longrightarrow>
    snap_step a (a\<lparr>alive := alive a - {h}, destroyed := (destroyed a)(h := content a h # destroyed a h)\<rparr>)"

definition snap_init :: "snap_state \<Rightarrow> bool" where
  "snap_init a \<longleftrightarrow>
     (\<forall>c. current a c = None) \<and> (\<forall>h. owner a h = None) \<and> alive a = {} \<and> (\<forall>h. readers a h = {#}) \<and>
     (\<forall>h. destroyed a h = [])"

definition handle_opt :: "u32 \<Rightarrow> u32 option" where
  "handle_opt h = (if h = HANDLE_NULL then None else Some h)"

fun owner_of :: "vstatus \<Rightarrow> nat option" where
  "owner_of (Private t) = Some t"
| "owner_of _ = None"

definition snap_abs :: "rc_state \<Rightarrow> snap_state" where
  "snap_abs s =
     \<lparr>current = (\<lambda>c. handle_opt (cb_handle (cbs s c))), owner = (\<lambda>h. owner_of (status s h)),
      alive = {h. length (calls s h) < allocs s h}, readers = holders s, content = obj s,
      destroyed = calls s\<rparr>"

lemma snap_abs_simps [simp]:
  "current (snap_abs s) c = handle_opt (cb_handle (cbs s c))"
  "owner (snap_abs s) h = owner_of (status s h)"
  "h \<in> alive (snap_abs s) \<longleftrightarrow> length (calls s h) < allocs s h"
  "readers (snap_abs s) = holders s" "content (snap_abs s) = obj s" "destroyed (snap_abs s) = calls s"
  by (simp_all add: snap_abs_def)

lemma snap_state_eqI:
  "current a = current b \<Longrightarrow> owner a = owner b \<Longrightarrow> alive a = alive b \<Longrightarrow> readers a = readers b \<Longrightarrow>
   content a = content b \<Longrightarrow> destroyed a = destroyed b \<Longrightarrow> a = (b :: snap_state)"
  by simp

lemma snap_install:
  assumes inv: "rc_inv lim s" and n: "may_install s t n" and old: "old = cbs s c"
  shows "snap_step (snap_abs s) (snap_abs (s\<lparr>cbs := (cbs s)(c := ucast n),
       status := put_in c n (take_out t old (status s)), pc := p\<rparr>))"
proof -
  let ?s' = "s\<lparr>cbs := (cbs s)(c := ucast n), status := put_in c n (take_out t old (status s)), pc := p\<rparr>"
  obtain r h where w: "cbs s c = pack32 r h" by (rule pack32_cases)
  have pub: "status s h = Published c" if "h \<noteq> HANDLE_NULL"
    using that rc_inv_cb [OF inv, of c] by (simp add: w cb_ok_def)
  have own: "(\<lambda>h'. owner_of (take_out t old (status s) h')) = (\<lambda>h'. owner_of (status s h'))"
    using pub by (auto simp: take_out_def old w)
  show ?thesis
  proof (cases "n = HANDLE_NULL")
    case True
    then have "snap_abs ?s' = (snap_abs s)\<lparr>current := (current (snap_abs s))(c := None)\<rparr>"
      using own by (intro snap_state_eqI) (auto simp: snap_abs_def put_in_def handle_opt_def)
    then show ?thesis using Clear by simp
  next
    case False
    with n have priv: "status s n = Private t" by (simp add: may_install_def)
    have "owner_of (put_in c n (take_out t old (status s)) h') =
        ((\<lambda>h'. owner_of (status s h'))(n := None)) h'" for h'
      using fun_cong [OF own, of h'] False by (simp add: put_in_def)
    then have "snap_abs ?s' = (snap_abs s)\<lparr>current := (current (snap_abs s))(c := Some n),
        owner := (owner (snap_abs s))(n := None)\<rparr>"
      using False by (intro snap_state_eqI) (auto simp: snap_abs_def handle_opt_def)
    then show ?thesis using Replace [of "snap_abs s" n t c] priv by simp
  qed
qed

lemma snap_refines:
  assumes inv: "rc_inv lim s" and act: "rc_act lim t l s s'"
  shows "snap_step (snap_abs s) (snap_abs s') \<or> snap_abs s' = snap_abs s"
  using act
proof cases
  case (Make h)
  have "snap_abs s' = (snap_abs s)\<lparr>alive := insert h (alive (snap_abs s)),
      owner := (owner (snap_abs s))(h := Some t), content := (content (snap_abs s))(h := 0)\<rparr>"
    using rc_inv_ver [OF inv, of h] Make by (intro snap_state_eqI) (auto simp: snap_abs_def)
  moreover have "h \<notin> alive (snap_abs s)"
    using rc_inv_ver [OF inv, of h] Make by simp
  ultimately show ?thesis using New by metis
next
  case (Set_Object h v)
  have "snap_abs s' = (snap_abs s)\<lparr>content := (content (snap_abs s))(h := v)\<rparr>"
    using Set_Object by (intro snap_state_eqI) (auto simp: snap_abs_def)
  then show ?thesis using Write [of "snap_abs s" h t v] Set_Object by simp
next
  case (Free_Version h)
  have "snap_abs s' = (snap_abs s)\<lparr>owner := (owner (snap_abs s))(h := None)\<rparr>"
    using Free_Version by (intro snap_state_eqI) (auto simp: snap_abs_def)
  then show ?thesis using Discard [of "snap_abs s" h t] Free_Version by simp
next
  case (Acquire h c)
  have cur: "current (snap_abs s') = current (snap_abs s)"
    using Acquire(2) cb_word.tag_inc [of "cbs s c"] by (auto simp del: cb_handle_lo incs_eq)
  show ?thesis
  proof (cases "h = HANDLE_NULL")
    case True
    then have "snap_abs s' = snap_abs s"
      using Acquire(2) cur by (intro snap_state_eqI) (auto simp: snap_abs_def)
    then show ?thesis by blast
  next
    case False
    then have "snap_abs s' =
        (snap_abs s)\<lparr>readers := (readers (snap_abs s))(h := add_mset t (readers (snap_abs s) h))\<rparr>"
      using Acquire(2) cur by (intro snap_state_eqI) (auto simp: snap_abs_def)
    moreover have "current (snap_abs s) c = Some h"
      using False Acquire(4) by (simp add: handle_opt_def)
    ultimately show ?thesis using Read by metis
  qed
next
  case (Release h w)
  have own: "owner_of (status s h) = None" using held_status [OF inv Release(4)] by auto
  have "snap_abs s' = (snap_abs s)\<lparr>readers := (readers (snap_abs s))(h := readers (snap_abs s) h - {#t#})\<rparr>"
    using Release(2) own by (intro snap_state_eqI) (auto simp: snap_abs_def)
  then show ?thesis using Done [of t "snap_abs s" h] Release(4) by simp
next
  case (Exchange n old c)
  then show ?thesis using snap_install [OF inv Exchange(4,5)] by blast
next
  case (Cx_Ok c e n cur)
  then have "may_install s t n" using rc_inv_pc [OF inv, of t] by simp
  with Cx_Ok show ?thesis using snap_install [OF inv, of t n cur c] by blast
next
  case (Detach_Ok h r cur w)
  then have "status s h = Detaching t r" using rc_inv_pc [OF inv, of t] by simp
  then have "snap_abs s' = snap_abs s"
    using Detach_Ok(2) by (intro snap_state_eqI) (auto simp: snap_abs_def)
  then show ?thesis by blast
next
  case (Callback h)
  then have st: "status s h = Finalizing t" using rc_inv_pc [OF inv, of t] by simp
  with rc_inv_ver [OF inv, of h] Callback(3)
  have v: "holders s h = {#}" "Suc (length (calls s h)) = allocs s h" by auto
  have cur: "current (snap_abs s) c \<noteq> Some h" for c
    using rc_inv_cb [OF inv, of c] st by (auto simp: cb_ok_def handle_opt_def)
  have "snap_abs s' = (snap_abs s)\<lparr>alive := alive (snap_abs s) - {h},
      destroyed := (destroyed (snap_abs s))(h := content (snap_abs s) h # destroyed (snap_abs s) h)\<rparr>"
    using Callback(2) v by (intro snap_state_eqI) (auto simp: snap_abs_def)
  then show ?thesis using Destroy [of h "snap_abs s"] st v cur by simp
next
  case (Free_Slot h)
  then have "status s h = Finalizing t" using rc_inv_pc [OF inv, of t] by simp
  then have "snap_abs s' = snap_abs s"
    using Free_Slot(2) by (intro snap_state_eqI) (auto simp: snap_abs_def)
  then show ?thesis by blast
qed (auto intro!: snap_state_eqI simp: snap_abs_def)

abbreviation rc_limit :: nat where
  "rc_limit \<equiv> 2 ^ 32 - 1"

interpretation refcount: simulation rc_init "rc_step rc_limit" "rc_inv rc_limit" snap_init snap_step snap_abs
proof
  show "rc_inv rc_limit s" if "rc_init s" for s
    using that by (rule rc_inv_init)
  show "rc_inv rc_limit t" if "rc_inv rc_limit s" "rc_step rc_limit s t" for s t
    using that by (auto simp: rc_step_def intro: rc_inv_preserved)
  show "snap_init (snap_abs s)" if "rc_init s" for s
    using that by (auto simp: rc_init_def snap_init_def handle_opt_def)
  show "snap_step (snap_abs s) (snap_abs t) \<or> snap_abs t = snap_abs s"
    if "rc_inv rc_limit s" "rc_step rc_limit s t" for s t
    using that by (auto simp: rc_step_def dest: snap_refines)
qed

end
