(* ===== verification/Refcount_Props.thy ===== *)
theory Refcount_Props
  imports Refcount_Conc
begin

text \<open>
  The correctness theorems of the reference-counting protocol, for every interleaving in which
  fewer than \<open>2 ^ 32\<close> references to one version are held at a time, and an execution that
  instantiates them. The last theorem shows that the bound is needed.
\<close>

section \<open>An execution\<close>

text \<open>
  Thread 0 makes version 1 and publishes it in control block 0; thread 1 acquires it; thread 0
  clears the control block and detaches the version while thread 1 holds it; thread 1 releases
  it, which finalizes it.
\<close>

definition run0 :: rc_state where
  "run0 = \<lparr>cbs = (\<lambda>_. ucast HANDLE_NULL), inner = (\<lambda>_. 0), obj = (\<lambda>_. 0), pc = (\<lambda>_. Idle),
     status = (\<lambda>_. Unused), holders = (\<lambda>_. {#}), allocs = (\<lambda>_. 0), calls = (\<lambda>_. [])\<rparr>"

definition run1 :: rc_state where
  "run1 = run0\<lparr>status := (status run0)(1 := Private 0), inner := (inner run0)(1 := 0),
     obj := (obj run0)(1 := 0), allocs := (allocs run0)(1 := Suc (allocs run0 1))\<rparr>"

definition run2 :: rc_state where
  "run2 = run1\<lparr>cbs := (cbs run1)(0 := ucast (1 :: u32)),
     status := put_in 0 1 (take_out 0 (cbs run1 0) (status run1)),
     pc := (pc run1)(0 := after_exchange (cbs run1 0))\<rparr>"

definition run3 :: rc_state where
  "run3 = run2\<lparr>cbs := (cbs run2)(0 := cbs run2 0 + REF_COUNT_INC),
     holders := (if (1 :: u32) = HANDLE_NULL then holders run2
                 else (holders run2)(1 := add_mset 1 (holders run2 1)))\<rparr>"

definition run4 :: rc_state where
  "run4 = run3\<lparr>cbs := (cbs run3)(0 := ucast HANDLE_NULL),
     status := put_in 0 HANDLE_NULL (take_out 0 (cbs run3 0) (status run3)),
     pc := (pc run3)(0 := after_exchange (cbs run3 0))\<rparr>"

definition run5 :: rc_state where
  "run5 = run4\<lparr>pc := (pc run4)(0 := Det_Cas 1 1 (inner run4 1))\<rparr>"

definition run6 :: rc_state where
  "run6 = (let w = detach_next 0 1 in
     run5\<lparr>inner := (inner run5)(1 := w),
       status := (status run5)(1 := if finalize_due w then Finalizing 0 else Detached),
       pc := (pc run5)(0 := after_adjust 1 w)\<rparr>)"

definition run7 :: rc_state where
  "run7 = (let w = inner run6 1 + INNER_CNT_INC in
     run6\<lparr>inner := (inner run6)(1 := w),
       holders := (holders run6)(1 := holders run6 1 - {#1#}),
       status := (if finalize_due w then (status run6)(1 := Finalizing 1) else status run6),
       pc := (pc run6)(1 := after_adjust 1 w)\<rparr>)"

definition run8 :: rc_state where
  "run8 = (let w = inner run7 1 in
     run7\<lparr>inner := (inner run7)(1 := w OR ucast INNER_F_FINALIZED),
       pc := (pc run7)(1 := if inner_flags w AND INNER_F_FINALIZED \<noteq> 0 then Aborted else Fin_Call 1)\<rparr>)"

definition run9 :: rc_state where
  "run9 = run8\<lparr>calls := (calls run8)(1 := obj run8 1 # calls run8 1), pc := (pc run8)(1 := Fin_Free 1)\<rparr>"

definition run10 :: rc_state where
  "run10 = run9\<lparr>status := (status run9)(1 := Unused), pc := (pc run9)(1 := Idle)\<rparr>"

lemma cb0_null: "(0xFFFFFFFF :: u64) = pack32 0 HANDLE_NULL"
  by (simp add: pack32_def HANDLE_NULL_def)

lemma cb0_one: "(1 :: u64) = pack32 0 1"
  by (simp add: pack32_def)

lemma run_words:
  "lo32 0xFFFFFFFF = HANDLE_NULL" "hi32 0xFFFFFFFF = 0" "lo32 1 = 1" "hi32 1 = 0" "(1 :: u32) \<noteq> HANDLE_NULL"
  "lo32 0x100000001 = 1" "hi32 0x100000001 = 1" "(ucast HANDLE_NULL :: u64) = 0xFFFFFFFF"
  by (simp_all add: HANDLE_NULL_def lo32_def hi32_def)

lemma det_word: "detach_next 0 1 = pack32 (- 1) INNER_F_DETACHED"
  using detach_next_pack [of 0 0 1] by simp

lemmas run_simps = run_words det_word finalize_due_pack after_exchange_def after_adjust_def
  put_in_def take_out_def Let_def

lemma run_fields:
  "pc run3 = (\<lambda>_. Idle)" "status run3 = (\<lambda>_. Unused)(1 := Published 0)"
  "holders run3 = (\<lambda>_. {#})(1 := {#1#})" "inner run3 1 = 0" "cbs run3 0 = 0x100000001"
  "allocs run3 = (\<lambda>_. 0)(1 := 1)" "calls run3 = (\<lambda>_. [])"
  by (auto simp: run3_def run2_def run1_def run0_def run_simps)

lemma run_fields6:
  "pc run6 = (\<lambda>_. Idle)" "status run6 = (\<lambda>_. Unused)(1 := Detached)"
  "holders run6 = (\<lambda>_. {#})(1 := {#1#})" "inner run6 1 = pack32 (-1) INNER_F_DETACHED"
  "cbs run6 0 = ucast HANDLE_NULL" "allocs run6 = (\<lambda>_. 0)(1 := 1)" "calls run6 = (\<lambda>_. [])"
  by (auto simp: run6_def run5_def run4_def run_fields run_simps)

lemma run_init: "rc_init run0"
  by (simp add: rc_init_def run0_def)

lemma run_step_3:
  "rc_step rc_limit run0 run1" "rc_step rc_limit run1 run2" "rc_step rc_limit run2 run3"
proof -
  show "rc_step rc_limit run0 run1"
    unfolding run1_def by (rule rc_act.Make [THEN rc_stepI]) (simp_all add: run0_def run_words)
  show "rc_step rc_limit run1 run2"
    unfolding run2_def by (rule rc_act.Exchange [THEN rc_stepI]) (simp_all add: run1_def run0_def may_install_def)
  show "rc_step rc_limit run2 run3"
    unfolding run3_def by (rule rc_act.Acquire [THEN rc_stepI]) (simp_all add: run2_def run1_def run0_def run_simps)
qed

lemma run_step_6:
  "rc_step rc_limit run3 run4" "rc_step rc_limit run4 run5" "rc_step rc_limit run5 run6"
proof -
  show "rc_step rc_limit run3 run4"
    unfolding run4_def by (rule rc_act.Exchange [THEN rc_stepI]) (simp_all add: run_fields may_install_def)
  show "rc_step rc_limit run4 run5"
    unfolding run5_def
    by (rule rc_act.Detach_Load [THEN rc_stepI]) (simp add: run4_def run_fields run_simps)
  show "rc_step rc_limit run5 run6"
    unfolding run6_def Let_def
    by (rule rc_act.Detach_Ok [where cur = 0 and r = 1, THEN rc_stepI])
      (simp_all add: run5_def run4_def run_fields)
qed

lemma run_step_10:
  "rc_step rc_limit run6 run7" "rc_step rc_limit run7 run8" "rc_step rc_limit run8 run9"
  "rc_step rc_limit run9 run10"
proof -
  show "rc_step rc_limit run6 run7"
    unfolding run7_def Let_def by (rule rc_act.Release [THEN rc_stepI]) (simp_all add: run_fields6)
  show "rc_step rc_limit run7 run8"
    unfolding run8_def Let_def
    by (rule rc_act.Claim [THEN rc_stepI]) (simp_all add: run7_def run_fields6 run_simps)
  show "rc_step rc_limit run8 run9"
    unfolding run9_def
    by (rule rc_act.Callback [THEN rc_stepI]) (simp add: run8_def run7_def run_fields6 run_simps)
  show "rc_step rc_limit run9 run10"
    unfolding run10_def
    by (rule rc_act.Free_Slot [THEN rc_stepI]) (simp add: run9_def)
qed

lemma run_reach:
  "reach rc_init (rc_step rc_limit) run0" "reach rc_init (rc_step rc_limit) run3"
  "reach rc_init (rc_step rc_limit) run6" "reach rc_init (rc_step rc_limit) run10"
proof -
  show r0: "reach rc_init (rc_step rc_limit) run0" using run_init by (rule reach_init)
  show r3: "reach rc_init (rc_step rc_limit) run3"
    by (rule reach_step [OF reach_step [OF reach_step [OF r0 run_step_3(1)] run_step_3(2)] run_step_3(3)])
  show r6: "reach rc_init (rc_step rc_limit) run6"
    by (rule reach_step [OF reach_step [OF reach_step [OF r3 run_step_6(1)] run_step_6(2)] run_step_6(3)])
  show "reach rc_init (rc_step rc_limit) run10"
    by (rule reach_step [OF reach_step [OF reach_step [OF reach_step [OF r6 run_step_10(1)]
          run_step_10(2)] run_step_10(3)] run_step_10(4)])
qed

section \<open>Safety\<close>

text \<open>
  Claim C1. A version that some thread has acquired and not yet released is not reclaimed: it is
  in use, its callback has not run, and no thread is reclaiming it, whatever the other threads
  do.
\<close>

theorem no_use_after_free:
  assumes "reach rc_init (rc_step rc_limit) s" "t \<in># holders s h"
  shows "status s h \<noteq> Unused \<and> length (calls s h) < allocs s h \<and>
    (\<forall>u. pc s u \<noteq> Fin_Or h \<and> pc s u \<noteq> Fin_Call h \<and> pc s u \<noteq> Fin_Free h)"
proof -
  note inv = refcount.inv_reach [OF assms(1)]
  have "pc s u \<noteq> Fin_Or h \<and> pc s u \<noteq> Fin_Call h \<and> pc s u \<noteq> Fin_Free h" for u
    using rc_inv_pc [OF inv, of u] held_status [OF inv assms(2)] by auto
  with held_status [OF inv assms(2)] rc_inv_ver [OF inv, of h] show ?thesis by auto
qed

theorem no_use_after_free_witness:
  "status run6 1 = Detached \<and> length (calls run6 1) < allocs run6 1"
  using no_use_after_free [OF run_reach(3), of 1 1] by (simp add: run_fields6)

text \<open>
  Claim C2. The callback runs exactly once for each time a version is made: its runs are one
  behind the allocations as long as the version is in use, and equal to them once the version is
  returned to the pool (or about to be).
\<close>

theorem callback_exactly_once:
  assumes "reach rc_init (rc_step rc_limit) s"
  shows "allocs s h =
    length (calls s h) + (if status s h = Unused \<or> (\<exists>t. pc s t = Fin_Free h) then 0 else 1)"
proof -
  note inv = refcount.inv_reach [OF assms]
  show ?thesis
  proof (cases "\<exists>t. pc s t = Fin_Free h")
    case True
    then obtain t where t: "pc s t = Fin_Free h" ..
    with rc_inv_pc [OF inv, of t] have "status s h = Finalizing t" by simp
    with rc_inv_ver [OF inv, of h] t True show ?thesis by simp
  next
    case False
    with rc_inv_ver [OF inv, of h] show ?thesis
      by (cases "status s h") (simp_all, elim conjE disjE, simp_all)
  qed
qed

theorem callback_exactly_once_witness: "allocs run10 1 = 1 \<and> length (calls run10 1) = 1"
proof -
  have "allocs run10 1 = 1" "status run10 1 = Unused"
    by (simp_all add: run10_def run9_def run8_def run7_def run_fields6 Let_def)
  with callback_exactly_once [OF run_reach(4), of 1] show ?thesis by simp
qed

text \<open>
  The double-finalize check of \<open>try_finalize\<close> never fires: no reachable state has an
  aborted thread, and a thread about to claim a version finds the FINALIZED flag clear.
\<close>

theorem double_finalize_unreachable:
  assumes "reach rc_init (rc_step rc_limit) s"
  shows "pc s t \<noteq> Aborted \<and> (pc s t = Fin_Or h \<longrightarrow> inner_flags (inner s h) AND INNER_F_FINALIZED = 0)"
proof -
  note inv = refcount.inv_reach [OF assms]
  have "inner_flags (inner s h) AND INNER_F_FINALIZED = 0" if "pc s t = Fin_Or h"
  proof -
    have "status s h = Finalizing t" using rc_inv_pc [OF inv, of t] that by simp
    with rc_inv_ver [OF inv, of h] that show ?thesis by simp
  qed
  moreover have "pc s t \<noteq> Aborted" using rc_inv_pc [OF inv, of t] by auto
  ultimately show ?thesis by blast
qed

theorem double_finalize_unreachable_witness:
  "pc run7 1 = Fin_Or 1 \<and> inner_flags (inner run7 1) AND INNER_F_FINALIZED = 0"
proof -
  have "pc run7 1 = Fin_Or 1" by (simp add: run7_def run_fields6 run_simps)
  with double_finalize_unreachable [OF reach_step [OF run_reach(3) run_step_10(1)], of 1 1]
  show ?thesis by blast
qed

text \<open>
  Claim C6. Nothing leaks: when every operation has returned, a version that is in no control
  block, held by no reader and not kept private by its maker is back in the pool, with its
  callback run.
\<close>

theorem no_leak_at_rest:
  assumes "reach rc_init (rc_step rc_limit) s" "\<forall>t. pc s t = Idle" "holders s h = {#}"
    "\<forall>c. cb_handle (cbs s c) \<noteq> h" "\<forall>t. status s h \<noteq> Private t"
  shows "status s h = Unused \<and> length (calls s h) = allocs s h"
  using rc_inv_ver [OF refcount.inv_reach [OF assms(1)], of h] assms(2-)
  by (cases "status s h") auto

theorem no_leak_at_rest_witness: "status run10 1 = Unused \<and> length (calls run10 1) = allocs run10 1"
proof -
  have run: "pc run10 = (\<lambda>_. Idle)" "holders run10 1 = {#}" "status run10 1 = Unused"
    "\<And>c. cbs run10 c = cbs run6 c"
    by (auto simp: run10_def run9_def run8_def run7_def run_fields6 run_simps)
  have "cbs run6 = (\<lambda>_. ucast HANDLE_NULL)"
    by (auto simp: run6_def run5_def run4_def run3_def run2_def run1_def run0_def Let_def)
  with run(4) run_words(5) have "\<forall>c. cb_handle (cbs run10 c) \<noteq> 1" by (metis cb_handle_lo lo32_ucast)
  with no_leak_at_rest [OF run_reach(4), of 1] run show ?thesis by simp
qed


section \<open>Snapshots\<close>

lemma held_step:
  assumes inv: "rc_inv lim s" and step: "rc_step lim s s'" and held: "t \<in># holders s h"
  shows "obj s' h = obj s h \<and> allocs s' h = allocs s h"
proof -
  from step obtain u l where "rc_act lim u l s s'" by (auto simp: rc_step_def)
  then show ?thesis using held_status [OF inv held] by cases auto
qed

text \<open>
  Claim C4. While a thread holds a version, however many steps the others take, the version
  keeps its object and is not handed out again: the reader's snapshot is stable.
\<close>

theorem snapshot_stable:
  assumes "reach rc_init (rc_step rc_limit) s" "t \<in># holders s h"
    "(\<lambda>a b. rc_step rc_limit a b \<and> t \<in># holders b h)\<^sup>*\<^sup>* s s'"
  shows "obj s' h = obj s h \<and> allocs s' h = allocs s h \<and> status s' h \<noteq> Unused"
proof -
  have "rc_inv rc_limit s' \<and> t \<in># holders s' h \<and> obj s' h = obj s h \<and> allocs s' h = allocs s h"
    using assms(3)
  proof (induction rule: rtranclp_induct)
    case base
    with refcount.inv_reach [OF assms(1)] assms(2) show ?case by blast
  next
    case (step a b)
    then show ?case using held_step [of rc_limit a b t h] refcount.inv_step [of a b] by auto
  qed
  then show ?thesis using held_status [of rc_limit s' t h] by auto
qed

theorem snapshot_stable_witness: "obj run6 1 = obj run3 1 \<and> allocs run6 1 = allocs run3 1"
proof -
  have "holders run4 1 = {#1#}" "holders run5 1 = {#1#}" "holders run6 1 = {#1#}"
    by (simp_all add: run6_def run5_def run4_def run_fields Let_def)
  with run_step_6 have "(\<lambda>a b. rc_step rc_limit a b \<and> 1 \<in># holders b 1)\<^sup>*\<^sup>* run3 run6"
    by (intro rtranclp_steps3 [of _ run3 run4 run5 run6]) simp_all
  with snapshot_stable [OF run_reach(2), of 1 1 run6] show ?thesis by (simp add: run_fields)
qed

text \<open>
  Claim C5. Compare-exchange has no ABA problem for a caller that holds the expected version:
  between its first load and its successful compare-and-swap the expected handle names one and
  the same version, which is published in that control block when it is taken out.
\<close>

theorem compare_exchange_no_aba:
  assumes "reach rc_init (rc_step rc_limit) s" "pc s t = Cx_Cas c e n cur0" "e \<noteq> HANDLE_NULL"
    "(\<lambda>a b. rc_step rc_limit a b \<and> (\<exists>cur. pc b t = Cx_Cas c e n cur))\<^sup>*\<^sup>* s s'"
    "cb_handle (cbs s' c) = e"
  shows "allocs s' e = allocs s e \<and> obj s' e = obj s e \<and> status s' e = Published c"
proof -
  have "rc_inv rc_limit s' \<and> (\<exists>cur. pc s' t = Cx_Cas c e n cur) \<and> obj s' e = obj s e \<and>
      allocs s' e = allocs s e"
    using assms(4)
  proof (induction rule: rtranclp_induct)
    case base
    with refcount.inv_reach [OF assms(1)] assms(2) show ?case by blast
  next
    case (step a b)
    then obtain cur where "pc a t = Cx_Cas c e n cur" by blast
    with step rc_inv_pc [of rc_limit a t] assms(3) have "t \<in># holders a e"
      by (auto simp: may_expect_def)
    with step show ?case using held_step [of rc_limit a b t e] refcount.inv_step [of a b] by auto
  qed
  with rc_inv_cb [of rc_limit s' c] assms(3,5) show ?thesis by (auto simp: cb_ok_def)
qed

text \<open>
  Thread 1, which holds version 1, makes version 2 and starts to replace the former by it.
\<close>

definition run_cx1 :: rc_state where
  "run_cx1 = run3\<lparr>status := (status run3)(2 := Private 1), inner := (inner run3)(2 := 0),
     obj := (obj run3)(2 := 0), allocs := (allocs run3)(2 := Suc (allocs run3 2))\<rparr>"

definition run_cx2 :: rc_state where
  "run_cx2 = run_cx1\<lparr>pc := (pc run_cx1)(1 := Cx_Cas 0 1 2 (cbs run_cx1 0))\<rparr>"

lemma run_cx_reach: "reach rc_init (rc_step rc_limit) run_cx2"
proof -
  have "rc_step rc_limit run3 run_cx1"
    unfolding run_cx1_def by (rule rc_act.Make [THEN rc_stepI]) (simp_all add: run_fields HANDLE_NULL_def)
  moreover have "rc_step rc_limit run_cx1 run_cx2"
    unfolding run_cx2_def
    by (rule rc_act.Cx_Load [THEN rc_stepI]) (simp_all add: run_cx1_def run_fields run_words may_install_def may_expect_def)
  ultimately show ?thesis using run_reach(2) by (blast intro: reach_step)
qed

theorem compare_exchange_no_aba_witness: "status run_cx2 1 = Published 0"
proof -
  have "pc run_cx2 1 = Cx_Cas 0 1 2 0x100000001" "cb_handle (cbs run_cx2 0) = 1"
    by (simp_all add: run_cx2_def run_cx1_def run_fields run_words)
  with compare_exchange_no_aba [OF run_cx_reach, of 1 0 1 2 "0x100000001" run_cx2] show ?thesis
    by (simp add: run_words)
qed

text \<open>
  Claim C3. The library implements its specification: every reachable state of the counting
  protocol abstracts to a reachable state of the snapshot register, in which a version is
  destroyed only when no cell and no reader refers to it.
\<close>

theorem refcount_refines_snapshot:
  assumes "reach rc_init (rc_step rc_limit) s"
  shows "reach snap_init snap_step (snap_abs s)"
  using assms by (rule refcount.abs_reach)

theorem refcount_refines_snapshot_witness: "reach snap_init snap_step (snap_abs run10)"
  by (rule refcount_refines_snapshot [OF run_reach(4)])

section \<open>The bound is needed\<close>

lemma run2_fields:
  "pc run2 = (\<lambda>_. Idle)" "status run2 = (\<lambda>_. Unused)(1 := Published 0)"
  "holders run2 = (\<lambda>_. {#})" "inner run2 = (\<lambda>_. 0)" "cbs run2 0 = pack32 0 1"
  "allocs run2 = (\<lambda>_. 0)(1 := 1)" "calls run2 = (\<lambda>_. [])"
  by (auto simp: run2_def run1_def run0_def run_simps cb0_one)

text \<open>The state after thread 1 has acquired version 1 \<open>n\<close> times more than in \<open>run2\<close>.\<close>

definition acquired :: "nat \<Rightarrow> rc_state" where
  "acquired n = run2\<lparr>cbs := (cbs run2)(0 := pack32 (of_nat n) 1),
     holders := (holders run2)(1 := replicate_mset n 1)\<rparr>"

lemma acquired_reach:
  "n \<le> lim \<Longrightarrow> 0 < lim \<Longrightarrow> reach rc_init (rc_step lim) (acquired n)"
proof (induction n)
  case 0
  have "rc_step lim run0 run1"
    unfolding run1_def by (rule rc_act.Make [THEN rc_stepI]) (simp_all add: run0_def run_words)
  moreover have "rc_step lim run1 run2"
    unfolding run2_def by (rule rc_act.Exchange [THEN rc_stepI]) (simp_all add: run1_def run0_def may_install_def)
  moreover have "acquired 0 = run2"
    by (simp add: acquired_def run2_fields fun_upd_idem)
  ultimately show ?case using reach_init [of rc_init, OF run_init] by (metis reach_step)
next
  case (Suc n)
  have "rc_step lim (acquired n) (acquired n\<lparr>cbs := (cbs (acquired n))(0 := cbs (acquired n) 0 + REF_COUNT_INC),
       holders := (if (1 :: u32) = HANDLE_NULL then holders (acquired n)
                   else (holders (acquired n))(1 := add_mset 1 (holders (acquired n) 1)))\<rparr>)"
    using Suc.prems by (intro rc_act.Acquire [THEN rc_stepI]) (simp_all add: acquired_def run2_fields)
  moreover have "acquired n\<lparr>cbs := (cbs (acquired n))(0 := cbs (acquired n) 0 + REF_COUNT_INC),
       holders := (if (1 :: u32) = HANDLE_NULL then holders (acquired n)
                   else (holders (acquired n))(1 := add_mset 1 (holders (acquired n) 1)))\<rparr> = acquired (Suc n)"
    by (simp add: acquired_def run_words add.commute)
  ultimately show ?case using Suc by (metis Suc_leD reach_step)
qed

lemma premature_reclaim:
  assumes "0 < lim" "(of_nat lim :: u32) = 0"
  shows "\<exists>s. reach rc_init (rc_step lim) s \<and> size (holders s 1) = lim \<and>
     status s 1 = Unused \<and> length (calls s 1) = allocs s 1"
proof -
  define a where "a = acquired lim"
  have a: "reach rc_init (rc_step lim) a" "pc a = (\<lambda>_. Idle)" "cbs a 0 = pack32 0 1" "inner a = (\<lambda>_. 0)"
    "holders a 1 = replicate_mset lim 1" "allocs a 1 = 1" "calls a 1 = []" "status a 1 = Published 0"
    unfolding a_def using acquired_reach [of lim lim] assms by (simp_all add: acquired_def run2_fields)
  let ?w = "detach_next 0 0"
  have w: "?w = pack32 0 INNER_F_DETACHED" using detach_next_pack [of 0 0 0] by simp
  define b where "b = a\<lparr>cbs := (cbs a)(0 := ucast HANDLE_NULL),
     status := put_in 0 HANDLE_NULL (take_out 0 (cbs a 0) (status a)),
     pc := (pc a)(0 := after_exchange (cbs a 0))\<rparr>"
  define c where "c = b\<lparr>pc := (pc b)(0 := Det_Cas 1 0 (inner b 1))\<rparr>"
  define d where "d = c\<lparr>inner := (inner c)(1 := ?w),
     status := (status c)(1 := if finalize_due ?w then Finalizing 0 else Detached),
     pc := (pc c)(0 := after_adjust 1 ?w)\<rparr>"
  define e where "e = d\<lparr>inner := (inner d)(1 := ?w OR ucast INNER_F_FINALIZED),
     pc := (pc d)(0 := if inner_flags ?w AND INNER_F_FINALIZED \<noteq> 0 then Aborted else Fin_Call 1)\<rparr>"
  define f where "f = e\<lparr>calls := (calls e)(1 := obj e 1 # calls e 1), pc := (pc e)(0 := Fin_Free 1)\<rparr>"
  define g where "g = f\<lparr>status := (status f)(1 := Unused), pc := (pc f)(0 := Idle)\<rparr>"
  have "rc_step lim a b" unfolding b_def
    by (rule rc_act.Exchange [THEN rc_stepI]) (simp_all add: a may_install_def)
  moreover have "rc_step lim b c" unfolding c_def
    by (rule rc_act.Detach_Load [THEN rc_stepI]) (simp add: b_def a after_exchange_def run_words)
  moreover have "rc_step lim c d" unfolding d_def
    by (rule rc_act.Detach_Ok [where cur = 0 and r = 0, THEN rc_stepI]) (simp_all add: c_def b_def a)
  moreover have "rc_step lim d e" unfolding e_def
    by (rule rc_act.Claim [THEN rc_stepI]) (simp_all add: d_def after_adjust_def finalize_due_pack w)
  moreover have "rc_step lim e f" unfolding f_def
    by (rule rc_act.Callback [THEN rc_stepI]) (simp add: e_def w)
  moreover have "rc_step lim f g" unfolding g_def
    by (rule rc_act.Free_Slot [THEN rc_stepI]) (simp add: f_def)
  ultimately have "reach rc_init (rc_step lim) g" using a(1) by (metis reach_step)
  moreover have "holders g 1 = replicate_mset lim 1" "status g 1 = Unused" "length (calls g 1) = allocs g 1"
    by (simp_all add: g_def f_def e_def d_def c_def b_def a)
  ultimately show ?thesis by (metis size_replicate_mset)
qed

text \<open>
  Claim C28. With \<open>2 ^ 32\<close> references to one version held at once the counters wrap to zero: a
  writer then runs the callback and returns the slot to the pool while all of the references are
  still held. The bound of the theorems above is the exact one.
\<close>

theorem wraparound_premature_reclaim:
  "\<exists>s. reach rc_init (rc_step (2 ^ 32)) s \<and> size (holders s 1) = 2 ^ 32 \<and>
     status s 1 = Unused \<and> length (calls s 1) = allocs s 1"
  by (rule premature_reclaim) simp_all

end
