(* ===== verification/Seq_Refines.thy ===== *)
theory Seq_Refines
  imports Versions_Props Refcount_Props
begin

text \<open>
  The two models of the interface fit together: a call of the functions of \<open>Versions\<close>, on the
  full state with arenas and heap, is a run of the atomic steps of \<open>Refcount_Conc\<close> by one
  thread, from states that correspond to states that correspond. What is shown of the steps
  therefore holds of the code as \<open>Versions\<close> transcribes it, and the calls return without any of
  the errors of \<open>Machine\<close> as long as the caller keeps the rules of the steps.
\<close>

section \<open>What a call leaves alone\<close>

lemma free_slot_loop_reads: "free_slot_loop n arena slot h old_top s = Inr s' \<Longrightarrow> reads_but slot s s'"
proof (induction n arena slot h old_top s rule: free_slot_loop.induct)
  case (1 n arena slot h old_top s)
  from 1(2) obtain s1 m where m: "version_modify slot (next_handle_update (\<lambda>_. top_slot old_top)) s = Inr s1"
    "arena_at s1 arena m" by (subst (asm) free_slot_loop.simps) (auto simp: Let_def)
  note s1 = version_modify_reads [OF m(1)]
  obtain ok obj expected where c: "cas_weak (0 < n) (top_handle m) old_top (free_slot_new_top old_top h) =
      (ok, obj, expected)" using prod_cases3 by blast
  with 1(2) m have eq: "(if ok then Inr (arena_write arena (m\<lparr>top_handle := obj\<rparr>) s1)
      else free_slot_loop (n - 1) arena slot h expected s1) = Inr s'"
    by (subst (asm) free_slot_loop.simps) (simp add: Let_def)
  show ?case
  proof (cases ok)
    case True
    with eq reads_but_trans [OF s1 arena_top_reads [OF m(2), of slot obj]] show ?thesis by simp
  next
    case False
    with eq have "free_slot_loop (n - 1) arena slot h expected s1 = Inr s'" by simp
    moreover from 1(1) [OF refl m(1)] m(2) c False
    have "free_slot_loop (n - 1) arena slot h expected s1 = Inr s' \<Longrightarrow> reads_but slot s1 s'" by simp
    ultimately show ?thesis using s1 by (blast intro: reads_but_trans)
  qed
qed

lemma free_slot_reads:
  assumes "free_slot p s = Inr s'"
  shows "reads_but p s s'"
proof -
  from assms obtain n arena h top_w where
    "free_slot_loop n arena p h top_w (s\<lparr>cas_clk := Suc (cas_clk s)\<rparr>) = Inr s'"
    by (auto simp: free_slot_def next_spurious_def Let_def)
  from free_slot_loop_reads [OF this] reads_but_same [of s "s\<lparr>cas_clk := Suc (cas_clk s)\<rparr>" p]
  show ?thesis by (auto simp: same_arenas_def intro: reads_but_trans)
qed

lemma finalize_and_free_reads:
  assumes "finalize_and_free p s = Inr s'"
  shows "reads_but p s s'"
proof -
  from assms obtain v s1 where s1: "call_free_impl v s = Inr s1" "free_slot p s1 = Inr s'"
    by (auto simp: finalize_and_free_def)
  have "same_arenas s s1"
    using s1(1) by (auto simp: call_free_impl_def same_arenas_def gate_read_def split: if_splits option.splits)
  with free_slot_reads [OF s1(2)] show ?thesis by (blast intro: reads_but_trans reads_but_same)
qed

lemma try_finalize_reads:
  assumes "try_finalize p w s = Inr s'"
  shows "reads_but p s s'"
  using assms
  by (auto simp: try_finalize_def Let_def split: if_splits
      intro: reads_but_trans [OF version_modify_reads finalize_and_free_reads])

lemma detach_and_adjust_reads:
  assumes "detach_and_adjust p r s = Inr s'"
  shows "reads_but p s s'"
proof -
  let ?s1 = "s\<lparr>cas_clk := Suc (cas_clk s)\<rparr>"
  have same: "same_arenas s ?s1" by (simp add: same_arenas_def)
  from assms obtain v where v: "version_read s p = Inr v" by (auto simp: detach_and_adjust_def)
  then have v1: "version_read ?s1 p = Inr v" using same_arenas_version_read [OF same] by simp
  from assms v obtain s2 where "version_modify p (inner_state_update (\<lambda>_. detach_next (inner_state v) r)) ?s1 = Inr s2"
    "try_finalize p (detach_next (inner_state v) r) s2 = Inr s'"
    by (auto simp: detach_and_adjust_def next_spurious_def detach_loop_eq [OF v1])
  then show ?thesis
    by (blast intro: reads_but_trans reads_but_same [OF same] version_modify_reads try_finalize_reads)
qed

section \<open>Corresponding states\<close>

text \<open>
  Between two calls: the control blocks of the gate and the inner states and objects of all
  versions in use agree, and exactly the versions that are not \<open>Unused\<close> are in use.
\<close>

definition seq_rel :: "ptr \<Rightarrow> thread_context \<Rightarrow> gstate \<Rightarrow> rc_state \<Rightarrow> bool" where
  "seq_rel gp ctx s r \<longleftrightarrow>
     alloc_wf ctx s \<and> callback_of s gp \<noteq> 0 \<and> rc_inv rc_limit r \<and> (\<forall>t. pc r t = Idle) \<and>
     (\<forall>c w. read_cb gp (int c) s = Inr w \<longrightarrow> cbs r c = w) \<and>
     (\<forall>h. status r h = Unused \<longleftrightarrow> h \<notin> in_use ctx s) \<and>
     (\<forall>h p v. h \<in> in_use ctx s \<longrightarrow> resolve_handle s h = Some p \<longrightarrow> version_read s p = Inr v \<longrightarrow>
        inner_state v = inner r h \<and> object v = obj r h \<and> gate v = gp)"

lemma seq_rel_D:
  assumes "seq_rel gp ctx s r"
  shows "alloc_wf ctx s" "callback_of s gp \<noteq> 0" "rc_inv rc_limit r" "pc r t = Idle"
    "read_cb gp (int c) s = Inr w \<Longrightarrow> cbs r c = w" "status r h = Unused \<longleftrightarrow> h \<notin> in_use ctx s"
  using assms by (simp_all add: seq_rel_def)

lemma seq_rel_agree:
  assumes "seq_rel gp ctx s r" "h \<in> in_use ctx s" "resolve_handle s h = Some p" "version_read s p = Inr v"
  shows "inner_state v = inner r h" "object v = obj r h" "gate v = gp"
  using assms unfolding seq_rel_def by blast+

lemma seq_rel_version:
  assumes rel: "seq_rel gp ctx s r" and h: "status r h \<noteq> Unused"
  obtains p v where "resolve_handle s h = Some p" "live_version ctx s h p v" "handle_of (Some p) s = Inr h"
    "inner_state v = inner r h" "object v = obj r h" "gate v = gp"
proof -
  have use: "h \<in> in_use ctx s" using seq_rel_D(6) [OF rel] h by blast
  have st: "alloc_st ctx s (in_use ctx s)" using seq_rel_D(1) [OF rel] by (simp add: alloc_st_iff)
  obtain p v where p: "resolve_handle s h = Some p" "version_read s p = Inr v" "self_handle v = h"
    by (rule in_use_version [OF st use]) blast
  have v: "inner_state v = inner r h" "object v = obj r h" "gate v = gp"
    using seq_rel_agree [OF rel use p(1,2)] by simp_all
  show thesis
    by (rule that [OF p(1)]) (use seq_rel_D(1,2) [OF rel] use p v in \<open>simp_all add: live_version_def handle_of_def\<close>)
qed

text \<open>A call that works on version \<open>h\<close> in slot \<open>p\<close> keeps the correspondence if it does for that version.\<close>

lemma seq_rel_update:
  assumes rel: "seq_rel gp ctx s r" and p: "status r h \<noteq> Unused" "resolve_handle s h = Some p"
    and s': "alloc_wf ctx s'" "callback_of s' gp \<noteq> 0" "g_arena_table s' = g_arena_table s" "reads_but p s s'"
      "in_use ctx s' = in_use ctx s \<or> in_use ctx s' = in_use ctx s - {h}"
    and r': "rc_inv rc_limit r'" "\<And>t. pc r' t = Idle" "\<And>c w. read_cb gp (int c) s' = Inr w \<Longrightarrow> cbs r' c = w"
      "\<And>h'. h' \<noteq> h \<Longrightarrow> inner r' h' = inner r h' \<and> obj r' h' = obj r h' \<and> (status r' h' = Unused \<longleftrightarrow> status r h' = Unused)"
    and h: "if h \<in> in_use ctx s' then status r' h \<noteq> Unused \<and>
        (\<exists>v. version_read s' p = Inr v \<and> inner_state v = inner r' h \<and> object v = obj r' h \<and> gate v = gp)
      else status r' h = Unused"
  shows "seq_rel gp ctx s' r'"
proof -
  note D = seq_rel_D [OF rel]
  have hu: "h \<in> in_use ctx s" using D(6) p(1) by blast
  have res: "resolve_handle s' h' = resolve_handle s h'" for h' using s'(3) by (simp add: resolve_handle_def)
  have "status r' h' = Unused \<longleftrightarrow> h' \<notin> in_use ctx s'" for h'
  proof (cases "h' = h")
    case True
    with h show ?thesis by (simp split: if_splits)
  next
    case False
    then have "h' \<in> in_use ctx s' \<longleftrightarrow> h' \<in> in_use ctx s" using s'(5) by blast
    with r'(4) [OF False] D(6) [of h'] show ?thesis by simp
  qed
  moreover have "inner_state v = inner r' h' \<and> object v = obj r' h' \<and> gate v = gp"
    if "h' \<in> in_use ctx s'" "resolve_handle s' h' = Some q" "version_read s' q = Inr v" for h' q v
  proof (cases "h' = h")
    case True
    with that(2) res p(2) have "q = p" by simp
    with h True that(1,3) show ?thesis by simp
  next
    case False
    have use: "h' \<in> in_use ctx s" using that(1) s'(5) by blast
    have rq: "resolve_handle s h' = Some q" using that(2) res by simp
    have "q \<noteq> p" using slot_of_one [OF D(1) use hu rq] False p(2) by blast
    then have "version_read s q = Inr v" using that(3) s'(4) unfolding reads_but_def by metis
    from seq_rel_agree [OF rel use rq this] r'(4) [OF False] show ?thesis by simp
  qed
  ultimately show ?thesis using s'(1,2) r'(1-3) unfolding seq_rel_def by blast
qed

section \<open>Runs of one thread\<close>

inductive rc_run :: "nat \<Rightarrow> rc_label list \<Rightarrow> rc_state \<Rightarrow> rc_state \<Rightarrow> bool" for t :: nat where
  Stop: "rc_run t [] r r"
| Step: "rc_act rc_limit t l r r1 \<Longrightarrow> rc_run t ls r1 r' \<Longrightarrow> rc_run t (l # ls) r r'"

lemma rc_limit_less: "rc_limit < 2 ^ 32"
  by simp

lemma rc_run_inv: "rc_run t ls r r' \<Longrightarrow> rc_inv rc_limit r \<Longrightarrow> rc_inv rc_limit r'"
  by (induction rule: rc_run.induct) (blast intro: rc_inv_preserved [OF rc_limit_less])+

lemma rc_run_reach: "rc_run t ls r r' \<Longrightarrow> reach rc_init (rc_step rc_limit) r \<Longrightarrow> reach rc_init (rc_step rc_limit) r'"
  by (induction rule: rc_run.induct) (auto intro: reach_step rc_stepI)

text \<open>The objects given to the callback in a run.\<close>

definition called :: "rc_state \<Rightarrow> rc_label list \<Rightarrow> ptr list" where
  "called r ls = concat (map (\<lambda>l. case l of L_Callback h \<Rightarrow> [obj r h] | _ \<Rightarrow> []) ls)"

text \<open>
  From \<open>try_finalize\<close> on: with a balanced, detached state the version is reclaimed, otherwise the
  thread is done.
\<close>

definition finalized :: "nat \<Rightarrow> u32 \<Rightarrow> rc_state \<Rightarrow> rc_state" where
  "finalized t h r = r\<lparr>inner := (inner r)(h := inner r h OR ucast INNER_F_FINALIZED),
     calls := (calls r)(h := obj r h # calls r h), status := (status r)(h := Unused), pc := (pc r)(t := Idle)\<rparr>"

lemma finalize_run:
  assumes "pc r t = Fin_Or h" "inner_flags (inner r h) AND INNER_F_FINALIZED = 0"
  shows "rc_run t [L_Tau, L_Callback h, L_Tau] r (finalized t h r)"
proof -
  let ?r1 = "r\<lparr>inner := (inner r)(h := inner r h OR ucast INNER_F_FINALIZED), pc := (pc r)(t := Fin_Call h)\<rparr>"
  let ?r2 = "?r1\<lparr>calls := (calls ?r1)(h := obj ?r1 h # calls ?r1 h), pc := (pc ?r1)(t := Fin_Free h)\<rparr>"
  have "rc_act rc_limit t L_Tau r ?r1" using rc_act.Claim [of r t h "inner r h" rc_limit] assms by simp
  moreover have "rc_act rc_limit t (L_Callback h) ?r1 ?r2" by (rule rc_act.Callback) simp
  moreover have "rc_act rc_limit t L_Tau ?r2 (?r2\<lparr>status := (status ?r2)(h := Unused), pc := (pc ?r2)(t := Idle)\<rparr>)"
    by (rule rc_act.Free_Slot) simp
  moreover have "?r2\<lparr>status := (status ?r2)(h := Unused), pc := (pc ?r2)(t := Idle)\<rparr> = finalized t h r"
    by (simp add: finalized_def)
  ultimately have "rc_act rc_limit t L_Tau ?r2 (finalized t h r)" by (simp only:)
  with \<open>rc_act rc_limit t L_Tau r ?r1\<close> \<open>rc_act rc_limit t (L_Callback h) ?r1 ?r2\<close> show ?thesis
    by (blast intro: rc_run.intros)
qed

lemma adjust_run:
  assumes pc: "pc r t = Det_Load h rf" and w: "inner r h = pack32 c 0"
  obtains r' ls where "rc_run t ls r r'" "\<And>h'. h' \<noteq> h \<Longrightarrow> inner r' h' = inner r h' \<and> status r' h' = status r h'"
    "obj r' = obj r" "cbs r' = cbs r" "pc r' = (pc r)(t := Idle)" "L_Cx_True \<notin> set ls"
    "if c = rf then status r' h = Unused \<and> called r ls = [obj r h]
     else status r' h = Detached \<and> inner r' h = pack32 (c - rf) INNER_F_DETACHED \<and> called r ls = []"
proof -
  let ?w = "pack32 (c - rf) INNER_F_DETACHED"
  let ?r1 = "r\<lparr>pc := (pc r)(t := Det_Cas h rf (inner r h))\<rparr>"
  let ?r2 = "?r1\<lparr>inner := (inner ?r1)(h := ?w), status := (status ?r1)(h := if finalize_due ?w then Finalizing t else Detached),
    pc := (pc ?r1)(t := after_adjust h ?w)\<rparr>"
  have due: "finalize_due ?w \<longleftrightarrow> c = rf" by (auto simp: finalize_due_pack const_defs)
  have a1: "rc_act rc_limit t L_Tau r ?r1" by (rule rc_act.Detach_Load [OF pc])
  have a2: "rc_act rc_limit t L_Tau ?r1 ?r2"
    by (rule rc_act.Detach_Ok [of _ _ _ _ "inner r h"]) (simp_all add: w detach_next_pack)
  show thesis
  proof (cases "c = rf")
    case True
    have "rc_run t [L_Tau, L_Callback h, L_Tau] ?r2 (finalized t h ?r2)"
      by (rule finalize_run) (use True due in \<open>simp_all add: after_adjust_def finalized_flag\<close>)
    then have "rc_run t [L_Tau, L_Tau, L_Tau, L_Callback h, L_Tau] r (finalized t h ?r2)"
      using a1 a2 by (blast intro: rc_run.Step)
    then show thesis by (rule that) (use True in \<open>simp_all add: finalized_def called_def\<close>)
  next
    case False
    have "rc_run t [L_Tau, L_Tau] r ?r2" using a1 a2 by (blast intro: rc_run.intros)
    then show thesis by (rule that) (use False due in \<open>simp_all add: called_def after_adjust_def\<close>)
  qed
qed

section \<open>Calls\<close>

text \<open>
  The calls of the interface with control blocks by number and versions by handle; the null
  handle stands for a null pointer.
\<close>

datatype api_call =
    Call_Make
  | Call_Acquire nat
  | Call_Release u32
  | Call_Exchange nat u32
  | Call_Cmp_Exchange nat u32 u32
  | Call_Set_Object u32 ptr ptr
  | Call_Free u32

datatype api_ret = Ret_Void | Ret_Version version_ptr | Ret_Bool bool

fun exec_call :: "ptr \<Rightarrow> nat \<Rightarrow> api_call \<Rightarrow> gstate \<Rightarrow> (api_ret \<times> gstate) result" where
  "exec_call gp t Call_Make s =
     bindE (atomsnap_make_version t gp s) (\<lambda>(p, s'). Inr (Ret_Version p, s'))"
| "exec_call gp t (Call_Acquire c) s =
     bindE (atomsnap_acquire_version_slot gp (int c) s) (\<lambda>(p, s'). Inr (Ret_Version p, s'))"
| "exec_call gp t (Call_Release h) s =
     bindE (atomsnap_release_version (resolve_handle s h) s) (\<lambda>s'. Inr (Ret_Void, s'))"
| "exec_call gp t (Call_Exchange c n) s =
     bindE (atomsnap_exchange_version_slot gp (int c) (resolve_handle s n) s) (\<lambda>s'. Inr (Ret_Void, s'))"
| "exec_call gp t (Call_Cmp_Exchange c e n) s =
     bindE (atomsnap_compare_exchange_version_slot gp (int c) (resolve_handle s e) (resolve_handle s n) s)
       (\<lambda>(ok, s'). Inr (Ret_Bool ok, s'))"
| "exec_call gp t (Call_Set_Object h q f) s =
     bindE (atomsnap_set_object (resolve_handle s h) q f s) (\<lambda>s'. Inr (Ret_Void, s'))"
| "exec_call gp t (Call_Free h) s =
     bindE (atomsnap_free_version (resolve_handle s h) s) (\<lambda>s'. Inr (Ret_Void, s'))"

text \<open>
  What the caller has to see to: a version is made by the thread that owns the context at \<open>cp\<close>,
  while there is memory; the control block exists, a version is released by a thread that
  holds it, installed, filled or freed by the thread that made it, and expected by one that holds it.
\<close>

fun allowed :: "ptr \<Rightarrow> ptr \<Rightarrow> nat \<Rightarrow> api_call \<Rightarrow> gstate \<Rightarrow> rc_state \<Rightarrow> bool" where
  "allowed gp cp t Call_Make s r \<longleftrightarrow> tls s t = cp \<and> memory_available s"
| "allowed gp cp t (Call_Acquire c) s r \<longleftrightarrow>
     (\<exists>w. read_cb gp (int c) s = Inr w) \<and> size (holders r (cb_handle (cbs r c))) < rc_limit"
| "allowed gp cp t (Call_Release h) s r \<longleftrightarrow> t \<in># holders r h"
| "allowed gp cp t (Call_Exchange c n) s r \<longleftrightarrow> (\<exists>w. read_cb gp (int c) s = Inr w) \<and> may_install r t n"
| "allowed gp cp t (Call_Cmp_Exchange c e n) s r \<longleftrightarrow>
     (\<exists>w. read_cb gp (int c) s = Inr w) \<and> may_install r t n \<and> may_expect r t e"
| "allowed gp cp t (Call_Set_Object h q f) s r \<longleftrightarrow> status r h = Private t"
| "allowed gp cp t (Call_Free h) s r \<longleftrightarrow> status r h = Private t"

definition log_objects :: "gstate \<Rightarrow> ptr list" where
  "log_objects s = map (\<lambda>(f, q, c). q) (free_log s)"

text \<open>What the call returns, read off the steps of the run and the state after it.\<close>

fun ret_ok :: "gstate \<Rightarrow> rc_label list \<Rightarrow> api_ret \<Rightarrow> bool" where
  "ret_ok s ls Ret_Void \<longleftrightarrow> True"
| "ret_ok s ls (Ret_Version p) \<longleftrightarrow>
     (\<exists>h. (ls = [L_Make h] \<or> (\<exists>c. ls = [L_Acquire c h])) \<and> p = resolve_handle s h)"
| "ret_ok s ls (Ret_Bool ok) \<longleftrightarrow> ok = (L_Cx_True \<in> set ls)"

definition refines :: "ptr \<Rightarrow> ptr \<Rightarrow> thread_context \<Rightarrow> nat \<Rightarrow> api_call \<Rightarrow> gstate \<Rightarrow> rc_state \<Rightarrow> bool" where
  "refines gp cp ctx t call s r \<longleftrightarrow> (\<exists>ret s' ls r' ctx'. exec_call gp t call s = Inr (ret, s') \<and> rc_run t ls r r' \<and>
     seq_rel gp ctx' s' r' \<and> (ctx_heap s cp = Some ctx \<longrightarrow> ctx_heap s' cp = Some ctx') \<and> tls s' = tls s \<and>
     g_init_done s' = g_init_done s \<and>
     log_objects s' = log_objects s @ called r ls \<and> ret_ok s' ls ret)"

text \<open>Calls other than make leave the contexts and the registration of the threads alone.\<close>

definition threads_same :: "gstate \<Rightarrow> gstate \<Rightarrow> bool" where
  "threads_same s s' \<longleftrightarrow> ctx_heap s' = ctx_heap s \<and> tls s' = tls s \<and> g_init_done s' = g_init_done s"

lemma threads_same_arenas: "arenas_only s s' \<Longrightarrow> threads_same s s'"
  by (auto simp: threads_same_def arenas_only_def)

lemma version_modify_threads: "version_modify p f s = Inr s' \<Longrightarrow> threads_same s s'"
  by (auto simp: version_modify_def threads_same_def split: if_splits)

lemma free_slot_threads: "free_slot p s = Inr s' \<Longrightarrow> threads_same s s'"
  by (auto simp: free_slot_def next_spurious_def Let_def threads_same_def
      dest!: free_slot_loop_frame threads_same_arenas)

lemma call_free_impl_threads: "call_free_impl v s = Inr s' \<Longrightarrow> threads_same s s'"
  by (auto simp: call_free_impl_def threads_same_def split: if_splits)

lemma try_finalize_threads: "try_finalize p w s = Inr s' \<Longrightarrow> threads_same s s'"
  by (auto simp: try_finalize_def finalize_and_free_def Let_def threads_same_def split: if_splits
      dest!: version_modify_threads call_free_impl_threads free_slot_threads)

lemma detach_and_adjust_threads:
  assumes "detach_and_adjust p r s = Inr s'"
  shows "threads_same s s'"
proof -
  let ?s1 = "s\<lparr>cas_clk := Suc (cas_clk s)\<rparr>"
  from assms obtain v where v: "version_read s p = Inr v" by (auto simp: detach_and_adjust_def)
  have "same_arenas s ?s1" by (simp add: same_arenas_def)
  then have v1: "version_read ?s1 p = Inr v" using v same_arenas_version_read by simp
  from assms v obtain s2 where s2: "version_modify p (inner_state_update (\<lambda>_. detach_next (inner_state v) r)) ?s1 = Inr s2"
    "try_finalize p (detach_next (inner_state v) r) s2 = Inr s'"
    by (auto simp: detach_and_adjust_def next_spurious_def detach_loop_eq [OF v1])
  from version_modify_threads [OF s2(1)] try_finalize_threads [OF s2(2)] show ?thesis by (simp add: threads_same_def)
qed

lemma write_cb_threads: "write_cb gp i w s = Inr s' \<Longrightarrow> threads_same s s'"
  by (auto simp: write_cb_def gate_write_def threads_same_def)

lemma exec_call_threads:
  assumes "exec_call gp t call s = Inr (ret, s')" "call \<noteq> Call_Make"
  shows "threads_same s s'"
  using assms
  by (cases call)
    (auto simp: atomsnap_acquire_version_slot_def atomsnap_release_version_def atomsnap_exchange_version_slot_def
      atomsnap_compare_exchange_version_slot_def atomsnap_set_object_def atomsnap_free_version_def next_spurious_def
      Let_def threads_same_def split: option.splits if_splits prod.splits
      dest!: write_cb_threads try_finalize_threads version_modify_threads detach_and_adjust_threads
        call_free_impl_threads free_slot_threads)

lemma refinesI:
  assumes "exec_call gp t call s = Inr (ret, s')" "rc_run t ls r r'" "seq_rel gp ctx s' r'"
    "log_objects s' = log_objects s @ called r ls" "ret_ok s' ls ret" "call \<noteq> Call_Make"
  shows "refines gp cp ctx t call s r"
  using assms exec_call_threads [OF assms(1,6)] by (auto simp: refines_def threads_same_def)

lemma acquire_refines:
  assumes rel: "seq_rel gp ctx s r" and ok: "allowed gp cp t (Call_Acquire c) s r"
  shows "refines gp cp ctx t (Call_Acquire c) s r"
proof -
  note D = seq_rel_D [OF rel]
  obtain w where w: "read_cb gp (int c) s = Inr w" using ok by auto
  then have cw: "cbs r c = w" using D(5) by simp
  obtain s' where s': "write_cb gp (int c) (w + REF_COUNT_INC) s = Inr s'" "read_cb gp (int c) s' = Inr (w + REF_COUNT_INC)"
    "same_arenas s s'" "free_log s' = free_log s" "callback_of s' = callback_of s"
    "\<And>q i. q \<noteq> gp \<or> i \<noteq> int c \<Longrightarrow> read_cb q i s' = read_cb q i s"
    by (rule write_cb_spec [OF w]) blast
  let ?h = "cb_handle w"
  let ?r = "r\<lparr>cbs := (cbs r)(c := cbs r c + REF_COUNT_INC),
    holders := (if ?h = HANDLE_NULL then holders r else (holders r)(?h := add_mset t (holders r ?h)))\<rparr>"
  have act: "rc_act rc_limit t (L_Acquire c ?h) r ?r"
    by (rule rc_act.Acquire) (use D(4) ok cw in auto)
  then have run: "rc_run t [L_Acquire c ?h] r ?r" by (blast intro: rc_run.intros)
  have st: "alloc_st ctx s' (in_use ctx s)"
    using D(1) same_arenas_alloc_st [OF s'(3)] by (simp add: alloc_st_iff)
  have cb: "cbs ?r c' = w'" if "read_cb gp (int c') s' = Inr w'" for c' w'
    using that s'(2) s'(6) [of gp "int c'"] D(5) [of c'] cw by (cases "c' = c") auto
  have inv: "rc_inv rc_limit ?r" using rc_run_inv [OF run D(3)] .
  have "seq_rel gp ctx s' ?r"
    unfolding seq_rel_def
  proof (intro conjI allI impI)
    show "status ?r h = Unused \<longleftrightarrow> h \<notin> in_use ctx s'" for h using D(6) st by (simp add: alloc_st_iff)
    show "inner_state v = inner ?r h" "object v = obj ?r h" "gate v = gp"
      if "h \<in> in_use ctx s'" "resolve_handle s' h = Some p" "version_read s' p = Inr v" for h p v
      using seq_rel_agree [OF rel, of h p v] that st same_arenas_resolve [OF s'(3)] same_arenas_version_read [OF s'(3)]
      by (simp_all add: alloc_st_iff)
  qed (use D(2,4) s'(5) st inv cb in \<open>simp_all add: alloc_st_iff\<close>)
  moreover have "exec_call gp t (Call_Acquire c) s = Inr (Ret_Version (resolve_handle s' ?h), s')"
    using w s'(1) same_arenas_resolve [OF s'(3)] by (simp add: atomsnap_acquire_version_slot_def Let_def)
  ultimately show ?thesis using run s'(4) by (intro refinesI) (auto simp: log_objects_def called_def)
qed

lemma callback_gates: "gate_heap s' = gate_heap s \<Longrightarrow> callback_of s' = callback_of s"
  by (simp add: callback_of_def fun_eq_iff)

lemma release_refines:
  assumes rel: "seq_rel gp ctx s r" and ok: "t \<in># holders r h"
  shows "refines gp cp ctx t (Call_Release h) s r"
proof -
  note D = seq_rel_D [OF rel]
  have st: "(\<exists>c. status r h = Published c) \<or> status r h = Detached"
    using held_status [OF D(3) ok] rc_inv_ver [OF D(3), of h] D(4) by auto
  then have used: "status r h \<noteq> Unused" by auto
  obtain c f where w: "inner r h = pack32 c f" "f AND INNER_F_FINALIZED = 0"
    using rc_inv_ver [OF D(3), of h] st finalized_flag by auto
  obtain p v where p: "resolve_handle s h = Some p" "live_version ctx s h p v" "inner_state v = inner r h"
    "object v = obj r h" "gate v = gp" by (rule seq_rel_version [OF rel used]) blast
  let ?w = "pack32 (c + 1) f" and ?f = "inner_state_update (\<lambda>x. x + INNER_CNT_INC)"
  have keep: "\<And>v. self_handle (?f v) = self_handle v" "\<And>v. gate (?f v) = gate v" by simp_all
  obtain s1 where s1: "version_modify p ?f s = Inr s1" "live_version ctx s1 h p (?f v)" "in_use ctx s1 = in_use ctx s"
    "free_log s1 = free_log s" "callback_of s1 = callback_of s" "arenas_only s s1"
    by (rule live_version_modify [OF p(2) keep]) blast
  have iw: "inner_state (?f v) = ?w" and inc: "inner r h + INNER_CNT_INC = ?w" using p(3) w(1) by simp_all
  have nf: "lo32 ?w AND INNER_F_FINALIZED = 0" using w(2) by simp
  obtain s' where s': "try_finalize p ?w s1 = Inr s'" "finalize_due ?w \<longrightarrow> reclaimed ctx s1 h (?f v) s'"
    "\<not> finalize_due ?w \<longrightarrow> s' = s1" "gate_heap s' = gate_heap s1" "g_arena_table s' = g_arena_table s1"
    by (rule try_finalize_spec [OF s1(2) iw nf]) blast
  have rd: "version_read s p = Inr v" using p(2) by (simp add: live_version_def)
  have exec: "exec_call gp t (Call_Release h) s = Inr (Ret_Void, s')"
    using rd s1(1) s'(1) p(1,3) inc by (simp add: atomsnap_release_version_def Let_def)
  let ?r1 = "r\<lparr>inner := (inner r)(h := ?w), holders := (holders r)(h := holders r h - {#t#}),
    status := (if finalize_due ?w then (status r)(h := Finalizing t) else status r), pc := (pc r)(t := after_adjust h ?w)\<rparr>"
  have act: "rc_act rc_limit t (L_Release h) r ?r1"
    by (rule rc_act.Release) (use D(4) ok inc in auto)
  have reads: "reads_but p s s'"
    using version_modify_reads [OF s1(1)] try_finalize_reads [OF s'(1)] by (rule reads_but_trans)
  have gates: "gate_heap s' = gate_heap s" "g_arena_table s' = g_arena_table s"
    using s'(4,5) arenas_only_fields [OF s1(6)] by simp_all
  have cb: "cbs r c' = w'" if "read_cb gp (int c') s' = Inr w'" for c' w'
    using that D(5) read_cb_gates [OF gates(1)] by simp
  show ?thesis
  proof (cases "finalize_due ?w")
    case True
    have "rc_run t [L_Tau, L_Callback h, L_Tau] ?r1 (finalized t h ?r1)"
      by (rule finalize_run) (use True w(2) in \<open>simp_all add: after_adjust_def\<close>)
    with act have run: "rc_run t [L_Release h, L_Tau, L_Callback h, L_Tau] r (finalized t h ?r1)" by (rule rc_run.Step)
    have rc: "reclaimed ctx s1 h (?f v) s'" using s'(2) True by blast
    have "seq_rel gp ctx s' (finalized t h ?r1)"
      by (rule seq_rel_update [OF rel used p(1) _ _ gates(2) reads _ rc_run_inv [OF run D(3)]])
        (use rc s1(3) D(2,4) cb callback_gates [OF gates(1)] in \<open>auto simp: reclaimed_def finalized_def\<close>)
    moreover have "log_objects s' = log_objects s @ [obj r h]"
      using rc s1(4) p(4) by (simp add: reclaimed_def log_objects_def)
    ultimately show ?thesis by (intro refinesI [OF exec run]) (simp_all add: called_def)
  next
    case False
    then have s1': "s' = s1" using s'(3) by blast
    from act have run: "rc_run t [L_Release h] r ?r1" by (blast intro: rc_run.intros)
    have "seq_rel gp ctx s' ?r1"
      by (rule seq_rel_update [OF rel used p(1) _ _ gates(2) reads _ rc_run_inv [OF run D(3)]])
        (use False s1 s1' used D(2,4) cb iw p(4,5) in \<open>auto simp: live_version_def after_adjust_def\<close>)
    then show ?thesis using s1(4) s1' by (intro refinesI [OF exec run]) (simp_all add: called_def log_objects_def)
  qed
qed

lemma set_object_refines:
  assumes rel: "seq_rel gp ctx s r" and ok: "status r h = Private t"
  shows "refines gp cp ctx t (Call_Set_Object h q f) s r"
proof -
  note D = seq_rel_D [OF rel]
  have used: "status r h \<noteq> Unused" using ok by simp
  obtain p v where p: "resolve_handle s h = Some p" "live_version ctx s h p v" "inner_state v = inner r h" "gate v = gp"
    by (rule seq_rel_version [OF rel used]) blast
  let ?f = "free_context_update (\<lambda>_. f)" and ?g = "object_update (\<lambda>_. q)"
  obtain s1 where s1: "version_modify p ?f s = Inr s1" "live_version ctx s1 h p (?f v)" "in_use ctx s1 = in_use ctx s"
    "free_log s1 = free_log s" "callback_of s1 = callback_of s" "arenas_only s s1"
    by (rule live_version_modify [OF p(2), of ?f]) auto
  obtain s' where s': "version_modify p ?g s1 = Inr s'" "live_version ctx s' h p (?g (?f v))" "in_use ctx s' = in_use ctx s1"
    "free_log s' = free_log s1" "callback_of s' = callback_of s1" "arenas_only s1 s'"
    by (rule live_version_modify [OF s1(2), of ?g]) auto
  have exec: "exec_call gp t (Call_Set_Object h q f) s = Inr (Ret_Void, s')"
    using p(1) s1(1) s'(1) by (simp add: atomsnap_set_object_def)
  let ?r = "r\<lparr>obj := (obj r)(h := q)\<rparr>"
  have "rc_act rc_limit t (L_Set h q) r ?r" by (rule rc_act.Set_Object) (use D(4) ok in auto)
  then have run: "rc_run t [L_Set h q] r ?r" by (blast intro: rc_run.intros)
  have ao: "arenas_only s s'" using s1(6) s'(6) by (rule arenas_only_trans)
  have reads: "reads_but p s s'" using version_modify_reads [OF s1(1)] version_modify_reads [OF s'(1)] by (rule reads_but_trans)
  have cb: "cbs r c' = w'" if "read_cb gp (int c') s' = Inr w'" for c' w'
    using that D(5) read_cb_arenas_only [OF ao] by simp
  have "seq_rel gp ctx s' ?r"
    by (rule seq_rel_update [OF rel used p(1) _ _ arenas_only_fields(1) [OF ao] reads _ rc_run_inv [OF run D(3)]])
      (use s1 s' used D(2,4) cb p(3,4) in \<open>auto simp: live_version_def\<close>)
  then show ?thesis using s1(4) s'(4) by (intro refinesI [OF exec run]) (simp_all add: called_def log_objects_def)
qed

lemma free_refines:
  assumes rel: "seq_rel gp ctx s r" and ok: "status r h = Private t"
  shows "refines gp cp ctx t (Call_Free h) s r"
proof -
  note D = seq_rel_D [OF rel]
  have used: "status r h \<noteq> Unused" using ok by simp
  obtain p v where p: "resolve_handle s h = Some p" "live_version ctx s h p v" "object v = obj r h" "gate v = gp"
    by (rule seq_rel_version [OF rel used]) blast
  obtain s' where s': "finalize_and_free p s = Inr s'" "reclaimed ctx s h v s'" "gate_heap s' = gate_heap s"
    "g_arena_table s' = g_arena_table s" by (rule finalize_and_free_spec [OF p(2)]) blast
  have exec: "exec_call gp t (Call_Free h) s = Inr (Ret_Void, s')"
    using p(1) s'(1) by (simp add: atomsnap_free_version_def finalize_and_free_def)
  let ?r1 = "r\<lparr>status := (status r)(h := Finalizing t), pc := (pc r)(t := Fin_Call h)\<rparr>"
  let ?r2 = "?r1\<lparr>calls := (calls ?r1)(h := obj ?r1 h # calls ?r1 h), pc := (pc ?r1)(t := Fin_Free h)\<rparr>"
  let ?r3 = "?r2\<lparr>status := (status ?r2)(h := Unused), pc := (pc ?r2)(t := Idle)\<rparr>"
  have "rc_act rc_limit t (L_Free h) r ?r1" by (rule rc_act.Free_Version) (use D(4) ok in auto)
  moreover have "rc_act rc_limit t (L_Callback h) ?r1 ?r2" by (rule rc_act.Callback) simp
  moreover have "rc_act rc_limit t L_Tau ?r2 ?r3" by (rule rc_act.Free_Slot) simp
  ultimately have run: "rc_run t [L_Free h, L_Callback h, L_Tau] r ?r3" by (blast intro: rc_run.intros)
  have cb: "cbs r c' = w'" if "read_cb gp (int c') s' = Inr w'" for c' w'
    using that D(5) read_cb_gates [OF s'(3)] by simp
  have "seq_rel gp ctx s' ?r3"
    by (rule seq_rel_update [OF rel used p(1) _ _ s'(4) finalize_and_free_reads [OF s'(1)] _ rc_run_inv [OF run D(3)]])
      (use s'(2) D(2,4) cb callback_gates [OF s'(3)] in \<open>auto simp: reclaimed_def\<close>)
  moreover have "log_objects s' = log_objects s @ [obj r h]"
    using s'(2) p(3) by (simp add: reclaimed_def log_objects_def)
  ultimately show ?thesis by (intro refinesI [OF exec run]) (simp_all add: called_def)
qed

text \<open>
  The common end of both exchanges: \<open>s1\<close> and \<open>r1\<close> are reached from corresponding states by
  writing the control block, and version \<open>h\<close> with \<open>rf\<close> references is left to be detached.
\<close>

lemma detach_refines:
  assumes rel: "seq_rel gp ctx s r" and h: "status r h \<noteq> Unused" "resolve_handle s h = Some p" "inner r h = pack32 c 0"
    and s1: "same_arenas s s1" "callback_of s1 = callback_of s" "free_log s1 = free_log s"
    and r1: "rc_run t ls0 r r1" "pc r1 = (pc r)(t := Det_Load h rf)" "inner r1 = inner r" "obj r1 = obj r"
      "\<And>c w. read_cb gp (int c) s1 = Inr w \<Longrightarrow> cbs r1 c = w"
      "\<And>h'. h' \<noteq> h \<Longrightarrow> status r1 h' = Unused \<longleftrightarrow> status r h' = Unused"
  obtains s' ls r' where "detach_and_adjust p rf s1 = Inr s'" "rc_run t ls r1 r'" "seq_rel gp ctx s' r'"
    "log_objects s' = log_objects s @ called r ls" "L_Cx_True \<notin> set ls"
proof -
  note D = seq_rel_D [OF rel]
  obtain v where v: "live_version ctx s h p v" "inner_state v = inner r h" "object v = obj r h" "gate v = gp"
    by (rule seq_rel_version [OF rel h(1)]) (use h(2) in auto)
  note live1 = live_version_frame [OF v(1) s1(1,2)]
  have iw: "inner_state v = pack32 c 0" using v(2) h(3) by simp
  obtain s' where s': "detach_and_adjust p rf s1 = Inr s'" "c = rf \<longrightarrow> reclaimed ctx s1 h v s'"
    "c \<noteq> rf \<longrightarrow> kept ctx s1 p v (pack32 (c - rf) INNER_F_DETACHED) s'" "gate_heap s' = gate_heap s1"
    "g_arena_table s' = g_arena_table s1"
    by (rule detach_and_adjust_spec [OF live1(1) iw]) blast
  have "pc r1 t = Det_Load h rf" "inner r1 h = pack32 c 0" using r1(2,3) h(3) by simp_all
  then obtain r' ls where r': "rc_run t ls r1 r'"
    "\<And>h'. h' \<noteq> h \<Longrightarrow> inner r' h' = inner r1 h' \<and> status r' h' = status r1 h'" "obj r' = obj r1" "cbs r' = cbs r1"
    "pc r' = (pc r1)(t := Idle)" "L_Cx_True \<notin> set ls"
    "if c = rf then status r' h = Unused \<and> called r1 ls = [obj r1 h]
     else status r' h = Detached \<and> inner r' h = pack32 (c - rf) INNER_F_DETACHED \<and> called r1 ls = []"
    by (rule adjust_run) blast
  have reads: "reads_but p s s'"
    using reads_but_same [OF s1(1)] detach_and_adjust_reads [OF s'(1)] by (rule reads_but_trans)
  have tab: "g_arena_table s' = g_arena_table s" using s'(5) s1(1) by (simp add: same_arenas_def)
  have cbk: "callback_of s' gp \<noteq> 0" using callback_gates [OF s'(4)] s1(2) D(2) by simp
  have inv: "rc_inv rc_limit r'" using rc_run_inv [OF r'(1) rc_run_inv [OF r1(1) D(3)]] .
  have idle: "pc r' u = Idle" for u using r'(5) r1(2) D(4) by simp
  have cb: "cbs r' c' = w'" if "read_cb gp (int c') s' = Inr w'" for c' w'
    using that r1(5) read_cb_gates [OF s'(4)] r'(4) by simp
  have others: "inner r' h' = inner r h' \<and> obj r' h' = obj r h' \<and> (status r' h' = Unused \<longleftrightarrow> status r h' = Unused)"
    if "h' \<noteq> h" for h' using r'(2) [OF that] r'(3) r1(3,4) r1(6) [OF that] by simp
  have "called r1 ls = called r ls" by (induction ls) (auto simp: called_def r1(4) split: rc_label.split)
  moreover have "seq_rel gp ctx s' r' \<and> log_objects s' = log_objects s @ called r1 ls"
  proof (cases "c = rf")
    case True
    then have rc: "reclaimed ctx s1 h v s'" using s'(2) by blast
    have "seq_rel gp ctx s' r'"
      by (rule seq_rel_update [OF rel h(1,2) _ cbk tab reads _ inv idle cb others])
        (use rc live1(2) True r'(7) in \<open>auto simp: reclaimed_def\<close>)
    then show ?thesis using rc r'(7) True r1(4) v(3) s1(3) by (simp add: reclaimed_def log_objects_def)
  next
    case False
    then have k: "kept ctx s1 p v (pack32 (c - rf) INNER_F_DETACHED) s'" using s'(3) by blast
    have "seq_rel gp ctx s' r'"
      by (rule seq_rel_update [OF rel h(1,2) _ cbk tab reads _ inv idle cb others])
        (use k live1(2) False r'(3,7) r1(4) v(3,4) h(1) D(6) [of h] in \<open>auto simp: kept_def\<close>)
    then show ?thesis using k r'(7) False s1(3) by (simp add: kept_def log_objects_def)
  qed
  ultimately show thesis using that [OF s'(1) r'(1)] r'(6) by simp
qed

text \<open>The word in a control block that holds a version, and how it is replaced.\<close>

lemma published_word:
  assumes rel: "seq_rel gp ctx s r" and h: "cb_handle (cbs r c) \<noteq> HANDLE_NULL"
  obtains k where "status r (cb_handle (cbs r c)) = Published c" "inner r (cb_handle (cbs r c)) = pack32 k 0"
proof -
  note D = seq_rel_D [OF rel]
  have st: "status r (cb_handle (cbs r c)) = Published c" using rc_inv_cb [OF D(3), of c] h by (simp add: cb_ok_def)
  with rc_inv_ver [OF D(3), of "cb_handle (cbs r c)"] that show thesis by simp
qed

lemma install_handle:
  assumes rel: "seq_rel gp ctx s r" and n: "may_install r t n"
  shows "handle_of (resolve_handle s n) s = Inr n"
proof (cases "n = HANDLE_NULL")
  case True
  then show ?thesis by (simp add: handle_of_def resolve_handle_def)
next
  case False
  with n have "status r n \<noteq> Unused" by (simp add: may_install_def)
  then obtain p where "resolve_handle s n = Some p" "handle_of (Some p) s = Inr n"
    by (rule seq_rel_version [OF rel]) blast
  then show ?thesis by simp
qed

lemma expect_handle:
  assumes rel: "seq_rel gp ctx s r" and e: "may_expect r t e"
  shows "handle_of (resolve_handle s e) s = Inr e"
proof (cases "e = HANDLE_NULL")
  case True
  then show ?thesis by (simp add: handle_of_def resolve_handle_def)
next
  case False
  with e held_status [OF seq_rel_D(3) [OF rel], of t e] have "status r e \<noteq> Unused" by (auto simp: may_expect_def)
  then obtain p where "resolve_handle s e = Some p" "handle_of (Some p) s = Inr e"
    by (rule seq_rel_version [OF rel]) blast
  then show ?thesis by simp
qed

text \<open>
  Replacing the word of control block \<open>c\<close>, which a step with label \<open>l\<close> does atomically, and
  settling the version that was there, if any.
\<close>

lemma replace_refines:
  assumes rel: "seq_rel gp ctx s r" and w: "read_cb gp (int c) s = Inr w" and n: "may_install r t n"
    and s0: "same_arenas s s0" "gate_heap s0 = gate_heap s" "free_log s0 = free_log s"
    and pre: "rc_run t ls0 r (r\<lparr>cbs := (cbs r)(c := ucast n), status := put_in c n (take_out t w (status r)),
      pc := (pc r)(t := after_exchange w)\<rparr>)" (is "rc_run t ls0 r ?r1")
  obtains s1 s' ls r' where "write_cb gp (int c) (ucast n) s0 = Inr s1" "resolve_handle s1 = resolve_handle s"
    "case resolve_handle s (cb_handle w) of None \<Rightarrow> s' = s1 | Some p \<Rightarrow> detach_and_adjust p (cb_refs w) s1 = Inr s'"
    "rc_run t ls ?r1 r'" "seq_rel gp ctx s' r'" "log_objects s' = log_objects s @ called r ls" "L_Cx_True \<notin> set ls"
proof -
  note D = seq_rel_D [OF rel]
  have cw: "cbs r c = w" using D(5) w by simp
  have w0: "read_cb gp (int c) s0 = Inr w" using w read_cb_gates [OF s0(2)] by simp
  obtain s1 where s1: "write_cb gp (int c) (ucast n) s0 = Inr s1" "read_cb gp (int c) s1 = Inr (ucast n)"
    "same_arenas s0 s1" "free_log s1 = free_log s0" "callback_of s1 = callback_of s0"
    "\<And>q i. q \<noteq> gp \<or> i \<noteq> int c \<Longrightarrow> read_cb q i s1 = read_cb q i s0"
    by (rule write_cb_spec [OF w0]) blast
  have same: "same_arenas s s1" using s0(1) s1(3) by (auto simp: same_arenas_def)
  have cbk: "callback_of s1 = callback_of s" using s1(5) callback_gates [OF s0(2)] by simp
  have log: "free_log s1 = free_log s" using s1(4) s0(3) by simp
  have res: "resolve_handle s1 = resolve_handle s" using same_arenas_resolve [OF same] by (simp add: fun_eq_iff)
  have cb: "cbs ?r1 c' = w'" if "read_cb gp (int c') s1 = Inr w'" for c' w'
    using that s1(2) s1(6) [of gp "int c'"] read_cb_gates [OF s0(2)] D(5) [of c'] by (cases "c' = c") auto
  show thesis
  proof (cases "cb_handle w = HANDLE_NULL")
    case True
    have st: "alloc_st ctx s1 (in_use ctx s)" using D(1) same_arenas_alloc_st [OF same] by (simp add: alloc_st_iff)
    have stat: "status ?r1 h = Unused \<longleftrightarrow> status r h = Unused" for h
      using n True by (auto simp: put_in_def take_out_def may_install_def)
    have "seq_rel gp ctx s1 ?r1"
      unfolding seq_rel_def
    proof (intro conjI allI impI)
      show "status ?r1 h = Unused \<longleftrightarrow> h \<notin> in_use ctx s1" for h using D(6) st stat by (simp add: alloc_st_iff)
      show "inner_state v = inner ?r1 h" "object v = obj ?r1 h" "gate v = gp"
        if "h \<in> in_use ctx s1" "resolve_handle s1 h = Some p" "version_read s1 p = Inr v" for h p v
        using seq_rel_agree [OF rel, of h p v] that st res same_arenas_version_read [OF same] by (simp_all add: alloc_st_iff)
      show "rc_inv rc_limit ?r1" by (rule rc_run_inv [OF pre D(3)])
      show "cbs ?r1 c' = w'" if "read_cb gp (int c') s1 = Inr w'" for c' w' by (rule cb [OF that])
    qed (use D(2,4) cbk st True in \<open>simp_all add: alloc_st_iff after_exchange_def\<close>)
    from that [OF s1(1) res _ rc_run.Stop this] True log show thesis
      by (simp add: resolve_handle_def called_def log_objects_def)
  next
    case False
    obtain k where k: "status r (cb_handle w) = Published c" "inner r (cb_handle w) = pack32 k 0"
      by (rule published_word [OF rel, of c]) (use False cw in auto)
    then have used: "status r (cb_handle w) \<noteq> Unused" by simp
    obtain p where p: "resolve_handle s (cb_handle w) = Some p" by (rule seq_rel_version [OF rel used]) blast
    have stat: "status ?r1 h = Unused \<longleftrightarrow> status r h = Unused" if "h \<noteq> cb_handle w" for h
      using n that by (auto simp: put_in_def take_out_def may_install_def)
    obtain s' ls r' where "detach_and_adjust p (cb_refs w) s1 = Inr s'" "rc_run t ls ?r1 r'" "seq_rel gp ctx s' r'"
      "log_objects s' = log_objects s @ called r ls" "L_Cx_True \<notin> set ls"
      by (rule detach_refines [OF rel used p k(2) same cbk log pre _ _ _ cb stat])
        (use False in \<open>auto simp: after_exchange_def\<close>)
    then show thesis using p by (intro that [OF s1(1) res]) simp_all
  qed
qed

lemma exchange_refines:
  assumes rel: "seq_rel gp ctx s r" and w: "read_cb gp (int c) s = Inr w" and n: "may_install r t n"
  shows "refines gp cp ctx t (Call_Exchange c n) s r"
proof -
  note D = seq_rel_D [OF rel]
  have cw: "w = cbs r c" using D(5) w by simp
  let ?r1 = "r\<lparr>cbs := (cbs r)(c := ucast n), status := put_in c n (take_out t w (status r)), pc := (pc r)(t := after_exchange w)\<rparr>"
  have act: "rc_act rc_limit t (L_Exchange c n) r ?r1" by (rule rc_act.Exchange [OF D(4) n cw])
  then have pre: "rc_run t [L_Exchange c n] r ?r1" by (blast intro: rc_run.intros)
  obtain s1 s' ls r' where x: "write_cb gp (int c) (ucast n) s = Inr s1" "resolve_handle s1 = resolve_handle s"
    "case resolve_handle s (cb_handle w) of None \<Rightarrow> s' = s1 | Some p \<Rightarrow> detach_and_adjust p (cb_refs w) s1 = Inr s'"
    "rc_run t ls ?r1 r'" "seq_rel gp ctx s' r'" "log_objects s' = log_objects s @ called r ls"
    by (rule replace_refines [OF rel w n _ _ _ pre]) (auto simp: same_arenas_def)
  have exec: "exec_call gp t (Call_Exchange c n) s = Inr (Ret_Void, s')"
    using w x(1,2,3) install_handle [OF rel n]
    by (auto simp: atomsnap_exchange_version_slot_def Let_def split: option.splits)
  have run: "rc_run t (L_Exchange c n # ls) r r'" using act x(4) by (rule rc_run.Step)
  show ?thesis by (rule refinesI [OF exec run x(5)]) (simp_all add: called_def x(6))
qed

lemma compare_exchange_refines:
  assumes rel: "seq_rel gp ctx s r" and w: "read_cb gp (int c) s = Inr w" and n: "may_install r t n" and e: "may_expect r t e"
  shows "refines gp cp ctx t (Call_Cmp_Exchange c e n) s r"
proof -
  note D = seq_rel_D [OF rel]
  note hd = install_handle [OF rel n] expect_handle [OF rel e]
  have cw: "cbs r c = w" using D(5) w by simp
  show ?thesis
  proof (cases "cb_handle w = e")
    case False
    have "rc_act rc_limit t (L_Cx_Refuse c e n) r r" by (rule rc_act.Cx_Refuse) (use D(4) n e False cw in auto)
    then have run: "rc_run t [L_Cx_Refuse c e n] r r" by (blast intro: rc_run.intros)
    have exec: "exec_call gp t (Call_Cmp_Exchange c e n) s = Inr (Ret_Bool False, s)"
      using w hd False by (simp add: atomsnap_compare_exchange_version_slot_def Let_def)
    show ?thesis by (rule refinesI [OF exec run rel]) (simp_all add: called_def)
  next
    case True
    let ?r0 = "r\<lparr>pc := (pc r)(t := Cx_Cas c e n (cbs r c))\<rparr>"
    let ?r1 = "r\<lparr>cbs := (cbs r)(c := ucast n), status := put_in c n (take_out t w (status r)), pc := (pc r)(t := after_exchange w)\<rparr>"
    have a0: "rc_act rc_limit t (L_Cx c e n) r ?r0" by (rule rc_act.Cx_Load) (use D(4) n e True cw in auto)
    have "rc_act rc_limit t L_Cx_True ?r0 (?r0\<lparr>cbs := (cbs ?r0)(c := ucast n),
        status := put_in c n (take_out t w (status ?r0)), pc := (pc ?r0)(t := after_exchange w)\<rparr>)"
      by (rule rc_act.Cx_Ok) (use True cw in auto)
    then have a1: "rc_act rc_limit t L_Cx_True ?r0 ?r1" by simp
    have pre: "rc_run t [L_Cx c e n, L_Cx_True] r ?r1" using a0 a1 by (blast intro: rc_run.intros)
    let ?s0 = "s\<lparr>cas_clk := Suc (cas_clk s)\<rparr>"
    obtain s1 s' ls r' where x: "write_cb gp (int c) (ucast n) ?s0 = Inr s1" "resolve_handle s1 = resolve_handle s"
      "case resolve_handle s (cb_handle w) of None \<Rightarrow> s' = s1 | Some p \<Rightarrow> detach_and_adjust p (cb_refs w) s1 = Inr s'"
      "rc_run t ls ?r1 r'" "seq_rel gp ctx s' r'" "log_objects s' = log_objects s @ called r ls"
      by (rule replace_refines [OF rel w n _ _ _ pre, of ?s0]) (auto simp: same_arenas_def)
    have loop: "compare_exchange_loop k e n w w = Some (ucast n, w)" for k
      using True by (intro compare_exchange_loop_eq) simp
    have exec: "exec_call gp t (Call_Cmp_Exchange c e n) s = Inr (Ret_Bool True, s')"
      using w hd True x(1,2,3) loop
      by (auto simp: atomsnap_compare_exchange_version_slot_def next_spurious_def Let_def split: option.splits)
    have run: "rc_run t (L_Cx c e n # L_Cx_True # ls) r r'" using a0 a1 x(4) by (blast intro: rc_run.Step)
    show ?thesis by (rule refinesI [OF exec run x(5)]) (simp_all add: called_def x(6))
  qed
qed

lemma make_refines:
  assumes rel: "seq_rel gp ctx s r" and reg: "g_init_done s" "tls s t = cp" "cp \<noteq> 0" "ctx_heap s cp = Some ctx"
    and mem: "memory_available s"
  shows "refines gp cp ctx t Call_Make s r"
proof -
  note D = seq_rel_D [OF rel]
  let ?U = "in_use ctx s"
  have st: "alloc_st ctx s ?U" using D(1) by (simp add: alloc_st_iff)
  obtain h p s' ctx' where m: "atomsnap_make_version t gp s = Inr (Some p, s')" "ctx_heap s' cp = Some ctx'"
    "h \<notin> ?U" "alloc_st ctx' s' (insert h ?U)" "resolve_handle s' h = Some p"
    "version_read s' p = Inr \<lparr>object = 0, free_context = 0, gate = gp, inner_state = 0, self_handle = h\<rparr>"
    "keeps ?U s s'" "outer_same s s'"
    by (rule make_version_spec [OF reg st mem])
  let ?r = "r\<lparr>status := (status r)(h := Private t), inner := (inner r)(h := 0),
    obj := (obj r)(h := 0), allocs := (allocs r)(h := Suc (allocs r h))\<rparr>"
  have h: "h \<noteq> HANDLE_NULL" by (rule in_use_version [OF m(4) insertI1]) blast
  have "rc_act rc_limit t (L_Make h) r ?r" by (rule rc_act.Make) (use D(4,6) h m(3) in auto)
  then have run: "rc_run t [L_Make h] r ?r" by (blast intro: rc_run.intros)
  have use': "alloc_wf ctx' s'" "in_use ctx' s' = insert h ?U" using m(4) by (simp_all add: alloc_st_iff)
  have gates: "gate_heap s' = gate_heap s" "free_log s' = free_log s" using m(8) by (simp_all add: outer_same_def)
  have "inner_state v = inner ?r h' \<and> object v = obj ?r h' \<and> gate v = gp"
    if "h' \<in> insert h ?U" "resolve_handle s' h' = Some q" "version_read s' q = Inr v" for h' q v
  proof (cases "h' = h")
    case True
    with that(2,3) m(5,6) show ?thesis by auto
  next
    case False
    with that(1) have u: "h' \<in> ?U" by simp
    obtain q' where q': "resolve_handle s h' = Some q'" by (rule in_use_version [OF st u])
    note k = keepsD [OF m(7) u q']
    with that(2) q' have "q' = q" by simp
    with seq_rel_agree [OF rel u q'] k(2) that(3) False show ?thesis by simp
  qed
  moreover have "status ?r h' = Unused \<longleftrightarrow> h' \<notin> insert h ?U" for h' using D(6) by auto
  ultimately have "seq_rel gp ctx' s' ?r"
    using use' D(2,4,5) gates rc_run_inv [OF run D(3)] callback_gates [OF gates(1)] read_cb_gates [OF gates(1)]
    unfolding seq_rel_def by simp
  moreover have "tls s' = tls s" "g_init_done s' = g_init_done s" using m(8) by (simp_all add: outer_same_def)
  moreover have "ret_ok s' [L_Make h] (Ret_Version (Some p))" using m(5) by simp
  moreover have "exec_call gp t Call_Make s = Inr (Ret_Version (Some p), s')" using m(1) by simp
  moreover have "log_objects s' = log_objects s @ called r [L_Make h]" using gates(2) by (simp add: log_objects_def called_def)
  ultimately show ?thesis unfolding refines_def using run m(2) by blast
qed

lemma call_refines:
  assumes "seq_rel gp ctx s r" "allowed gp cp t call s r" "g_init_done s" "cp \<noteq> 0" "ctx_heap s cp = Some ctx"
  shows "refines gp cp ctx t call s r"
proof (cases call)
  case Call_Make
  with assms show ?thesis by (auto intro: make_refines)
next
  case (Call_Acquire c)
  with assms acquire_refines show ?thesis by blast
next
  case (Call_Release h)
  with assms show ?thesis by (auto intro: release_refines)
next
  case (Call_Exchange c n)
  with assms show ?thesis by (auto intro: exchange_refines)
next
  case (Call_Cmp_Exchange c e n)
  with assms show ?thesis by (auto intro: compare_exchange_refines)
next
  case (Call_Set_Object h q f)
  with assms show ?thesis by (auto intro: set_object_refines)
next
  case (Call_Free h)
  with assms show ?thesis by (auto intro: free_refines)
qed

section \<open>Refinement\<close>

text \<open>The full state and the state of the steps, the slots being those of the context at \<open>cp\<close>.\<close>

definition corresponds :: "ptr \<Rightarrow> ptr \<Rightarrow> gstate \<Rightarrow> rc_state \<Rightarrow> bool" where
  "corresponds gp cp s r \<longleftrightarrow> g_init_done s \<and> cp \<noteq> 0 \<and> (\<exists>ctx. ctx_heap s cp = Some ctx \<and> seq_rel gp ctx s r)"

text \<open>A new gate corresponds to the initial state of the steps.\<close>

lemma corresponds_init:
  assumes "g_init_done s" "cp \<noteq> 0" "ctx_heap s cp = Some ctx" "alloc_wf ctx s" "in_use ctx s = {}" "callback_of s gp \<noteq> 0"
    and null: "\<And>c w. read_cb gp (int c) s = Inr w \<Longrightarrow> w = ucast HANDLE_NULL" and r: "rc_init r"
  shows "corresponds gp cp s r"
proof -
  have "rc_inv rc_limit r" by (rule rc_inv_init [OF r])
  moreover have "pc r t = Idle" "cbs r c = ucast HANDLE_NULL" "status r h = Unused" for t c h
    using r by (simp_all add: rc_init_def)
  ultimately have "seq_rel gp ctx s r" using assms(4-6) null by (auto simp: seq_rel_def)
  with assms(1-3) show ?thesis by (auto simp: corresponds_def)
qed

text \<open>
  Claim C7. A call of make-version, acquire, release, exchange, compare-exchange, set-object or
  free-version, as the code is transcribed with its arenas, heap and failing compare-and-swaps,
  that keeps the caller's rules returns without an error and is a run of the atomic steps of one
  thread: from corresponding states it ends in corresponding states, the callback gets the same
  objects, and the result is the one the steps report.
\<close>

theorem calls_refine_steps:
  assumes "corresponds gp cp s r" "allowed gp cp t call s r"
  shows "\<exists>ret s' ls r'. exec_call gp t call s = Inr (ret, s') \<and> rc_run t ls r r' \<and> corresponds gp cp s' r' \<and>
    tls s' = tls s \<and> log_objects s' = log_objects s @ called r ls \<and> ret_ok s' ls ret"
proof -
  obtain ctx where c: "g_init_done s" "cp \<noteq> 0" "ctx_heap s cp = Some ctx" "seq_rel gp ctx s r"
    using assms(1) by (auto simp: corresponds_def)
  from call_refines [OF c(4) assms(2) c(1-3)] c(1-3) show ?thesis
    unfolding refines_def corresponds_def by metis
qed

text \<open>A gate whose control block holds version \<open>h\<close>, referenced once, by thread 1.\<close>

definition held_once :: "u32 \<Rightarrow> rc_state" where
  "held_once h = \<lparr>cbs = (\<lambda>_. ucast HANDLE_NULL)(0 := pack32 1 h), inner = (\<lambda>_. 0), obj = (\<lambda>_. 0), pc = (\<lambda>_. Idle),
     status = (\<lambda>_. Unused)(h := Published 0), holders = (\<lambda>_. {#})(h := {#1#}), allocs = (\<lambda>_. 0)(h := 1), calls = (\<lambda>_. [])\<rparr>"

lemma held_once_rel:
  obtains s h where "corresponds 7 6 s (held_once h)" "read_cb 7 0 s = Inr (pack32 1 h)"
proof -
  obtain ctx s h p v where s: "live_version ctx s h p v" "inner_state v = 0" "gate v = 7" "read_cb 7 0 s = Inr (pack32 1 h)"
    "callback_of s 7 = 9" "in_use ctx s = {h}" "object v = 0" "\<And>i x. read_cb 7 i s = Inr x \<Longrightarrow> i = 0"
    "g_init_done s" "ctx_heap s 6 = Some ctx"
    by (rule sample_live [where w = 0 and r = 1]) blast
  have st: "alloc_st ctx s {h}" using s(1,6) by (simp add: live_version_def alloc_st_iff)
  have h: "h \<noteq> HANDLE_NULL" by (rule in_use_version [OF st insertI1]) blast
  have inv: "rc_inv rc_limit (held_once h)"
    unfolding rc_inv_def using h by (auto simp: held_once_def pins_def cb_ok_def)
  have cb: "cbs (held_once h) c = x" if "read_cb 7 (int c) s = Inr x" for c x
    using that s(4) s(8) [OF that] by (simp add: held_once_def)
  have "seq_rel 7 ctx s (held_once h)"
    unfolding seq_rel_def using inv cb s(1-3,5-7) by (auto simp: live_version_def held_once_def)
  then have "corresponds 7 6 s (held_once h)" using s(9,10) by (auto simp: corresponds_def)
  with s(4) show thesis using that by blast
qed

theorem calls_refine_steps_witness:
  "\<exists>s h ret s' ls r'. exec_call 7 0 (Call_Exchange 0 HANDLE_NULL) s = Inr (ret, s') \<and> read_cb 7 0 s = Inr (pack32 1 h) \<and>
     rc_run 0 ls (held_once h) r' \<and> corresponds 7 6 s' r'"
proof -
  obtain s h where s: "corresponds 7 6 s (held_once h)" "read_cb 7 0 s = Inr (pack32 1 h)" by (rule held_once_rel)
  then have "allowed 7 6 0 (Call_Exchange 0 HANDLE_NULL) s (held_once h)" by (simp add: may_install_def)
  from calls_refine_steps [OF s(1) this] s(2) show ?thesis by blast
qed

end
