(* ===== verification/Tagged_Pool.thy ===== *)
theory Tagged_Pool
  imports Prelude
begin

text \<open>
  \<open>TaggedFreeList\<close> of \<open>microbench/bench2/lf_pool.hpp\<close>: a lock-free stack of memory blocks
  whose head word carries a pointer and a 4-bit tag in the bits that alignment leaves free. The
  lemmas show the stack discipline of the operations run by one thread, the packing and the size
  arithmetic; the last section shows what the 4-bit tag does not prevent.
\<close>

section \<open>State and packing\<close>

text \<open>
  \<open>node_next p\<close> is the \<open>next\<close> member of the node at address \<open>p\<close>. Addresses and sizes are
  64-bit words; the null pointer is 0.
\<close>

record tagged_free_list =
  list_head :: u64
  blk_size :: u64
  blk_align :: u64
  node_next :: "u64 \<Rightarrow> u64"

definition sizeof_Node :: u64 where
  "sizeof_Node = 8"

definition TaggedFreeList :: "u64 \<Rightarrow> u64 \<Rightarrow> (u64 \<Rightarrow> u64) \<Rightarrow> tagged_free_list" where
  "TaggedFreeList block_size align memory =
     (let a1 = (if align < 16 then 16 else align);
          a2 = (if a1 AND (a1 - 1) \<noteq> 0 then 16 else a1);
          b = (if block_size < sizeof_Node then sizeof_Node else block_size)
      in \<lparr>list_head = 0, blk_size = b, blk_align = a2, node_next = memory\<rparr>)"

definition pack :: "u64 \<Rightarrow> u64 \<Rightarrow> u64" where
  "pack p tag4 = p OR (tag4 AND 0xF)"

definition ptr_from :: "u64 \<Rightarrow> u64" where
  "ptr_from v = v AND NOT 0xF"

definition tag_from :: "u64 \<Rightarrow> u64" where
  "tag_from v = v AND 0xF"

definition round_up :: "u64 \<Rightarrow> u64 \<Rightarrow> u64" where
  "round_up x a = (x + a - 1) AND NOT (a - 1)"

section \<open>Operations\<close>

text \<open>
  \<open>aligned_alloc_block\<close>: \<open>sys a sz\<close> is the address the system allocator returns for a
  request of \<open>sz\<close> bytes aligned to \<open>a\<close>, 0 where it fails, in which case
  \<open>std::bad_alloc\<close> is thrown (\<^term>\<open>None\<close>). The block is cleared, its first word being
  the \<open>next\<close> member of a node.
\<close>

definition aligned_alloc_block :: "(u64 \<Rightarrow> u64 \<Rightarrow> u64) \<Rightarrow> tagged_free_list \<Rightarrow> (u64 \<times> tagged_free_list) option" where
  "aligned_alloc_block sys l =
     (let sz = round_up (blk_size l) (blk_align l);
          p = sys (blk_align l) sz in
      if p = 0 then None else Some (p, l\<lparr>node_next := (node_next l)(p := 0)\<rparr>))"

text \<open>
  One attempt of \<open>alloc\<close>: the word the compare-and-swap wants to install for the head word
  \<open>w\<close>, computed from the memory as it is now.
\<close>

definition alloc_next :: "tagged_free_list \<Rightarrow> u64 \<Rightarrow> u64" where
  "alloc_next l w = pack (node_next l (ptr_from w)) ((tag_from w + 1) AND 0xF)"

text \<open>
  The loop of \<open>alloc\<close> from head word \<open>w\<close>, with \<open>n\<close> spurious failures left. \<^term>\<open>None\<close>
  is \<open>std::bad_alloc\<close>.
\<close>

function alloc_loop :: "nat \<Rightarrow> u64 \<Rightarrow> (u64 \<Rightarrow> u64 \<Rightarrow> u64) \<Rightarrow> tagged_free_list \<Rightarrow> (u64 \<times> tagged_free_list) option" where
  "alloc_loop n w sys l =
     (let p = ptr_from w in
      if p = 0 then aligned_alloc_block sys l
      else if list_head l = w \<and> n = 0 then Some (p, l\<lparr>list_head := alloc_next l w\<rparr>)
      else alloc_loop (n - 1) (list_head l) sys l)"
  by pat_completeness auto
termination
  by (relation "measure (\<lambda>(n, w, sys, l). n + (if list_head l = w then 0 else 1))") auto

definition alloc :: "nat \<Rightarrow> (u64 \<Rightarrow> u64 \<Rightarrow> u64) \<Rightarrow> tagged_free_list \<Rightarrow> (u64 \<times> tagged_free_list) option" where
  "alloc n sys l = alloc_loop n (list_head l) sys l"

function free_loop :: "nat \<Rightarrow> u64 \<Rightarrow> u64 \<Rightarrow> tagged_free_list \<Rightarrow> tagged_free_list" where
  "free_loop n w p l =
     (let l1 = l\<lparr>node_next := (node_next l)(p := ptr_from w)\<rparr>;
          nxt = pack p ((tag_from w + 1) AND 0xF) in
      if list_head l1 = w \<and> n = 0 then l1\<lparr>list_head := nxt\<rparr>
      else free_loop (n - 1) (list_head l1) p l1)"
  by pat_completeness auto
termination
  by (relation "measure (\<lambda>(n, w, p, l). n + (if list_head l = w then 0 else 1))") auto

declare alloc_loop.simps [simp del] free_loop.simps [simp del]

definition free :: "nat \<Rightarrow> u64 \<Rightarrow> tagged_free_list \<Rightarrow> tagged_free_list" where
  "free n p l = (if p = 0 then l else free_loop n (list_head l) p l)"

section \<open>Packing and sizes\<close>

lemma low_bits_mask: "(0xF :: u64) = mask 4"
  by (simp add: mask_eq_exp_minus_1)

definition aligned16 :: "u64 \<Rightarrow> bool" where
  "aligned16 p \<longleftrightarrow> p AND 0xF = 0"

lemma aligned16_bit: "aligned16 p \<Longrightarrow> n < 4 \<Longrightarrow> \<not> bit p n"
  unfolding aligned16_def low_bits_mask by (metis bit_and_iff bit_mask_iff bit_0_eq bot_apply bot_bool_def
      bit_imp_possible_bit)

lemma ptr_from_pack: "aligned16 p \<Longrightarrow> ptr_from (pack p t) = p"
  unfolding ptr_from_def pack_def low_bits_mask
  by (rule bit_eqI) (auto simp: bit_simps dest: aligned16_bit intro: ccontr)

lemma tag_from_pack: "aligned16 p \<Longrightarrow> tag_from (pack p t) = t AND 0xF"
  unfolding tag_from_def pack_def low_bits_mask
  by (rule bit_eqI) (auto simp: bit_simps dest: aligned16_bit)

lemma pack_eta: "pack (ptr_from v) (tag_from v) = v"
  unfolding ptr_from_def tag_from_def pack_def low_bits_mask
  by (rule bit_eqI) (auto simp: bit_simps)

lemma aligned16_ptr_from: "aligned16 (ptr_from v)"
  unfolding aligned16_def ptr_from_def low_bits_mask
  by (rule bit_eqI) (auto simp: bit_simps)

lemma and_not_mask_unat:
  fixes y :: u64
  shows "unat (y AND NOT (mask k)) = unat y div 2 ^ k * 2 ^ k"
proof -
  have "y AND NOT (mask k) = push_bit k (drop_bit k y)"
    by (rule bit_eqI) (auto simp: bit_simps)
  also have "\<dots> = y - take_bit k y" using bits_ident [of k y] by (metis add_diff_cancel_right')
  finally have eq: "y AND NOT (mask k) = y - take_bit k y" .
  have le: "take_bit k y \<le> y" by (simp add: word_le_nat_alt unsigned_take_bit_eq take_bit_nat_less_eq_self)
  have "unat (y - take_bit k y) = unat y - take_bit k (unat y)"
    by (simp only: unat_sub [OF le] unsigned_take_bit_eq)
  then show ?thesis
    unfolding eq by (simp only: take_bit_eq_mod minus_mod_eq_div_mult)
qed

lemma round_up_unat:
  assumes "unat x + 2 ^ k \<le> 2 ^ 64"
  shows "unat (round_up x (2 ^ k)) = (unat x + 2 ^ k - 1) div 2 ^ k * 2 ^ k"
proof -
  have "1 \<le> unat x + 2 ^ k" using one_le_power [of "2::nat" k] by linarith
  then have "x + 2 ^ k - 1 = of_nat (unat x + 2 ^ k - 1)"
    by (simp add: of_nat_diff del: One_nat_def)
  moreover have "unat (of_nat (unat x + 2 ^ k - 1) :: u64) = unat x + 2 ^ k - 1"
    using assms by (simp add: unat_of_nat take_bit_nat_eq_self del: One_nat_def)
  ultimately have "unat (x + 2 ^ k - 1) = unat x + 2 ^ k - 1" by simp
  moreover have "(2 ^ k - 1 :: u64) = mask k" by (simp add: mask_eq_exp_minus_1)
  ultimately show ?thesis
    unfolding round_up_def by (simp only: and_not_mask_unat)
qed

section \<open>The list of free blocks\<close>

fun blocks :: "(u64 \<Rightarrow> u64) \<Rightarrow> u64 \<Rightarrow> u64 list \<Rightarrow> bool" where
  "blocks nx p [] \<longleftrightarrow> p = 0"
| "blocks nx p (x # xs) \<longleftrightarrow> p = x \<and> x \<noteq> 0 \<and> aligned16 x \<and> blocks nx (nx x) xs"

definition free_list :: "tagged_free_list \<Rightarrow> u64 list \<Rightarrow> bool" where
  "free_list l xs \<longleftrightarrow> blocks (node_next l) (ptr_from (list_head l)) xs \<and> distinct xs"

lemma blocks_upd [simp]: "p \<notin> set xs \<Longrightarrow> blocks (nx(p := v)) q xs = blocks nx q xs"
  by (induction xs arbitrary: q) auto

lemma blocks_aligned: "blocks nx p xs \<Longrightarrow> aligned16 p"
  by (cases xs) (auto simp: aligned16_def)

lemma free_loop_eq:
  "free_loop n w p l = l\<lparr>node_next := (node_next l)(p := ptr_from (list_head l)),
     list_head := pack p ((tag_from (list_head l) + 1) AND 0xF)\<rparr>"
proof -
  have fresh: "free_loop n (list_head l) p l = l\<lparr>node_next := (node_next l)(p := ptr_from (list_head l)),
     list_head := pack p ((tag_from (list_head l) + 1) AND 0xF)\<rparr>" for n l
    by (induction n arbitrary: l) (subst free_loop.simps, simp add: Let_def)+
  show ?thesis
  proof (cases "w = list_head l")
    case True
    with fresh show ?thesis by simp
  next
    case False
    then have "free_loop n w p l =
        free_loop (n - 1) (list_head l) p (l\<lparr>node_next := (node_next l)(p := ptr_from w)\<rparr>)"
      by (simp add: free_loop.simps [of n w] Let_def)
    with fresh [of "n - 1" "l\<lparr>node_next := (node_next l)(p := ptr_from w)\<rparr>"] show ?thesis by simp
  qed
qed

lemma alloc_loop_eq:
  "ptr_from (list_head l) \<noteq> 0 \<Longrightarrow>
   alloc_loop n (list_head l) sys l = Some (ptr_from (list_head l), l\<lparr>list_head := alloc_next l (list_head l)\<rparr>)"
  by (induction n) (subst alloc_loop.simps, simp add: Let_def)+

section \<open>Properties\<close>

text \<open>
  The free list is a stack: \<open>free\<close> pushes a block, \<open>alloc\<close> pops the one pushed last
  and asks the system only when the list is empty; both end however often the weak
  compare-and-swap fails spuriously, and every operation on the head advances the 4-bit tag.
\<close>

theorem tagged_list_stack:
  assumes "free_list l xs" "p \<noteq> 0" "aligned16 p" "p \<notin> set xs"
  shows "free_list (free n p l) (p # xs) \<and>
    tag_from (list_head (free n p l)) = (tag_from (list_head l) + 1) AND 0xF \<and>
    (\<exists>l'. alloc m sys (free n p l) = Some (p, l') \<and> free_list l' xs) \<and>
    (xs = [] \<longrightarrow> alloc m sys l = aligned_alloc_block sys l)"
proof -
  let ?w = "pack p ((tag_from (list_head l) + 1) AND 0xF)"
  let ?l = "l\<lparr>node_next := (node_next l)(p := ptr_from (list_head l)), list_head := ?w\<rparr>"
  have eq: "free n p l = ?l" using assms(2) by (simp add: free_def free_loop_eq)
  have w: "ptr_from ?w = p" using assms(3) by (rule ptr_from_pack)
  have pushed: "free_list ?l (p # xs)"
    using assms w by (simp add: free_list_def)
  have "alloc m sys ?l = Some (p, ?l\<lparr>list_head := alloc_next ?l ?w\<rparr>)"
    using alloc_loop_eq [of ?l m sys] w assms(2) by (simp add: alloc_def)
  moreover have "free_list (?l\<lparr>list_head := alloc_next ?l ?w\<rparr>) xs"
    using assms w by (simp add: free_list_def alloc_next_def ptr_from_pack aligned16_ptr_from)
  moreover have "alloc m sys l = aligned_alloc_block sys l"
    if "xs = []"
    using assms(1) that by (simp add: alloc_def alloc_loop.simps free_list_def)
  moreover have "tag_from ?w = (tag_from (list_head l) + 1) AND 0xF"
    using tag_from_pack [OF assms(3)] by (simp add: and.assoc)
  ultimately show ?thesis using pushed eq by auto
qed

definition empty_list :: tagged_free_list where
  "empty_list = TaggedFreeList 64 64 (\<lambda>_. 0)"

theorem tagged_list_stack_witness: "free_list (free 3 0x1000 empty_list) [0x1000]"
proof -
  have "free_list empty_list []" by (simp add: free_list_def empty_list_def TaggedFreeList_def Let_def ptr_from_def)
  from tagged_list_stack [OF this, of "0x1000" 3] show ?thesis by (simp add: aligned16_def)
qed

text \<open>
  The head word keeps pointer and tag apart for every 16-byte aligned block, and every
  word splits and repacks to itself; the constructor's alignment is a power of two of at least
  16 and its block size at least that of a node, so blocks are aligned as the packing needs.
\<close>

theorem pack_roundtrip:
  assumes "aligned16 p"
  shows "ptr_from (pack p t) = p \<and> tag_from (pack p t) = t AND 0xF \<and> pack (ptr_from v) (tag_from v) = v \<and>
    16 \<le> blk_align (TaggedFreeList b a m) \<and>
    blk_align (TaggedFreeList b a m) AND (blk_align (TaggedFreeList b a m) - 1) = 0 \<and>
    8 \<le> blk_size (TaggedFreeList b a m)"
  using assms
  by (simp add: ptr_from_pack tag_from_pack pack_eta TaggedFreeList_def sizeof_Node_def Let_def not_less)

theorem pack_roundtrip_witness: "ptr_from (pack 0x7F00 0x2B) = 0x7F00 \<and> tag_from (pack 0x7F00 0x2B) = 0xB"
proof -
  have "aligned16 0x7F00" by (simp add: aligned16_def)
  from pack_roundtrip [OF this, of "0x2B"] show ?thesis by simp
qed

text \<open>
  \<open>round_up\<close> gives the least multiple of a power of two that is not smaller than its
  argument, as long as that does not exceed the address space.
\<close>

theorem round_up_correct:
  assumes "k < 64" "unat x + 2 ^ k \<le> 2 ^ 64"
  shows "2 ^ k dvd unat (round_up x (2 ^ k)) \<and> unat x \<le> unat (round_up x (2 ^ k)) \<and>
    unat (round_up x (2 ^ k)) < unat x + 2 ^ k"
proof -
  let ?n = "unat x + 2 ^ k - 1"
  have eq: "unat (round_up x (2 ^ k)) = ?n div 2 ^ k * 2 ^ k" by (rule round_up_unat [OF assms(2)])
  have pos: "(0::nat) < 2 ^ k" by simp
  have le: "?n div 2 ^ k * 2 ^ k \<le> ?n" by simp
  have "?n < 2 ^ k + ?n div 2 ^ k * 2 ^ k" by (rule dividend_less_div_times) simp
  with le pos have "unat x \<le> ?n div 2 ^ k * 2 ^ k" "?n div 2 ^ k * 2 ^ k < unat x + 2 ^ k" by linarith+
  then show ?thesis unfolding eq by simp
qed

theorem round_up_correct_witness: "unat (round_up 100 (2 ^ 6)) = 128"
proof -
  have r: "64 dvd unat (round_up 100 (2 ^ 6)) \<and> 100 \<le> unat (round_up 100 (2 ^ 6)) \<and>
      unat (round_up 100 (2 ^ 6)) < 164"
    using round_up_correct [of 6 100] by simp
  then show ?thesis by (auto simp: dvd_def)
qed

section \<open>Sequences of operations, and the 4-bit tag\<close>

text \<open>
  A thread's calls on the list as a sequence, each call completing before the next; the result
  lists the blocks that the \<open>alloc\<close> calls return. \<open>alloc_cas\<close> is the compare-and-swap of one
  attempt of \<open>alloc\<close> that read the head \<open>w\<close> and computed \<open>nxt\<close> before other threads ran.
\<close>

datatype pool_op = Alloc | Free u64

fun run_ops :: "(u64 \<Rightarrow> u64 \<Rightarrow> u64) \<Rightarrow> pool_op list \<Rightarrow> tagged_free_list \<Rightarrow> (u64 list \<times> tagged_free_list) option" where
  "run_ops sys [] l = Some ([], l)"
| "run_ops sys (Alloc # ops) l =
     (case alloc 0 sys l of None \<Rightarrow> None
      | Some (p, l') \<Rightarrow> map_option (\<lambda>(ps, l''). (p # ps, l'')) (run_ops sys ops l'))"
| "run_ops sys (Free p # ops) l = run_ops sys ops (free 0 p l)"

definition alloc_cas :: "u64 \<Rightarrow> u64 \<Rightarrow> tagged_free_list \<Rightarrow> (u64 \<times> tagged_free_list) option" where
  "alloc_cas w nxt l = (if list_head l = w then Some (ptr_from w, l\<lparr>list_head := nxt\<rparr>) else None)"

definition rep :: "tagged_free_list \<Rightarrow> u64 list \<Rightarrow> u64 \<Rightarrow> bool" where
  "rep l xs t \<longleftrightarrow> free_list l xs \<and> tag_from (list_head l) = t AND 0xF"

lemma tag_add: "((a AND 0xF) + b) AND 0xF = (a + b :: u64) AND 0xF"
proof -
  have low: "unat (x AND 0xF) = unat x mod 16" for x :: u64
    by (simp add: low_bits_mask take_bit_eq_mask [symmetric] take_bit_eq_mod unat_mod)
  have "unat (x + y) mod 16 = (unat x + unat y) mod 16" for x y :: u64
    by (simp add: unat_word_ariths mod_mod_cancel)
  then have "unat (((a AND 0xF) + b) AND 0xF) = unat ((a + b) AND 0xF)"
    by (simp only: low mod_add_left_eq)
  then show ?thesis by (simp only: word_unat_eq_iff)
qed

lemma rep_init: "free_list l xs \<Longrightarrow> rep l xs (tag_from (list_head l))"
  by (simp add: rep_def tag_from_def and.assoc)

lemma rep_alloc:
  assumes "rep l (p # xs) t"
  shows "\<exists>l'. alloc n sys l = Some (p, l') \<and> rep l' xs (t + 1)"
proof -
  have b: "ptr_from (list_head l) = p" "p \<noteq> 0" "blocks (node_next l) (node_next l p) xs" "distinct xs"
    using assms by (auto simp: rep_def free_list_def)
  let ?l = "l\<lparr>list_head := alloc_next l (list_head l)\<rparr>"
  have a: "aligned16 (node_next l p)" using b(3) by (rule blocks_aligned)
  have "alloc n sys l = Some (p, ?l)" using b alloc_loop_eq by (simp add: alloc_def)
  moreover have "rep ?l xs (t + 1)"
    using assms b a by (simp add: rep_def free_list_def alloc_next_def ptr_from_pack tag_from_pack and.assoc tag_add)
  ultimately show ?thesis by blast
qed

lemma rep_free:
  assumes "rep l xs t" "p \<noteq> 0" "aligned16 p" "p \<notin> set xs"
  shows "rep (free n p l) (p # xs) (t + 1)"
  using assms
  by (simp add: rep_def free_list_def free_def free_loop_eq ptr_from_pack tag_from_pack and.assoc tag_add)

lemma rep_head_cong:
  assumes "rep l (p # xs) t" "rep l' (p # ys) u" "t AND 0xF = u AND 0xF"
  shows "list_head l' = list_head l"
proof -
  have "ptr_from (list_head l') = ptr_from (list_head l)" "tag_from (list_head l') = tag_from (list_head l)"
    using assms by (simp_all add: rep_def free_list_def)
  then show ?thesis by (metis pack_eta)
qed

lemma run_ops_cycles:
  assumes "rep l (p # xs) t"
  shows "\<exists>l'. run_ops sys (concat (replicate k [Alloc, Free p])) l = Some (replicate k p, l') \<and>
    rep l' (p # xs) (t + 2 * of_nat k)"
  using assms
proof (induction k arbitrary: l t)
  case 0
  then show ?case by simp
next
  case (Suc k)
  obtain l1 where l1: "alloc 0 sys l = Some (p, l1)" "rep l1 xs (t + 1)" using rep_alloc [OF Suc.prems] by blast
  have "p \<noteq> 0" "aligned16 p" "p \<notin> set xs" using Suc.prems by (auto simp: rep_def free_list_def)
  with l1(2) have "rep (free 0 p l1) (p # xs) (t + 1 + 1)" by (rule rep_free)
  from Suc.IH [OF this] l1(1) show ?case by (auto simp: algebra_simps)
qed

definition aba_ops :: "u64 \<Rightarrow> pool_op list" where
  "aba_ops p = Alloc # Alloc # Alloc # Free p # concat (replicate 6 [Alloc, Free p])"

lemma run_aba_ops:
  assumes "rep l (p # q # s # xs) t"
  shows "\<exists>l'. run_ops sys (aba_ops p) l = Some (p # q # s # replicate 6 p, l') \<and> rep l' (p # xs) (t + 16)"
proof -
  obtain l1 where l1: "alloc 0 sys l = Some (p, l1)" "rep l1 (q # s # xs) (t + 1)" using rep_alloc [OF assms] by blast
  obtain l2 where l2: "alloc 0 sys l1 = Some (q, l2)" "rep l2 (s # xs) (t + 1 + 1)" using rep_alloc [OF l1(2)] by blast
  obtain l3 where l3: "alloc 0 sys l2 = Some (s, l3)" "rep l3 xs (t + 1 + 1 + 1)" using rep_alloc [OF l2(2)] by blast
  have "p \<noteq> 0" "aligned16 p" "p \<notin> set xs" using assms by (auto simp: rep_def free_list_def)
  with l3(2) have "rep (free 0 p l3) (p # xs) (t + 1 + 1 + 1 + 1)" by (rule rep_free)
  from run_ops_cycles [OF this, of sys 6] show ?thesis
    using l1(1) l2(1) l3(1) by (auto simp: aba_ops_def algebra_simps)
qed

text \<open>
  Claim C30. Sixteen operations on the head bring the 4-bit tag back, so the tag does not exclude
  the ABA problem: a thread that is delayed inside \<open>alloc\<close> between reading the head and its
  compare-and-swap, while another one allocates \<open>p\<close>, \<open>q\<close> and \<open>s\<close>, frees \<open>p\<close> and then allocates
  and frees \<open>p\<close> six times, still succeeds; it installs \<open>q\<close> as the head although the other
  thread holds \<open>q\<close>, and the next call of \<open>alloc\<close> hands \<open>q\<close> out a second time.
\<close>

theorem tag_wraps_aba:
  assumes "free_list l (p # q # s # xs)"
  shows "\<exists>l1 l2 l3. run_ops sys (aba_ops p) l = Some (p # q # s # replicate 6 p, l1) \<and>
    alloc_cas (list_head l) (alloc_next l (list_head l)) l1 = Some (p, l2) \<and>
    alloc n sys l2 = Some (q, l3)"
proof -
  let ?w = "list_head l"
  have b: "ptr_from ?w = p" "node_next l p = q" "q \<noteq> 0" "aligned16 q"
    using assms by (auto simp: free_list_def)
  have r: "rep l (p # q # s # xs) (tag_from ?w)" using assms by (rule rep_init)
  obtain l1 where l1: "run_ops sys (aba_ops p) l = Some (p # q # s # replicate 6 p, l1)"
    "rep l1 (p # xs) (tag_from ?w + 16)"
    using run_aba_ops [OF r] by blast
  have "tag_from ?w AND 0xF = (tag_from ?w + 16) AND 0xF"
    using tag_add [of 16 "tag_from ?w"] by (simp add: add.commute)
  from rep_head_cong [OF r l1(2) this] have cas: "list_head l1 = ?w" .
  let ?l2 = "l1\<lparr>list_head := alloc_next l ?w\<rparr>"
  have "alloc_cas ?w (alloc_next l ?w) l1 = Some (p, ?l2)" using cas b by (simp add: alloc_cas_def)
  moreover have "alloc n sys ?l2 = Some (q, ?l2\<lparr>list_head := alloc_next ?l2 (list_head ?l2)\<rparr>)"
    using alloc_loop_eq [of ?l2 n sys] b by (simp add: alloc_def alloc_next_def [of l] ptr_from_pack)
  ultimately show ?thesis using l1(1) by blast
qed

theorem tag_wraps_aba_witness:
  "\<exists>w nxt l1 l2 l3. run_ops (\<lambda>_ _. 0) (aba_ops 0x30) (free 0 0x30 (free 0 0x20 (free 0 0x10 empty_list))) =
      Some (0x30 # 0x20 # 0x10 # replicate 6 0x30, l1) \<and>
    alloc_cas w nxt l1 = Some (0x30, l2) \<and> alloc 0 (\<lambda>_ _. 0) l2 = Some (0x20, l3)"
proof -
  have a: "aligned16 0x10" "aligned16 0x20" "aligned16 0x30" by (simp_all add: aligned16_def)
  have "rep empty_list [] 0"
    by (simp add: rep_def free_list_def empty_list_def TaggedFreeList_def Let_def ptr_from_def tag_from_def)
  from rep_free [OF rep_free [OF rep_free [OF this, of "0x10" 0], of "0x20" 0], of "0x30" 0] a
  have "free_list (free 0 0x30 (free 0 0x20 (free 0 0x10 empty_list))) [0x30, 0x20, 0x10]"
    by (simp add: rep_def)
  from tag_wraps_aba [OF this, of "\<lambda>_ _. 0" 0] show ?thesis by blast
qed

end
