(* ===== verification/Client_Compose.thy ===== *)
theory Client_Compose
  imports Refcount_Conc
begin

text \<open>
  Programs that use the library. A program thread is a state machine that calls the library and
  works on objects of its own; it is composed with the interleaving model of \<open>Refcount_Conc\<close> by
  synchronising on the labels of the library's steps. The locale \<open>snapshot_client\<close> states the
  rules a program keeps (an object is written only before it is published, a version is used only
  between acquire and release) and shows once, for every such program, that no thread ever fails
  its checks on what it reads. The theories of the example programs interpret it.
\<close>

section \<open>Composition\<close>

text \<open>
  \<open>heap\<close> holds the objects the versions point to, by address; \<^term>\<open>None\<close> is memory that is
  not allocated. \<open>loc t\<close> is the program point of thread \<open>t\<close> with its local variables. The
  callback the programs install deletes the object.
\<close>

record ('d, 'p) client_state =
  lib :: rc_state
  heap :: "nat \<Rightarrow> 'd option"
  loc :: "nat \<Rightarrow> 'p"

fun label_heap :: "rc_label \<Rightarrow> rc_state \<Rightarrow> (nat \<Rightarrow> 'd option) \<Rightarrow> nat \<Rightarrow> 'd option" where
  "label_heap (L_Callback h) r hp = hp(obj r h := None)"
| "label_heap _ r hp = hp"

text \<open>
  \<open>call p l\<close> is the point a thread at \<open>p\<close> reaches by the library step \<open>l\<close>, if that step is
  one the program makes there. \<open>local stop a ob p hp\<close> is a step of the program itself: \<open>stop\<close>
  is the answer of the clock, \<open>a\<close> the address a memory allocation returns, \<open>ob\<close> the objects of
  the versions as \<open>atomsnap_get_object\<close> reads them.
\<close>

inductive client_step ::
  "('p \<Rightarrow> rc_label \<Rightarrow> 'p option) \<Rightarrow>
   (bool \<Rightarrow> nat \<Rightarrow> (u32 \<Rightarrow> nat) \<Rightarrow> 'p \<Rightarrow> (nat \<Rightarrow> 'd option) \<Rightarrow> 'p \<times> (nat \<Rightarrow> 'd option)) \<Rightarrow>
   nat \<Rightarrow> ('d, 'p) client_state \<Rightarrow> ('d, 'p) client_state \<Rightarrow> bool"
  for call local lim where
  Call:
    "rc_act lim t l (lib s) r \<Longrightarrow> call (loc s t) l = Some p \<Longrightarrow>
     client_step call local lim s
       (s\<lparr>lib := r, heap := label_heap l (lib s) (heap s), loc := (loc s)(t := p)\<rparr>)"
| Local:
    "pc (lib s) t = Idle \<Longrightarrow> a \<noteq> 0 \<Longrightarrow> heap s a = None \<Longrightarrow>
     local stop a (obj (lib s)) (loc s t) (heap s) = (p, hp) \<Longrightarrow>
     client_step call local lim s (s\<lparr>heap := hp, loc := (loc s)(t := p)\<rparr>)"

section \<open>The discipline of a client\<close>

text \<open>
  What a thread has at a program point: a version it made and has not published, one it has
  acquired, an object it allocated and has not attached, the object attached to the version it
  made, and the pointer it got from the acquired version.
\<close>

record client_view =
  made :: "u32 option"
  held :: "u32 option"
  raw :: "nat option"
  mine :: "nat option"
  ptr :: "nat option"

definition data :: "client_view \<Rightarrow> nat option" where
  "data v = (case raw v of None \<Rightarrow> mine v | Some q \<Rightarrow> Some q)"

lemma data_upd [simp]:
  "data (v\<lparr>held := x\<rparr>) = data v" "data (v\<lparr>ptr := y\<rparr>) = data v" "data (v\<lparr>made := z\<rparr>) = data v"
  by (simp_all add: data_def split: option.splits)

lemma in_other_mset: "u \<noteq> t \<Longrightarrow> u \<in># M \<Longrightarrow> u \<in># M - {#t#}"
  by (simp add: in_diff_count)

text \<open>The calls a thread may make, and how its view changes; \<open>G\<close> are the control blocks in use.\<close>

fun view_call :: "nat set \<Rightarrow> client_view \<Rightarrow> rc_label \<Rightarrow> client_view \<Rightarrow> bool" where
  "view_call G v (L_Make h) w \<longleftrightarrow> made v = None \<and> mine v = None \<and> w = v\<lparr>made := Some h\<rparr>"
| "view_call G v (L_Set h q) w \<longleftrightarrow>
     made v = Some h \<and> raw v = Some q \<and> w = v\<lparr>raw := None, mine := Some q\<rparr>"
| "view_call G v (L_Free h) w \<longleftrightarrow> False"
| "view_call G v (L_Acquire c h) w \<longleftrightarrow>
     c \<in> G \<and> held v = None \<and> ptr v = None \<and> w = v\<lparr>held := handle_opt h\<rparr>"
| "view_call G v (L_Release h) w \<longleftrightarrow> held v = Some h \<and> w = v\<lparr>held := None, ptr := None\<rparr>"
| "view_call G v (L_Exchange c n) w \<longleftrightarrow>
     c \<in> G \<and> made v = Some n \<and> mine v \<noteq> None \<and> raw v = None \<and> w = v\<lparr>made := None, mine := None\<rparr>"
| "view_call G v (L_Cx c e n) w \<longleftrightarrow>
     c \<in> G \<and> made v = Some n \<and> mine v \<noteq> None \<and> raw v = None \<and> held v = Some e \<and> w = v"
| "view_call G v (L_Cx_Refuse c e n) w \<longleftrightarrow> w = v"
| "view_call G v L_Cx_False w \<longleftrightarrow> w = v"
| "view_call G v L_Cx_True w \<longleftrightarrow> w = v\<lparr>made := None, mine := None\<rparr>"
| "view_call G v (L_Callback h) w \<longleftrightarrow> w = v"
| "view_call G v L_Tau w \<longleftrightarrow> w = v"

text \<open>
  A step of the program itself: it allocates an object, writes one it has not published yet, or
  changes no memory; the pointers it has keep pointing to the object of the acquired version.
\<close>

definition view_local ::
  "nat \<Rightarrow> (u32 \<Rightarrow> nat) \<Rightarrow> client_view \<Rightarrow> (nat \<Rightarrow> 'd option) \<Rightarrow> client_view \<Rightarrow> (nat \<Rightarrow> 'd option) \<Rightarrow> bool" where
  "view_local a ob v hp w hp' \<longleftrightarrow>
     made w = made v \<and> held w = held v \<and> mine w = mine v \<and>
     (\<forall>q. ptr w = Some q \<longrightarrow> (\<exists>h. held v = Some h \<and> q = ob h)) \<and>
     (raw w = raw v \<and> (hp' = hp \<or> (\<exists>q d. data v = Some q \<and> hp' = hp(q := Some d))) \<or>
      data v = None \<and> raw w = Some a \<and> (\<exists>d. hp' = hp(a := Some d)))"

definition held_data :: "(u32 \<Rightarrow> nat) \<Rightarrow> client_view \<Rightarrow> (nat \<Rightarrow> 'd option) \<Rightarrow> 'd option" where
  "held_data ob v hp = (case held v of None \<Rightarrow> None | Some h \<Rightarrow> hp (ob h))"

definition own_data :: "client_view \<Rightarrow> (nat \<Rightarrow> 'd option) \<Rightarrow> 'd option" where
  "own_data v hp = (case data v of None \<Rightarrow> None | Some q \<Rightarrow> hp q)"

text \<open>Who may touch an object: the thread that prepares it, or the version it was published with.\<close>

datatype owner = Thread nat | Version u32

fun shared_status :: "vstatus \<Rightarrow> bool" where
  "shared_status (Published c) \<longleftrightarrow> True"
| "shared_status (Detaching t r) \<longleftrightarrow> True"
| "shared_status Detached \<longleftrightarrow> True"
| "shared_status _ \<longleftrightarrow> False"

lemma held_shared: "rc_inv lim s \<Longrightarrow> t \<in># holders s h \<Longrightarrow> shared_status (status s h)"
  by (drule (1) held_status) auto

definition cur_data :: "('d, 'p) client_state \<Rightarrow> nat \<Rightarrow> 'd option" where
  "cur_data s c = heap s (obj (lib s) (cb_handle (cbs (lib s) c)))"

text \<open>
  What a step of thread \<open>t\<close> leaves alone: objects and versions of other threads, and everything
  that readers can reach.
\<close>

definition client_frame ::
  "(nat \<Rightarrow> owner option) \<Rightarrow> (nat \<Rightarrow> owner option) \<Rightarrow> nat \<Rightarrow> ('d, 'p) client_state \<Rightarrow> ('d, 'p) client_state \<Rightarrow> bool" where
  "client_frame own own' t s s' \<longleftrightarrow>
     (\<forall>h. obj (lib s') h = obj (lib s) h \<or> status (lib s) h = Unused \<or> status (lib s) h = Private t) \<and>
     (\<forall>q. heap s' q = heap s q \<and> own' q = own q \<or> heap s q = None \<or> own q = Some (Thread t) \<or>
        (\<exists>h. own q = Some (Version h) \<and> pc (lib s) t = Fin_Call h \<and> pc (lib s') t = Fin_Free h)) \<and>
     (\<forall>n u. u \<noteq> t \<longrightarrow> status (lib s) n = Private u \<longrightarrow> status (lib s') n = Private u) \<and>
     (\<forall>h u. u \<noteq> t \<longrightarrow> u \<in># holders (lib s) h \<longrightarrow> u \<in># holders (lib s') h) \<and>
     (\<forall>u. u \<noteq> t \<longrightarrow> pc (lib s') u = pc (lib s) u \<and> loc s' u = loc s u) \<and>
     (\<forall>h u. status (lib s') h = Finalizing u \<and> pc (lib s') u \<noteq> Fin_Free h \<longrightarrow>
        shared_status (status (lib s) h) \<or> status (lib s) h = Finalizing u \<and> pc (lib s) u \<noteq> Fin_Free h)"

text \<open>
  The state in which the program's threads start: the main thread has published one version in
  each of the control blocks \<open>G\<close>, with an object that satisfies \<open>P\<close>, these are the program's only
  objects, and all calls have returned.
\<close>

definition client_start :: "nat set \<Rightarrow> ('d \<Rightarrow> bool) \<Rightarrow> 'p set \<Rightarrow> ('d, 'p) client_state \<Rightarrow> bool" where
  "client_start G P starts s \<longleftrightarrow>
     reach rc_init (rc_step rc_limit) (lib s) \<and> (\<forall>t. pc (lib s) t = Idle) \<and>
     (\<forall>h. holders (lib s) h = {#}) \<and> (\<forall>h t. status (lib s) h \<noteq> Private t) \<and>
     (\<forall>c\<in>G. cb_handle (cbs (lib s) c) \<noteq> HANDLE_NULL) \<and> heap s 0 = None \<and>
     (\<forall>h c. status (lib s) h = Published c \<longrightarrow> c \<in> G \<and> (\<exists>d. heap s (obj (lib s) h) = Some d \<and> P d)) \<and>
     (\<forall>q. heap s q \<noteq> None \<longrightarrow> (\<exists>h c. status (lib s) h = Published c \<and> obj (lib s) h = q)) \<and>
     inj_on (obj (lib s)) {h. \<exists>c. status (lib s) h = Published c} \<and> (\<forall>t. loc s t \<in> starts)"

lemma client_start_mono: "client_start G P A s \<Longrightarrow> A \<subseteq> B \<Longrightarrow> client_start G P B s"
  by (simp add: client_start_def subset_iff)

definition no_view :: client_view where
  "no_view = \<lparr>made = None, held = None, raw = None, mine = None, ptr = None\<rparr>"

text \<open>
  The contract. \<open>knows p dh dn\<close>: what a thread at \<open>p\<close> knows of the object it has acquired and of
  the one it is preparing; \<open>good\<close>: what it promises of every object it publishes; \<open>rank\<close> and
  \<open>least\<close>: a measure of objects that publication never lowers, and the value of it below which
  the thread does not expect to read; \<open>failed\<close>: points at which the program reports an error.
\<close>

locale snapshot_client =
  fixes call :: "'p \<Rightarrow> rc_label \<Rightarrow> 'p option"
    and local :: "bool \<Rightarrow> nat \<Rightarrow> (u32 \<Rightarrow> nat) \<Rightarrow> 'p \<Rightarrow> (nat \<Rightarrow> 'd option) \<Rightarrow> 'p \<times> (nat \<Rightarrow> 'd option)"
    and gates :: "nat set"
    and view :: "'p \<Rightarrow> client_view"
    and knows :: "'p \<Rightarrow> 'd option \<Rightarrow> 'd option \<Rightarrow> bool"
    and good :: "'d \<Rightarrow> bool"
    and rank :: "'d \<Rightarrow> int"
    and least :: "'p \<Rightarrow> int"
    and failed :: "'p \<Rightarrow> bool"
    and initial :: "'d \<Rightarrow> bool"
    and starts :: "'p set"
  assumes initial_good: "initial d \<Longrightarrow> good d"
    and initial_rank: "initial d \<Longrightarrow> initial d' \<Longrightarrow> rank d = rank d'"
    and starts_ok: "p \<in> starts \<Longrightarrow> view p = no_view \<and> \<not> failed p \<and> knows p None None \<and> (\<forall>d. initial d \<longrightarrow> least p \<le> rank d)"
    and gates_rank: "c \<in> gates \<Longrightarrow> c' \<in> gates \<Longrightarrow> c \<noteq> c' \<Longrightarrow> rank d = rank d'"
    and call_view: "call p l = Some p' \<Longrightarrow> view_call gates (view p) l (view p')"
    and call_failed: "call p l = Some p' \<Longrightarrow> \<not> failed p \<Longrightarrow> \<not> failed p'"
    and call_least: "call p l = Some p' \<Longrightarrow> least p' = least p"
    and call_knows: "call p l = Some p' \<Longrightarrow> knows p dh dn \<Longrightarrow>
      (\<forall>c h. l = L_Acquire c h \<longrightarrow> h \<noteq> HANDLE_NULL \<and> dh = None \<and> (\<exists>d. dh' = Some d \<and> good d)) \<Longrightarrow>
      (\<forall>h. l = L_Release h \<longrightarrow> dh' = None) \<Longrightarrow>
      ((\<forall>c h. l \<noteq> L_Acquire c h) \<and> (\<forall>h. l \<noteq> L_Release h) \<longrightarrow> dh' = dh) \<Longrightarrow>
      (if (\<exists>c n. l = L_Exchange c n) \<or> l = L_Cx_True then dn2 = None else dn2 = dn) \<Longrightarrow>
      knows p' dh' dn2"
    and exchange_ok: "call p (L_Exchange c n) = Some p' \<Longrightarrow> knows p dh (Some d) \<Longrightarrow>
      good d \<and> (\<forall>d'. good d' \<longrightarrow> rank d' \<le> rank d)"
    and cx_ok: "call p L_Cx_True = Some p' \<Longrightarrow> knows p (Some d') (Some d) \<Longrightarrow> good d \<and> rank d' \<le> rank d"
    and local_ok: "local stop a ob p hp = (p', hp') \<Longrightarrow> \<not> failed p \<Longrightarrow> a \<noteq> 0 \<Longrightarrow> hp a = None \<Longrightarrow>
      knows p (held_data ob (view p) hp) (own_data (view p) hp) \<Longrightarrow>
      (\<And>h. held (view p) = Some h \<Longrightarrow> \<exists>d. hp (ob h) = Some d \<and> good d \<and> least p \<le> rank d) \<Longrightarrow>
      (\<And>q. data (view p) = Some q \<Longrightarrow> hp q \<noteq> None) \<Longrightarrow>
      (\<And>q h. data (view p) = Some q \<Longrightarrow> held (view p) = Some h \<Longrightarrow> q \<noteq> ob h) \<Longrightarrow>
      (\<And>q. ptr (view p) = Some q \<Longrightarrow> \<exists>h. held (view p) = Some h \<and> q = ob h) \<Longrightarrow>
      view_local a ob (view p) hp (view p') hp' \<and>
      knows p' (held_data ob (view p') hp') (own_data (view p') hp') \<and> \<not> failed p' \<and>
      (least p' \<le> least p \<or> (\<exists>d. held_data ob (view p) hp = Some d \<and> least p' \<le> rank d))"
begin

definition version_ok :: "(nat \<Rightarrow> owner option) \<Rightarrow> ('d, 'p) client_state \<Rightarrow> u32 \<Rightarrow> bool" where
  "version_ok own s h \<longleftrightarrow>
     (shared_status (status (lib s) h) \<longrightarrow>
        own (obj (lib s) h) = Some (Version h) \<and>
        (\<exists>d. heap s (obj (lib s) h) = Some d \<and> good d \<and>
          (\<forall>c\<in>gates. \<forall>d'. cur_data s c = Some d' \<longrightarrow> rank d \<le> rank d'))) \<and>
     (\<forall>t. status (lib s) h = Finalizing t \<and> pc (lib s) t \<noteq> Fin_Free h \<longrightarrow>
        own (obj (lib s) h) = Some (Version h) \<and> heap s (obj (lib s) h) \<noteq> None)"

definition view_ok :: "(nat \<Rightarrow> owner option) \<Rightarrow> ('d, 'p) client_state \<Rightarrow> nat \<Rightarrow> client_view \<Rightarrow> bool" where
  "view_ok own s t v \<longleftrightarrow>
     (\<forall>n. made v = Some n \<longrightarrow> status (lib s) n = Private t) \<and>
     (\<forall>q. mine v = Some q \<longrightarrow> raw v = None \<and> (\<exists>n. made v = Some n \<and> obj (lib s) n = q)) \<and>
     (\<forall>h. held v = Some h \<longrightarrow> t \<in># holders (lib s) h) \<and>
     (\<forall>q. ptr v = Some q \<longrightarrow> (\<exists>h. held v = Some h \<and> q = obj (lib s) h)) \<and>
     (\<forall>q. data v = Some q \<longrightarrow> own q = Some (Thread t) \<and> heap s q \<noteq> None) \<and>
     (\<forall>c e n cur. pc (lib s) t = Cx_Cas c e n cur \<longrightarrow>
        c \<in> gates \<and> made v = Some n \<and> mine v \<noteq> None \<and> held v = Some e)"

definition thread_ok :: "(nat \<Rightarrow> owner option) \<Rightarrow> ('d, 'p) client_state \<Rightarrow> nat \<Rightarrow> bool" where
  "thread_ok own s t \<longleftrightarrow>
     \<not> failed (loc s t) \<and> view_ok own s t (view (loc s t)) \<and>
     knows (loc s t) (held_data (obj (lib s)) (view (loc s t)) (heap s)) (own_data (view (loc s t)) (heap s)) \<and>
     (\<forall>h d. held (view (loc s t)) = Some h \<longrightarrow> heap s (obj (lib s) h) = Some d \<longrightarrow> least (loc s t) \<le> rank d) \<and>
     (\<forall>c\<in>gates. \<forall>d. cur_data s c = Some d \<longrightarrow> least (loc s t) \<le> rank d)"

definition client_inv :: "('d, 'p) client_state \<Rightarrow> bool" where
  "client_inv s \<longleftrightarrow>
     rc_inv rc_limit (lib s) \<and> (\<forall>c\<in>gates. cb_handle (cbs (lib s) c) \<noteq> HANDLE_NULL) \<and>
     (\<exists>own. (\<forall>t. thread_ok own s t) \<and> (\<forall>h. version_ok own s h))"

lemma frame_shared:
  assumes "client_frame own own' t s s'" "rc_inv lim (lib s)" "shared_status (status (lib s) h)" "version_ok own s h"
  shows "obj (lib s') h = obj (lib s) h" "heap s' (obj (lib s) h) = heap s (obj (lib s) h)"
    "own' (obj (lib s) h) = own (obj (lib s) h)"
proof -
  have v: "own (obj (lib s) h) = Some (Version h)" "heap s (obj (lib s) h) \<noteq> None"
    using assms(3,4) by (auto simp: version_ok_def)
  have "obj (lib s') h = obj (lib s) h \<or> status (lib s) h = Unused \<or> status (lib s) h = Private t"
    using assms(1) by (simp add: client_frame_def)
  then show "obj (lib s') h = obj (lib s) h" using assms(3) by auto
  have "pc (lib s) t \<noteq> Fin_Call h" using rc_inv_pc [OF assms(2), of t] assms(3) by auto
  then have "heap s' (obj (lib s) h) = heap s (obj (lib s) h) \<and> own' (obj (lib s) h) = own (obj (lib s) h)"
    using assms(1) v unfolding client_frame_def by (metis option.inject owner.inject(2) owner.distinct(1))
  then show "heap s' (obj (lib s) h) = heap s (obj (lib s) h)" "own' (obj (lib s) h) = own (obj (lib s) h)"
    by simp_all
qed

lemma frame_thread:
  assumes fr: "client_frame own own' t s s'" and inv: "rc_inv lim (lib s)" "\<And>h. version_ok own s h"
    and ok: "thread_ok own s u" and ut: "u \<noteq> t"
    and rank: "\<And>c d'. c \<in> gates \<Longrightarrow> cur_data s' c = Some d' \<Longrightarrow> \<exists>d. cur_data s c = Some d \<and> rank d \<le> rank d'"
  shows "thread_ok own' s' u"
proof -
  let ?v = "view (loc s u)"
  note fr' = fr [unfolded client_frame_def]
  have l: "loc s' u = loc s u" "pc (lib s') u = pc (lib s) u" using fr' ut by auto
  have v: "view_ok own s u ?v" using ok by (simp add: thread_ok_def)
  have h: "obj (lib s') h = obj (lib s) h" "heap s' (obj (lib s) h) = heap s (obj (lib s) h)"
    "u \<in># holders (lib s') h" if "held ?v = Some h" for h
  proof -
    have hu: "u \<in># holders (lib s) h" using v that by (simp add: view_ok_def)
    then have "shared_status (status (lib s) h)" by (rule held_shared [OF inv(1)])
    from frame_shared [OF fr inv(1) this inv(2)] show "obj (lib s') h = obj (lib s) h"
      "heap s' (obj (lib s) h) = heap s (obj (lib s) h)" by simp_all
    show "u \<in># holders (lib s') h" using fr' hu ut by blast
  qed
  have n: "status (lib s') n = Private u" "obj (lib s') n = obj (lib s) n" if "made ?v = Some n" for n
  proof -
    have st: "status (lib s) n = Private u" using v that by (simp add: view_ok_def)
    then show "status (lib s') n = Private u" using fr' ut by blast
    have "obj (lib s') n = obj (lib s) n \<or> status (lib s) n = Unused \<or> status (lib s) n = Private t"
      using fr' by blast
    then show "obj (lib s') n = obj (lib s) n" using st ut by auto
  qed
  have q: "heap s' q = heap s q" "own' q = own q" if "data ?v = Some q" for q
  proof -
    have own: "own q = Some (Thread u)" "heap s q \<noteq> None" using v that by (auto simp: view_ok_def)
    have "heap s' q = heap s q \<and> own' q = own q \<or> heap s q = None \<or> own q = Some (Thread t) \<or>
        (\<exists>h. own q = Some (Version h))" using fr' by blast
    then show "heap s' q = heap s q" "own' q = own q" using own ut by auto
  qed
  have "view_ok own' s' u ?v"
    using v l unfolding view_ok_def by (auto simp: h n q)
  moreover have "held_data (obj (lib s')) ?v (heap s') = held_data (obj (lib s)) ?v (heap s)"
    using h by (auto simp: held_data_def split: option.splits)
  moreover have "own_data ?v (heap s') = own_data ?v (heap s)"
    using q by (auto simp: own_data_def split: option.splits)
  moreover have "least (loc s u) \<le> rank d" if "c \<in> gates" "cur_data s' c = Some d" for c d
    using rank [OF that] ok that(1) by (fastforce simp: thread_ok_def)
  moreover have "least (loc s u) \<le> rank d" if "held ?v = Some x" "heap s' (obj (lib s') x) = Some d" for x d
    using ok h [OF that(1)] that by (auto simp: thread_ok_def)
  ultimately show ?thesis using ok l by (simp add: thread_ok_def)
qed

lemma frame_version:
  assumes fr: "client_frame own own' t s s'" and inv: "rc_inv lim (lib s)" "version_ok own s h"
    and sh: "shared_status (status (lib s') h) \<Longrightarrow> shared_status (status (lib s) h)"
    and rank: "\<And>c d'. c \<in> gates \<Longrightarrow> cur_data s' c = Some d' \<Longrightarrow> \<exists>d. cur_data s c = Some d \<and> rank d \<le> rank d'"
  shows "version_ok own' s' h"
proof -
  let ?q = "obj (lib s) h"
  note fr' = fr [unfolded client_frame_def]
  have same: "obj (lib s') h = ?q" "heap s' ?q = heap s ?q" "own' ?q = own ?q" if "shared_status (status (lib s) h)"
    using frame_shared [OF fr inv(1) that inv(2)] .
  have "own' (obj (lib s') h) = Some (Version h) \<and> (\<exists>d. heap s' (obj (lib s') h) = Some d \<and> good d \<and>
          (\<forall>c\<in>gates. \<forall>d'. cur_data s' c = Some d' \<longrightarrow> rank d \<le> rank d'))"
    if "shared_status (status (lib s') h)"
  proof -
    note old = sh [OF that]
    from inv(2) old obtain d where d: "own ?q = Some (Version h)" "heap s ?q = Some d" "good d"
      "\<And>c d'. c \<in> gates \<Longrightarrow> cur_data s c = Some d' \<Longrightarrow> rank d \<le> rank d'"
      by (auto simp: version_ok_def)
    have "rank d \<le> rank d'" if "c \<in> gates" "cur_data s' c = Some d'" for c d'
      using rank [OF that] d(4) [OF that(1)] by fastforce
    with d same [OF old] show ?thesis by auto
  qed
  moreover have "own' (obj (lib s') h) = Some (Version h) \<and> heap s' (obj (lib s') h) \<noteq> None"
    if fin: "status (lib s') h = Finalizing u" "pc (lib s') u \<noteq> Fin_Free h" for u
  proof (cases "shared_status (status (lib s) h)")
    case True
    with inv(2) same [OF True] show ?thesis by (auto simp: version_ok_def)
  next
    case False
    with fr' fin have st: "status (lib s) h = Finalizing u" "pc (lib s) u \<noteq> Fin_Free h" by blast+
    with inv(2) have v: "own ?q = Some (Version h)" "heap s ?q \<noteq> None" by (auto simp: version_ok_def)
    have o: "obj (lib s') h = ?q"
    proof -
      have "obj (lib s') h = ?q \<or> status (lib s) h = Unused \<or> status (lib s) h = Private t" using fr' by blast
      then show ?thesis using st by auto
    qed
    have "\<not> (pc (lib s) t = Fin_Call h \<and> pc (lib s') t = Fin_Free h)"
      using rc_inv_pc [OF inv(1), of t] st fin by auto
    then have "heap s' ?q = heap s ?q \<and> own' ?q = own ?q"
      using fr' v by (metis option.inject owner.inject(2) owner.distinct(1))
    with v o show ?thesis by simp
  qed
  ultimately show ?thesis by (auto simp: version_ok_def)
qed

lemma cur_published:
  assumes "rc_inv lim (lib s)" "cb_handle (cbs (lib s) c) \<noteq> HANDLE_NULL"
  shows "status (lib s) (cb_handle (cbs (lib s) c)) = Published c"
  using rc_inv_cb [OF assms(1), of c] assms(2) by (simp add: cb_ok_def del: cb_handle_lo)

lemma cur_same:
  assumes fr: "client_frame own own' t s s'" and inv: "rc_inv lim (lib s)" "\<And>h. version_ok own s h"
    and c: "cb_handle (cbs (lib s) c) \<noteq> HANDLE_NULL" "cb_handle (cbs (lib s') c) = cb_handle (cbs (lib s) c)"
  shows "cur_data s' c = cur_data s c"
  using frame_shared [OF fr inv(1) _ inv(2), of "cb_handle (cbs (lib s) c)"] cur_published [OF inv(1) c(1)] c(2)
  by (simp add: cur_data_def del: cb_handle_lo)

text \<open>A step keeps the invariant if it frames the rest and its own thread is in order after it.\<close>

lemma client_inv_frame:
  assumes fr: "client_frame own own' t s s'"
    and inv: "rc_inv lim (lib s)" "\<And>h. version_ok own s h" "\<And>u. thread_ok own s u"
    and inv': "rc_inv rc_limit (lib s')" "\<And>c. c \<in> gates \<Longrightarrow> cb_handle (cbs (lib s') c) \<noteq> HANDLE_NULL"
    and new: "\<And>h. shared_status (status (lib s') h) \<Longrightarrow> shared_status (status (lib s) h) \<or> version_ok own' s' h"
    and rank: "\<And>c d'. c \<in> gates \<Longrightarrow> cur_data s' c = Some d' \<Longrightarrow> \<exists>d. cur_data s c = Some d \<and> rank d \<le> rank d'"
    and T: "thread_ok own' s' t"
  shows "client_inv s'"
proof -
  have "thread_ok own' s' u" for u
    using T frame_thread [OF fr inv(1,2,3) _ rank] by (cases "u = t") auto
  moreover have "version_ok own' s' h" for h
    using frame_version [OF fr inv(1,2) _ rank, of h] new [of h] by blast
  ultimately show ?thesis using inv' by (auto simp: client_inv_def)
qed

lemma call_thread:
  assumes call: "call (loc s t) l = Some p" and ok: "thread_ok own s t"
    and s': "loc s' t = p" and V: "view_ok own' s' t (view p)"
    and K: "knows p (held_data (obj (lib s')) (view p) (heap s')) (own_data (view p) (heap s'))"
    and H: "\<And>h d. held (view p) = Some h \<Longrightarrow> heap s' (obj (lib s') h) = Some d \<Longrightarrow> least (loc s t) \<le> rank d"
    and rank: "\<And>c d'. c \<in> gates \<Longrightarrow> cur_data s' c = Some d' \<Longrightarrow> \<exists>d. cur_data s c = Some d \<and> rank d \<le> rank d'"
  shows "thread_ok own' s' t"
proof -
  have "least p \<le> rank d'" if "c \<in> gates" "cur_data s' c = Some d'" for c d'
    using rank [OF that] ok that(1) call_least [OF call] by (fastforce simp: thread_ok_def)
  then show ?thesis
    using ok V K H call_failed [OF call] call_least [OF call] s' by (auto simp: thread_ok_def)
qed

lemma held_data_same:
  assumes fr: "client_frame own own' t s s'" and inv: "rc_inv lim (lib s)" "\<And>h. version_ok own s h"
    and ok: "thread_ok own s t" and h: "held w = held (view (loc s t))"
  shows "held_data (obj (lib s')) w (heap s') = held_data (obj (lib s)) (view (loc s t)) (heap s)"
proof (cases "held (view (loc s t))")
  case (Some x)
  with ok have "t \<in># holders (lib s) x" by (simp add: thread_ok_def view_ok_def)
  from frame_shared [OF fr inv(1) held_shared [OF inv(1) this] inv(2)] Some h show ?thesis
    by (simp add: held_data_def)
qed (simp add: held_data_def h)

text \<open>Library steps that change neither what the thread has acquired nor what is published.\<close>

lemma call_quiet:
  assumes inv: "rc_inv rc_limit (lib s)" "\<And>h. version_ok own s h" "\<And>u. thread_ok own s u"
    "\<And>c. c \<in> gates \<Longrightarrow> cb_handle (cbs (lib s) c) \<noteq> HANDLE_NULL"
    and act: "rc_act rc_limit t l (lib s) (lib s')" and call: "call (loc s t) l = Some p"
    and l: "\<And>c h. l \<noteq> L_Acquire c h" "\<And>h. l \<noteq> L_Release h" "\<And>c n. l \<noteq> L_Exchange c n" "l \<noteq> L_Cx_True"
    and s': "loc s' t = p"
    and fr: "client_frame own own t s s'"
    and cbs: "\<And>c. cb_handle (cbs (lib s') c) = cb_handle (cbs (lib s) c)"
    and sh: "\<And>h. shared_status (status (lib s') h) \<Longrightarrow> shared_status (status (lib s) h)"
    and V: "view_ok own s' t (view p)"
    and D: "data (view p) = data (view (loc s t))" "\<And>q. data (view p) = Some q \<Longrightarrow> heap s' q = heap s q"
  shows "client_inv s'"
proof -
  have cur: "cur_data s' c = cur_data s c" if "c \<in> gates" for c
    by (rule cur_same [OF fr inv(1,2) inv(4) [OF that] cbs])
  have h: "held (view p) = held (view (loc s t))"
    using call_view [OF call] l by (cases l) auto
  note hd = held_data_same [OF fr inv(1,2,3) h]
  have od: "own_data (view p) (heap s') = own_data (view (loc s t)) (heap s)"
    using D by (auto simp: own_data_def split: option.splits)
  have "knows p (held_data (obj (lib s')) (view p) (heap s')) (own_data (view p) (heap s'))"
    using inv(3) [of t] l by (intro call_knows [OF call]) (auto simp: thread_ok_def hd od)
  moreover have "least (loc s t) \<le> rank d" if "held (view p) = Some x" "heap s' (obj (lib s') x) = Some d" for x d
  proof -
    from that hd h have "heap s (obj (lib s) x) = Some d" by (simp add: held_data_def)
    with that(1) h inv(3) [of t] show ?thesis by (simp add: thread_ok_def)
  qed
  ultimately have "thread_ok own s' t"
    using V s' by (intro call_thread [OF call inv(3) [of t]]) (auto simp: cur)
  moreover have "rc_inv rc_limit (lib s')" by (rule rc_inv_preserved [OF _ inv(1) act]) simp
  ultimately show ?thesis
    using inv(4) cbs sh by (intro client_inv_frame [OF fr inv(1,2,3)]) (auto simp: cur)
qed

lemma quiet_step:
  assumes inv: "rc_inv rc_limit (lib s)" "\<And>h. version_ok own s h" "\<And>u. thread_ok own s u"
    "\<And>c. c \<in> gates \<Longrightarrow> cb_handle (cbs (lib s) c) \<noteq> HANDLE_NULL"
    and act: "rc_act rc_limit t l (lib s) r" and call: "call (loc s t) l = Some p"
    and l: "\<And>c h. l \<noteq> L_Acquire c h" "\<And>h. l \<noteq> L_Release h" "\<And>c n. l \<noteq> L_Exchange c n" "l \<noteq> L_Cx_True"
  shows "client_inv (s\<lparr>lib := r, heap := label_heap l (lib s) (heap s), loc := (loc s)(t := p)\<rparr>)"
    (is "client_inv ?s'")
proof -
  note view = call_view [OF call]
  have pcok: "pc_ok (lib s) t (pc (lib s) t)" by (rule rc_inv_pc [OF inv(1)])
  have vo: "view_ok own s t (view (loc s t))" using inv(3) [of t] by (simp add: thread_ok_def)
  have cb: "own (obj (lib s) h) = Some (Version h)" if "pc (lib s) t = Fin_Call h" for h
    using inv(2) [of h] pcok that by (auto simp: version_ok_def)
  have fr: "client_frame own own t s ?s'"
    using act l view pcok cb by cases (auto simp: client_frame_def)
  have cbs: "cb_handle (cbs (lib ?s') c) = cb_handle (cbs (lib s) c)" for c
    using act l by cases auto
  have sh: "shared_status (status (lib s) h)" if "shared_status (status (lib ?s') h)" for h
    using act l view pcok that by cases (auto split: if_splits)
  have heap: "heap ?s' q = heap s q" if "data (view (loc s t)) = Some q" for q
  proof -
    have q: "own q = Some (Thread t)" using vo that by (simp add: view_ok_def)
    show ?thesis using act cb q by cases auto
  qed
  have data: "data (view p) = data (view (loc s t))"
    using view l by (cases l) (auto simp: data_def split: option.splits)
  have made: "status r n = Private t" if "status (lib s) n = Private t" for n
    using act l view pcok that by cases auto
  have hold: "holders r = holders (lib s)"
    using act l by cases auto
  have ob: "obj r h = obj (lib s) h" if "held (view (loc s t)) = Some h" for h
  proof -
    have "t \<in># holders (lib s) h" using vo that by (simp add: view_ok_def)
    from frame_shared [OF fr inv(1) held_shared [OF inv(1) this] inv(2)] show ?thesis by simp
  qed
  have set: "obj r n = q" if "l = L_Set n q" for n q
    using act that by cases auto
  have ob': "obj r n = obj (lib s) n" if "made (view (loc s t)) = Some n" "\<And>h q. l \<noteq> L_Set h q" for n
    using act l view that by cases auto
  have new: "status r h = Private t" if "l = L_Make h" for h
    using act that by cases auto
  have cx: "(\<exists>cur. pc (lib s) t = Cx_Cas c e n cur) \<or> l = L_Cx c e n" if "pc r t = Cx_Cas c e n cur" for c e n cur
    using act l that by cases (auto simp: after_adjust_def split: if_splits)
  have V: "view_ok own ?s' t (view p)"
    using view vo heap data l
    by (cases l) (auto simp: view_ok_def data_def ob ob' set made new hold split: option.splits dest!: cx)
  show ?thesis
    by (rule call_quiet [OF inv, where s' = ?s' and p = p and l = l and t = t]) (use act call l fr cbs sh V data heap in auto)
qed

lemma cur_good:
  assumes "rc_inv lim (lib s)" "version_ok own s (cb_handle (cbs (lib s) c))" "cb_handle (cbs (lib s) c) \<noteq> HANDLE_NULL"
  shows "\<exists>d. cur_data s c = Some d \<and> good d"
  using assms(2) cur_published [OF assms(1,3)] by (auto simp: version_ok_def cur_data_def simp del: cb_handle_lo)

lemma acquire_step:
  assumes inv: "rc_inv rc_limit (lib s)" "\<And>h. version_ok own s h" "\<And>u. thread_ok own s u"
    "\<And>c. c \<in> gates \<Longrightarrow> cb_handle (cbs (lib s) c) \<noteq> HANDLE_NULL"
    and act: "rc_act rc_limit t (L_Acquire c h) (lib s) r" and call: "call (loc s t) (L_Acquire c h) = Some p"
  shows "client_inv (s\<lparr>lib := r, loc := (loc s)(t := p)\<rparr>)" (is "client_inv ?s'")
proof -
  let ?v = "view (loc s t)"
  have view: "c \<in> gates" "held ?v = None" "ptr ?v = None" "view p = ?v\<lparr>held := handle_opt h\<rparr>"
    using call_view [OF call] by simp_all
  from act have h: "h = cb_handle (cbs (lib s) c)" and idle: "pc (lib s) t = Idle" by (cases, simp)+
  with inv(4) view(1) have null: "h \<noteq> HANDLE_NULL" by simp
  have r: "r = (lib s)\<lparr>cbs := (cbs (lib s))(c := cbs (lib s) c + REF_COUNT_INC),
      holders := (holders (lib s))(h := add_mset t (holders (lib s) h))\<rparr>"
    using act null by cases simp
  have vo: "view_ok own s t ?v" using inv(3) [of t] by (simp add: thread_ok_def)
  have cbs: "cb_handle (cbs (lib ?s') x) = cb_handle (cbs (lib s) x)" for x
    using cb_word.tag_inc [of "cbs (lib s) c"] by (simp add: r del: cb_handle_lo incs_eq)
  have fr: "client_frame own own t s ?s'" by (auto simp: client_frame_def r)
  have cur: "cur_data ?s' x = cur_data s x" if "x \<in> gates" for x
    by (rule cur_same [OF fr inv(1,2) inv(4) [OF that] cbs])
  obtain d where d: "cur_data s c = Some d" "good d" "heap s (obj (lib s) h) = Some d"
    using cur_good [OF inv(1,2) inv(4) [OF view(1)]] unfolding h by (auto simp: cur_data_def)
  have "knows p (held_data (obj (lib ?s')) (view p) (heap ?s')) (own_data (view p) (heap ?s'))"
    using inv(3) [of t] null d view
    by (intro call_knows [OF call, where dh = None and dn = "own_data ?v (heap s)"])
      (auto simp: thread_ok_def held_data_def own_data_def handle_opt_def r)
  moreover have "view_ok own ?s' t (view p)"
    using vo view null idle by (auto simp: view_ok_def handle_opt_def r)
  moreover have "least (loc s t) \<le> rank d'" if "held (view p) = Some x" "heap ?s' (obj (lib ?s') x) = Some d'" for x d'
    using that d view null inv(3) [of t] by (auto simp: thread_ok_def handle_opt_def r)
  ultimately have "thread_ok own ?s' t"
    by (intro call_thread [OF call inv(3) [of t]]) (auto simp: cur)
  moreover have "rc_inv rc_limit (lib ?s')" using rc_inv_preserved [OF _ inv(1) act] by simp
  moreover have "status r = status (lib s)" by (simp add: r)
  ultimately show ?thesis
    using inv(4) cbs by (intro client_inv_frame [OF fr inv(1,2,3)]) (auto simp: cur)
qed

lemma release_step:
  assumes inv: "rc_inv rc_limit (lib s)" "\<And>h. version_ok own s h" "\<And>u. thread_ok own s u"
    "\<And>c. c \<in> gates \<Longrightarrow> cb_handle (cbs (lib s) c) \<noteq> HANDLE_NULL"
    and act: "rc_act rc_limit t (L_Release h) (lib s) r" and call: "call (loc s t) (L_Release h) = Some p"
  shows "client_inv (s\<lparr>lib := r, loc := (loc s)(t := p)\<rparr>)" (is "client_inv ?s'")
proof -
  let ?v = "view (loc s t)"
  have view: "held ?v = Some h" "view p = ?v\<lparr>held := None, ptr := None\<rparr>"
    using call_view [OF call] by simp_all
  have vo: "view_ok own s t ?v" using inv(3) [of t] by (simp add: thread_ok_def)
  with view have sh: "shared_status (status (lib s) h)" by (auto simp: view_ok_def intro: held_shared [OF inv(1)])
  have fr: "client_frame own own t s ?s'"
    using act sh by cases (auto simp: client_frame_def in_other_mset split: if_splits)
  have cbs: "cb_handle (cbs (lib ?s') x) = cb_handle (cbs (lib s) x)" for x
    using act by cases simp
  have cur: "cur_data ?s' x = cur_data s x" if "x \<in> gates" for x
    by (rule cur_same [OF fr inv(1,2) inv(4) [OF that] cbs])
  have "knows p (held_data (obj (lib ?s')) (view p) (heap ?s')) (own_data (view p) (heap ?s'))"
    using inv(3) [of t] view
    by (intro call_knows [OF call]) (auto simp: thread_ok_def held_data_def own_data_def)
  moreover have "view_ok own ?s' t (view p)"
    using act vo view sh by cases (auto simp: view_ok_def after_adjust_def)
  ultimately have "thread_ok own ?s' t"
    using view by (intro call_thread [OF call inv(3) [of t]]) (auto simp: cur)
  moreover have "rc_inv rc_limit (lib ?s')" using rc_inv_preserved [OF _ inv(1) act] by simp
  moreover have "shared_status (status (lib s) x)" if "shared_status (status (lib ?s') x)" for x
    using act that by cases (auto split: if_splits)
  ultimately show ?thesis
    using inv(4) cbs by (intro client_inv_frame [OF fr inv(1,2,3)]) (auto simp: cur)
qed

text \<open>The successful exchange, by either call: the prepared object becomes the version's.\<close>

lemma install_step:
  assumes inv: "rc_inv rc_limit (lib s)" "\<And>h. version_ok own s h" "\<And>u. thread_ok own s u"
    "\<And>c. c \<in> gates \<Longrightarrow> cb_handle (cbs (lib s) c) \<noteq> HANDLE_NULL"
    and act: "rc_act rc_limit t l (lib s) r" and call: "call (loc s t) l = Some p"
    and l: "l = L_Exchange c n \<or> l = L_Cx_True"
    and r: "r = (lib s)\<lparr>cbs := (cbs (lib s))(c := ucast n),
      status := put_in c n (take_out t (cbs (lib s) c) (status (lib s))),
      pc := (pc (lib s))(t := after_exchange (cbs (lib s) c))\<rparr>"
    and c: "c \<in> gates" and made: "made (view (loc s t)) = Some n" and mine: "mine (view (loc s t)) = Some q"
    and d: "heap s q = Some d" "good d" "\<And>d'. cur_data s c = Some d' \<Longrightarrow> rank d' \<le> rank d"
  shows "client_inv (s\<lparr>lib := r, loc := (loc s)(t := p)\<rparr>)" (is "client_inv ?s'")
proof -
  let ?v = "view (loc s t)" and ?own = "own(q := Some (Version n))"
  have vo: "view_ok own s t ?v" using inv(3) [of t] by (simp add: thread_ok_def)
  have w: "view p = ?v\<lparr>made := None, mine := None\<rparr>" using call_view [OF call] l by auto
  from vo made mine have n: "status (lib s) n = Private t" "obj (lib s) n = q" "raw ?v = None"
    and q: "own q = Some (Thread t)" by (auto simp: view_ok_def data_def)
  from n(1) have null: "n \<noteq> HANDLE_NULL" using rc_inv_null [OF inv(1)] by auto
  let ?h = "cb_handle (cbs (lib s) c)"
  have pub: "status (lib s) ?h = Published c" by (rule cur_published [OF inv(1) inv(4) [OF c]])
  then have hn: "?h \<noteq> n" using n(1) by auto
  have st: "status r h = (if h = n then Published c
      else if h = ?h then Detaching t (cb_refs (cbs (lib s) c)) else status (lib s) h)" for h
    using hn inv(4) [OF c] null by (simp add: r put_in_def take_out_def del: cb_handle_lo cb_refs_hi)
  have rf: "obj r = obj (lib s)" "holders r = holders (lib s)"
    "pc r = (pc (lib s))(t := after_exchange (cbs (lib s) c))" by (simp_all add: r)
  have idle: "pc (lib s) t \<noteq> Fin_Free x" for x using act l by cases auto
  have fr: "client_frame own ?own t s ?s'"
    using q n pub idle by (auto simp: client_frame_def st rf simp del: cb_handle_lo split: if_splits)
  have cbs: "cb_handle (cbs r x) = (if x = c then n else cb_handle (cbs (lib s) x))" for x
    by (simp add: r)
  have cur: "cur_data ?s' x = (if x = c then Some d else cur_data s x)" if "x \<in> gates" for x
  proof (cases "x = c")
    case True
    then show ?thesis using cbs [of c] n(2) d(1) by (simp add: cur_data_def rf)
  next
    case False
    then show ?thesis using cur_same [OF fr inv(1,2) inv(4) [OF that]] cbs [of x] by simp
  qed
  have rank: "\<exists>d. cur_data s x = Some d \<and> rank d \<le> rank d'" if "x \<in> gates" "cur_data ?s' x = Some d'" for x d'
    using that cur [OF that(1)] cur_good [OF inv(1,2) inv(4) [OF c]] d(3) by (auto split: if_splits)
  have held: "held (view p) = held ?v" by (simp add: w)
  note hd = held_data_same [OF fr inv(1,2) inv(3) held]
  have od: "own_data (view p) (heap ?s') = None" by (simp add: w own_data_def data_def n(3))
  have "knows p (held_data (obj (lib ?s')) (view p) (heap ?s')) (own_data (view p) (heap ?s'))"
    using inv(3) [of t] l unfolding hd od by (intro call_knows [OF call]) (auto simp: thread_ok_def)
  moreover have "view_ok ?own ?s' t (view p)"
    using vo n(3) by (auto simp: view_ok_def data_def w rf after_exchange_def)
  moreover have "least (loc s t) \<le> rank d'" if "held (view p) = Some x" "heap ?s' (obj (lib ?s') x) = Some d'" for x d'
    using that inv(3) [of t] by (auto simp: thread_ok_def held rf)
  ultimately have "thread_ok ?own ?s' t"
    using rank by (intro call_thread [OF call inv(3) [of t]]) auto
  moreover have "rc_inv rc_limit (lib ?s')" using rc_inv_preserved [OF _ inv(1) act] by simp
  moreover have "rank d \<le> rank d'" if "x \<in> gates" "cur_data ?s' x = Some d'" for x d'
    using that cur [OF that(1)] gates_rank [OF c that(1), of d d'] by (cases "x = c") auto
  then have "version_ok ?own ?s' n"
    using d(1,2) n(2) st [of n] by (auto simp: version_ok_def rf)
  ultimately show ?thesis
    using inv(4) cbs null pub rank by (intro client_inv_frame [OF fr inv(1,2,3)]) (auto simp: st split: if_splits)
qed

lemma call_inv:
  assumes "client_inv s" and act: "rc_act rc_limit t l (lib s) r" and call: "call (loc s t) l = Some p"
  shows "client_inv (s\<lparr>lib := r, heap := label_heap l (lib s) (heap s), loc := (loc s)(t := p)\<rparr>)"
proof -
  from assms(1) obtain own where inv: "rc_inv rc_limit (lib s)" "\<And>h. version_ok own s h" "\<And>u. thread_ok own s u"
    "\<And>c. c \<in> gates \<Longrightarrow> cb_handle (cbs (lib s) c) \<noteq> HANDLE_NULL"
    by (auto simp: client_inv_def simp del: cb_handle_lo)
  let ?v = "view (loc s t)"
  have vo: "view_ok own s t ?v"
    and kn: "knows (loc s t) (held_data (obj (lib s)) ?v (heap s)) (own_data ?v (heap s))"
    using inv(3) [of t] by (simp_all add: thread_ok_def)
  have own: "\<exists>d. heap s q = Some d \<and> own_data ?v (heap s) = Some d" if "mine ?v = Some q" for q
    using vo that by (fastforce simp: view_ok_def own_data_def data_def)
  consider (Acquire) c h where "l = L_Acquire c h" | (Release) h where "l = L_Release h"
    | (Exchange) c n where "l = L_Exchange c n" | (Cx) "l = L_Cx_True"
    | (Quiet) "\<And>c h. l \<noteq> L_Acquire c h" "\<And>h. l \<noteq> L_Release h" "\<And>c n. l \<noteq> L_Exchange c n" "l \<noteq> L_Cx_True"
    by blast
  then show ?thesis
  proof cases
    case Acquire
    with acquire_step [OF inv] act call show ?thesis by simp
  next
    case Release
    with release_step [OF inv] act call show ?thesis by simp
  next
    case (Exchange c n)
    from call_view [OF call] Exchange obtain q where v: "c \<in> gates" "made ?v = Some n" "mine ?v = Some q" by auto
    from own [OF v(3)] obtain d where d: "heap s q = Some d" "own_data ?v (heap s) = Some d" by blast
    with exchange_ok [of "loc s t" c n p] call kn Exchange
    have g: "good d" "\<And>d'. good d' \<Longrightarrow> rank d' \<le> rank d" by auto
    have "rank d' \<le> rank d" if "cur_data s c = Some d'" for d'
      using cur_good [OF inv(1,2) inv(4) [OF v(1)]] that g(2) by auto
    with install_step [OF inv act call, of c n q d] act v d g Exchange show ?thesis
      by (auto elim: rc_act.cases)
  next
    case Cx
    from act [unfolded Cx] obtain c e n cur where cx: "pc (lib s) t = Cx_Cas c e n cur" "cb_handle cur = e"
      "cbs (lib s) c = cur" "r = (lib s)\<lparr>cbs := (cbs (lib s))(c := ucast n),
       status := put_in c n (take_out t cur (status (lib s))), pc := (pc (lib s))(t := after_exchange cur)\<rparr>"
      by cases auto
    with vo obtain q where v: "c \<in> gates" "made ?v = Some n" "mine ?v = Some q" "held ?v = Some e"
      by (fastforce simp: view_ok_def)
    from own [OF v(3)] obtain d where d: "heap s q = Some d" "own_data ?v (heap s) = Some d" by blast
    have "held_data (obj (lib s)) ?v (heap s) = cur_data s c"
      using v(4) cx(2,3) by (simp add: held_data_def cur_data_def)
    moreover obtain d' where d': "cur_data s c = Some d'"
      using cur_good [OF inv(1,2) inv(4) [OF v(1)]] by blast
    ultimately have "good d" "rank d' \<le> rank d"
      using cx_ok [of "loc s t" p d' d] call kn Cx d(2) by auto
    with install_step [OF inv act call, of c n q d] cx v d d' Cx show ?thesis by simp
  next
    case Quiet
    then show ?thesis by (intro quiet_step [OF inv act call]) auto
  qed
qed

lemma held_owned:
  assumes inv: "rc_inv rc_limit (lib s)" "\<And>h. version_ok own s h" "thread_ok own s t"
    and h: "held (view (loc s t)) = Some h"
  shows "\<exists>d. heap s (obj (lib s) h) = Some d \<and> good d \<and> least (loc s t) \<le> rank d"
    "own (obj (lib s) h) = Some (Version h)"
proof -
  have "shared_status (status (lib s) h)"
    using inv(3) h by (auto simp: thread_ok_def view_ok_def intro: held_shared [OF inv(1)])
  with inv(2) [of h] show "own (obj (lib s) h) = Some (Version h)"
    "\<exists>d. heap s (obj (lib s) h) = Some d \<and> good d \<and> least (loc s t) \<le> rank d"
    using inv(3) h by (auto simp: version_ok_def thread_ok_def)
qed

text \<open>The contract applies to every step of the program itself.\<close>

lemma local_contract:
  assumes inv: "rc_inv rc_limit (lib s)" "\<And>h. version_ok own s h" "thread_ok own s t"
    and a: "a \<noteq> 0" "heap s a = None" and step: "local stop a (obj (lib s)) (loc s t) (heap s) = (p, hp)"
  shows "view_local a (obj (lib s)) (view (loc s t)) (heap s) (view p) hp"
    "knows p (held_data (obj (lib s)) (view p) hp) (own_data (view p) hp)" "\<not> failed p"
    "least p \<le> least (loc s t) \<or> (\<exists>d. held_data (obj (lib s)) (view (loc s t)) (heap s) = Some d \<and> least p \<le> rank d)"
proof -
  let ?v = "view (loc s t)"
  have vo: "view_ok own s t ?v" using inv(3) by (simp add: thread_ok_def)
  have data: "own q = Some (Thread t)" "heap s q \<noteq> None" if "data ?v = Some q" for q
    using vo that by (auto simp: view_ok_def)
  have "view_local a (obj (lib s)) ?v (heap s) (view p) hp \<and>
      knows p (held_data (obj (lib s)) (view p) hp) (own_data (view p) hp) \<and> \<not> failed p \<and>
      (least p \<le> least (loc s t) \<or> (\<exists>d. held_data (obj (lib s)) ?v (heap s) = Some d \<and> least p \<le> rank d))"
  proof (rule local_ok [OF step _ a])
    show "\<not> failed (loc s t)" "knows (loc s t) (held_data (obj (lib s)) ?v (heap s)) (own_data ?v (heap s))"
      using inv(3) by (simp_all add: thread_ok_def)
    show "q \<noteq> obj (lib s) h" if "data ?v = Some q" "held ?v = Some h" for q h
      using data(1) [OF that(1)] held_owned(2) [OF inv that(2)] by auto
    show "\<exists>h. held ?v = Some h \<and> q = obj (lib s) h" if "ptr ?v = Some q" for q
      using vo that by (simp add: view_ok_def)
  qed (use held_owned(1) [OF inv] data in auto)
  then show "view_local a (obj (lib s)) ?v (heap s) (view p) hp"
    "knows p (held_data (obj (lib s)) (view p) hp) (own_data (view p) hp)" "\<not> failed p"
    "least p \<le> least (loc s t) \<or> (\<exists>d. held_data (obj (lib s)) ?v (heap s) = Some d \<and> least p \<le> rank d)"
    by blast+
qed

lemma local_inv:
  assumes "client_inv s" and idle: "pc (lib s) t = Idle" and a: "a \<noteq> 0" "heap s a = None"
    and step: "local stop a (obj (lib s)) (loc s t) (heap s) = (p, hp)"
  shows "client_inv (s\<lparr>heap := hp, loc := (loc s)(t := p)\<rparr>)" (is "client_inv ?s'")
proof -
  from assms(1) obtain own where inv: "rc_inv rc_limit (lib s)" "\<And>h. version_ok own s h" "\<And>u. thread_ok own s u"
    "\<And>c. c \<in> gates \<Longrightarrow> cb_handle (cbs (lib s) c) \<noteq> HANDLE_NULL"
    by (auto simp: client_inv_def simp del: cb_handle_lo)
  let ?v = "view (loc s t)" and ?own = "own(a := Some (Thread t))"
  have vo: "view_ok own s t ?v" using inv(3) [of t] by (simp add: thread_ok_def)
  note held = held_owned [OF inv(1,2,3), of t]
  have data: "own q = Some (Thread t)" "heap s q \<noteq> None" if "data ?v = Some q" for q
    using vo that by (auto simp: view_ok_def)
  note loc = local_contract [OF inv(1,2,3) a step]
  note vl = loc(1) [unfolded view_local_def]
  have fr: "client_frame own ?own t s ?s'"
    using vl a data by (auto simp: client_frame_def split: if_splits)
  have cur: "cur_data ?s' c = cur_data s c" if "c \<in> gates" for c
    by (rule cur_same [OF fr inv(1,2) inv(4) [OF that]]) simp
  have raw: "own a \<noteq> Some (Thread t) \<or> data ?v \<noteq> Some a" using data(2) [of a] a(2) by auto
  have "view_ok ?own ?s' t (view p)"
    using vl vo data raw idle by (auto simp: view_ok_def data_def split: option.splits)
  moreover have "least p \<le> rank d" if "held (view p) = Some h" "hp (obj (lib s) h) = Some d" for h d
  proof -
    from that(1) vl have h: "held ?v = Some h" by simp
    with held_data_same [OF fr inv(1,2,3), of ?v] that(2) have "heap s (obj (lib s) h) = Some d"
      by (simp add: held_data_def)
    with loc(4) held(1) [OF h] h show ?thesis by (auto simp: held_data_def)
  qed
  moreover have "least p \<le> rank d" if "c \<in> gates" "cur_data s c = Some d" for c d
  proof (cases "least p \<le> least (loc s t)")
    case True
    with inv(3) [of t] that show ?thesis by (fastforce simp: thread_ok_def)
  next
    case False
    with loc(4) obtain h d' where h: "held ?v = Some h" "heap s (obj (lib s) h) = Some d'" "least p \<le> rank d'"
      by (auto simp: held_data_def split: option.splits)
    with vo have "shared_status (status (lib s) h)" by (auto simp: view_ok_def intro: held_shared [OF inv(1)])
    with inv(2) [of h] h(2) that have "rank d' \<le> rank d" by (auto simp: version_ok_def)
    with h(3) show ?thesis by simp
  qed
  ultimately have "thread_ok ?own ?s' t"
    using loc(2,3) by (auto simp: thread_ok_def cur)
  then show ?thesis
    using inv by (intro client_inv_frame [OF fr inv(1,2,3)]) (auto simp: cur)
qed

lemma start_inv:
  assumes "client_start gates initial starts s"
  shows "client_inv s"
proof -
  note st = assms [unfolded client_start_def]
  from st have inv: "rc_inv rc_limit (lib s)" by (blast intro: refcount.inv_reach)
  have pub: "\<exists>c. status (lib s) h = Published c" if "shared_status (status (lib s) h)" for h
    using rc_inv_ver [OF inv, of h] st that by (cases "status (lib s) h") auto
  have fin: "status (lib s) h \<noteq> Finalizing t" for h t
    using rc_inv_ver [OF inv, of h] st by auto
  have init: "\<exists>d. heap s (obj (lib s) h) = Some d \<and> initial d" if "shared_status (status (lib s) h)" for h
    using pub [OF that] st by blast
  have cur: "initial d" if "c \<in> gates" "cur_data s c = Some d" for c d
  proof -
    from st that(1) have "status (lib s) (cb_handle (cbs (lib s) c)) = Published c"
      by (intro cur_published [OF inv]) blast
    with init [of "cb_handle (cbs (lib s) c)"] that(2) show ?thesis by (auto simp: cur_data_def simp del: cb_handle_lo)
  qed
  define own where "own q = (if \<exists>h. shared_status (status (lib s) h) \<and> obj (lib s) h = q
    then Some (Version (THE h. shared_status (status (lib s) h) \<and> obj (lib s) h = q)) else None)" for q
  have own: "own (obj (lib s) h) = Some (Version h)" if "shared_status (status (lib s) h)" for h
  proof -
    have "x = h" if "shared_status (status (lib s) x)" "obj (lib s) x = obj (lib s) h" for x
      using st pub [OF that(1)] pub [OF \<open>shared_status (status (lib s) h)\<close>] that(2) unfolding inj_on_def by blast
    with that have "(THE x. shared_status (status (lib s) x) \<and> obj (lib s) x = obj (lib s) h) = h" by blast
    with that show ?thesis by (auto simp: own_def)
  qed
  have "version_ok own s h" for h
    using own init fin cur initial_good initial_rank unfolding version_ok_def by (metis order_refl)
  moreover have "thread_ok own s t" for t
  proof -
    have "loc s t \<in> starts" using st by blast
    from starts_ok [OF this] st cur show ?thesis
      by (auto simp: thread_ok_def view_ok_def no_view_def data_def held_data_def own_data_def)
  qed
  ultimately show ?thesis using inv st by (auto simp: client_inv_def)
qed

sublocale run: inductive_invariant "client_start gates initial starts" "client_step call local rc_limit" client_inv
proof
  show "client_inv s" if "client_start gates initial starts s" for s using that by (rule start_inv)
  show "client_inv s'" if inv: "client_inv s" and step: "client_step call local rc_limit s s'" for s s'
    using step
  proof cases
    case (Call t l r p)
    then show ?thesis using call_inv [OF inv] by blast
  next
    case (Local t a stop p hp)
    then show ?thesis using local_inv [OF inv] by blast
  qed
qed

lemma never_fails:
  "reach (client_start gates initial starts) (client_step call local rc_limit) s \<Longrightarrow> \<not> failed (loc s t)"
  by (drule run.inv_reach) (auto simp: client_inv_def thread_ok_def)

text \<open>What a thread holds is good, and no thread deletes it.\<close>

lemma held_is_good:
  assumes "reach (client_start gates initial starts) (client_step call local rc_limit) s"
    "held (view (loc s t)) = Some h"
  shows "\<exists>d. heap s (obj (lib s) h) = Some d \<and> good d \<and> least (loc s t) \<le> rank d"
proof -
  from run.inv_reach [OF assms(1)] obtain own where inv: "rc_inv rc_limit (lib s)" "\<And>h. version_ok own s h" "thread_ok own s t"
    by (auto simp: client_inv_def)
  from held_owned(1) [OF inv assms(2)] show ?thesis .
qed

end

end
