(* ===== verification/Client_Rest.thy ===== *)
theory Client_Rest
  imports Client_Compose
begin

text \<open>
  What a program leaves behind. The versions a program has made and the references it holds are
  those its threads are at, and every object of the program is one a thread prepares or one that
  belongs to a version whose callback is still to come. When all threads have come to rest, each
  control block has its version, and no other version and no other object is left.
\<close>

section \<open>What a step of the library does to one version\<close>

lemma act_holders:
  "rc_act lim t l r r' \<Longrightarrow> holders r' = (case l of
     L_Acquire c h \<Rightarrow> if h = HANDLE_NULL then holders r else (holders r)(h := add_mset t (holders r h))
   | L_Release h \<Rightarrow> (holders r)(h := holders r h - {#t#})
   | _ \<Rightarrow> holders r)"
  by (cases rule: rc_act.cases) auto

lemma act_allocs:
  "rc_act lim t l r r' \<Longrightarrow> allocs r' = (case l of L_Make h \<Rightarrow> (allocs r)(h := Suc (allocs r h)) | _ \<Rightarrow> allocs r)"
  by (cases rule: rc_act.cases) auto

lemma act_calls:
  "rc_act lim t l r r' \<Longrightarrow> calls r' = (case l of L_Callback h \<Rightarrow> (calls r)(h := obj r h # calls r h) | _ \<Rightarrow> calls r)"
  by (cases rule: rc_act.cases) auto

lemma act_private:
  "rc_act lim t l r r' \<Longrightarrow> status r' h = Private u \<Longrightarrow> status r h = Private u \<or> l = L_Make h \<and> u = t"
  by (cases rule: rc_act.cases) (auto simp: put_in_def take_out_def split: if_splits)

lemma act_install:
  assumes "rc_act lim t l r r'" "l = L_Exchange c n \<or> l = L_Cx_True \<and> pc r t = Cx_Cas c e n cur" "n \<noteq> HANDLE_NULL"
  shows "status r' n = Published c" "obj r' = obj r"
  using assms by (auto simp: put_in_def elim!: rc_act.cases)

lemma act_published:
  "rc_act lim t l r r' \<Longrightarrow> status r' h = Published c \<Longrightarrow>
   status r h = Published c \<or> l = L_Exchange c h \<or> (\<exists>e cur. l = L_Cx_True \<and> pc r t = Cx_Cas c e h cur)"
  by (cases rule: rc_act.cases) (auto simp: put_in_def take_out_def split: if_splits)

text \<open>Versions whose object the callback has not been given yet.\<close>

definition attached :: "rc_state \<Rightarrow> u32 \<Rightarrow> bool" where
  "attached r h \<longleftrightarrow> shared_status (status r h) \<or> (\<exists>t. status r h = Finalizing t \<and> pc r t \<noteq> Fin_Free h)"

lemma act_attached:
  assumes inv: "rc_inv lim r" and act: "rc_act lim t l r r'" and h: "attached r h" "l \<noteq> L_Callback h"
  shows "attached r' h" "obj r' h = obj r h"
proof -
  note v = rc_inv_ver [OF inv, of h] and p = rc_inv_pc [OF inv, of t]
  show "attached r' h"
    using act h v p
    by cases (auto simp: attached_def put_in_def take_out_def may_install_def after_adjust_def after_exchange_def
        split: if_splits)
  show "obj r' h = obj r h"
    using act h(1) by cases (auto simp: attached_def)
qed

section \<open>Counting versions\<close>

definition made_total :: "rc_state \<Rightarrow> nat" where
  "made_total r = (\<Sum>h\<in>UNIV. allocs r h)"

definition called_total :: "rc_state \<Rightarrow> nat" where
  "called_total r = (\<Sum>h\<in>UNIV. length (calls r h))"

definition occupied :: "rc_state \<Rightarrow> nat set" where
  "occupied r = {c. cb_handle (cbs r c) \<noteq> HANDLE_NULL}"

lemma sum_upd:
  fixes f :: "u32 \<Rightarrow> nat"
  shows "(\<Sum>x\<in>UNIV. if x = h then Suc (f h) else f x) = Suc (\<Sum>x\<in>UNIV. f x)"
  by (simp add: sum.remove [of UNIV h])

lemma act_totals:
  assumes "rc_act lim t l r r'"
  shows "made_total r' = made_total r + (case l of L_Make h \<Rightarrow> 1 | _ \<Rightarrow> 0)"
    "called_total r' = called_total r + (case l of L_Callback h \<Rightarrow> 1 | _ \<Rightarrow> 0)"
proof -
  show "made_total r' = made_total r + (case l of L_Make h \<Rightarrow> 1 | _ \<Rightarrow> 0)"
    using act_allocs [OF assms] by (cases l) (simp_all add: made_total_def sum_upd)
  show "called_total r' = called_total r + (case l of L_Callback h \<Rightarrow> 1 | _ \<Rightarrow> 0)"
    using act_calls [OF assms] sum_upd [where f = "\<lambda>x. length (calls r x)"]
    by (cases l) (simp_all add: called_total_def if_distrib [of length] cong: if_cong)
qed

text \<open>With every version unused or published, the calls fall short by the occupied control blocks.\<close>

lemma at_rest_totals:
  assumes inv: "rc_inv lim r" and st: "\<And>h. status r h = Unused \<or> (\<exists>c. status r h = Published c)"
  shows "made_total r = called_total r + card (occupied r)"
proof -
  let ?P = "{h. \<exists>c. status r h = Published c}"
  have pub: "status r (cb_handle (cbs r c)) = Published c" if "c \<in> occupied r" for c
    using rc_inv_cb [OF inv, of c] that by (auto simp: cb_ok_def occupied_def)
  have "bij_betw (\<lambda>c. cb_handle (cbs r c)) (occupied r) ?P"
  proof (rule bij_betwI')
    show "cb_handle (cbs r c) = cb_handle (cbs r c') \<longleftrightarrow> c = c'" if "c \<in> occupied r" "c' \<in> occupied r" for c c'
      using pub [OF that(1)] pub [OF that(2)] by (metis vstatus.inject(2))
    show "cb_handle (cbs r c) \<in> ?P" if "c \<in> occupied r" for c using pub [OF that] by blast
    show "\<exists>c\<in>occupied r. h = cb_handle (cbs r c)" if "h \<in> ?P" for h
      using that rc_inv_ver [OF inv, of h] by (auto simp: occupied_def simp del: cb_handle_lo)
  qed
  then have card: "card (occupied r) = card ?P" by (rule bij_betw_same_card)
  have "allocs r h = length (calls r h) + (if h \<in> ?P then 1 else 0)" for h
    using st [of h] rc_inv_ver [OF inv, of h] by auto
  then have "made_total r = (\<Sum>h\<in>UNIV. length (calls r h) + (if h \<in> ?P then 1 else 0))" by (simp add: made_total_def)
  also have "\<dots> = called_total r + card ?P" by (simp add: sum.distrib called_total_def sum.If_cases)
  finally show ?thesis by (simp add: card)
qed

section \<open>Every version and every object has its place\<close>

context snapshot_client
begin

definition accounted :: "('d, 'p) client_state \<Rightarrow> bool" where
  "accounted s \<longleftrightarrow>
     (\<forall>h t. count (holders (lib s) h) t \<le> (if held (view (loc s t)) = Some h then 1 else 0)) \<and>
     (\<forall>h t. status (lib s) h = Private t \<longrightarrow> made (view (loc s t)) = Some h) \<and>
     (\<forall>h c. status (lib s) h = Published c \<longrightarrow> c \<in> gates) \<and>
     (\<forall>q. heap s q \<noteq> None \<longrightarrow> q \<noteq> 0 \<and>
        ((\<exists>t. data (view (loc s t)) = Some q) \<or> (\<exists>h. obj (lib s) h = q \<and> attached (lib s) h)))"

lemma accounted_start:
  assumes "client_start gates initial starts s"
  shows "accounted s"
proof -
  note st = assms [unfolded client_start_def]
  have "q \<noteq> 0 \<and> (\<exists>h. obj (lib s) h = q \<and> attached (lib s) h)" if "heap s q \<noteq> None" for q
  proof -
    from st that obtain h c where "status (lib s) h = Published c" "obj (lib s) h = q" by metis
    moreover have "q \<noteq> 0" using st that by metis
    ultimately show ?thesis by (auto simp: attached_def)
  qed
  moreover have "\<forall>h c. status (lib s) h = Published c \<longrightarrow> c \<in> gates" using st by blast
  ultimately show ?thesis using st by (simp add: accounted_def)
qed

lemma accounted_call:
  assumes inv: "client_inv s" "accounted s"
    and act: "rc_act rc_limit t l (lib s) r" and call: "call (loc s t) l = Some p"
  shows "accounted (s\<lparr>lib := r, heap := label_heap l (lib s) (heap s), loc := (loc s)(t := p)\<rparr>)"
    (is "accounted ?s'")
proof -
  let ?v = "view (loc s t)"
  from inv(1) obtain own where rc: "rc_inv rc_limit (lib s)" and vo: "view_ok own s t ?v"
    by (auto simp: client_inv_def thread_ok_def)
  note view = call_view [OF call]
  note acc = inv(2) [unfolded accounted_def]
  have "count (holders r h) u \<le> (if held (view (loc ?s' u)) = Some h then 1 else 0)" for h u
  proof -
    have c: "count (holders (lib s) h) u \<le> (if held (view (loc s u)) = Some h then 1 else 0)" using acc by blast
    show ?thesis
      using c act_holders [OF act] view
      by (cases l) (auto simp: handle_opt_def split: if_splits)
  qed
  moreover have install: "status r n = Published c" "obj r n = q" if "l = L_Exchange c n \<or> l = L_Cx_True \<and> pc (lib s) t = Cx_Cas c e n cur"
    "made ?v = Some n" "mine ?v = Some q" for c n e cur q
  proof -
    have "status (lib s) n = Private t" "obj (lib s) n = q" using vo that by (auto simp: view_ok_def)
    moreover have "n \<noteq> HANDLE_NULL" using calculation(1) rc_inv_null [OF rc] by auto
    ultimately show "status r n = Published c" "obj r n = q" using act_install [OF act that(1)] by auto
  qed
  have cx: "\<exists>c e n cur q. pc (lib s) t = Cx_Cas c e n cur \<and> made ?v = Some n \<and> mine ?v = Some q" if "l = L_Cx_True"
  proof -
    from act that obtain c e n cur where "pc (lib s) t = Cx_Cas c e n cur" by (auto elim: rc_act.cases)
    with vo show ?thesis by (auto simp: view_ok_def)
  qed
  have "made (view (loc ?s' u)) = Some h" if "status r h = Private u" for h u
  proof (cases "l = L_Make h \<and> u = t")
    case True
    with view show ?thesis by simp
  next
    case False
    with act_private [OF act that] acc have m: "made (view (loc s u)) = Some h" by blast
    show ?thesis
    proof (cases "u = t")
      case True
      with m view install cx that show ?thesis by (cases l) fastforce+
    next
      case False
      with m show ?thesis by simp
    qed
  qed
  moreover have "c \<in> gates" if "status r h = Published c" for h c
  proof -
    have "c \<in> gates" if "status (lib s) h = Published c" using acc that by blast
    moreover have "c \<in> gates" if "l = L_Exchange c h" using view that by simp
    moreover have "c \<in> gates" if "pc (lib s) t = Cx_Cas c e h cur" for e cur using vo that by (simp add: view_ok_def)
    ultimately show ?thesis using act_published [OF act that] by blast
  qed
  moreover have "q \<noteq> 0 \<and> ((\<exists>u. data (view (loc ?s' u)) = Some q) \<or> (\<exists>h. obj r h = q \<and> attached r h))"
    if hq: "label_heap l (lib s) (heap s) q \<noteq> None" for q
  proof -
    have old: "heap s q \<noteq> None" "\<And>h. l = L_Callback h \<Longrightarrow> obj (lib s) h \<noteq> q"
      using hq by (cases l; auto split: if_splits)+
    with acc have q: "q \<noteq> 0" "(\<exists>u. data (view (loc s u)) = Some q) \<or> (\<exists>h. obj (lib s) h = q \<and> attached (lib s) h)"
      by blast+
    from q(2) show ?thesis
    proof (elim disjE exE conjE)
      fix h
      assume h: "obj (lib s) h = q" "attached (lib s) h"
      then have "l \<noteq> L_Callback h" using old(2) by blast
      from act_attached [OF rc act h(2) this] h(1) q(1) show ?thesis by auto
    next
      fix u
      assume u: "data (view (loc s u)) = Some q"
      show ?thesis
      proof (cases "u = t")
        case False
        with u q(1) show ?thesis by (intro conjI disjI1 exI [of _ u]) simp_all
      next
        case True
        consider (Install) c n e cur where "l = L_Exchange c n \<or> l = L_Cx_True \<and> pc (lib s) t = Cx_Cas c e n cur"
            "made ?v = Some n" "mine ?v = Some q"
          | (Same) "data (view p) = data ?v"
          using view cx u True vo by (cases l) (fastforce simp: data_def view_ok_def split: option.splits)+
        then show ?thesis
        proof cases
          case Install
          from install [OF this] q(1) show ?thesis by (auto simp: attached_def)
        next
          case Same
          with u True q(1) show ?thesis by (intro conjI disjI1 exI [of _ t]) simp_all
        qed
      qed
    qed
  qed
  ultimately show ?thesis by (simp add: accounted_def)
qed

lemma accounted_local:
  assumes inv: "client_inv s" "accounted s" and a: "a \<noteq> 0" "heap s a = None"
    and step: "local stop a (obj (lib s)) (loc s t) (heap s) = (p, hp)"
  shows "accounted (s\<lparr>heap := hp, loc := (loc s)(t := p)\<rparr>)" (is "accounted ?s'")
proof -
  let ?v = "view (loc s t)"
  from inv(1) obtain own where rc: "rc_inv rc_limit (lib s)" "\<And>h. version_ok own s h" "thread_ok own s t"
    by (auto simp: client_inv_def)
  note vl = local_contract(1) [OF rc a step, unfolded view_local_def]
  have live: "heap s q \<noteq> None" if "data ?v = Some q" for q
    using rc(3) that by (auto simp: thread_ok_def view_ok_def)
  have "q \<noteq> 0 \<and> ((\<exists>u. data (view (loc ?s' u)) = Some q) \<or> (\<exists>h. obj (lib s) h = q \<and> attached (lib s) h))"
    if hq: "hp q \<noteq> None" for q
  proof (cases "data ?v = None \<and> raw (view p) = Some a \<and> q = a")
    case True
    then have "data (view (loc ?s' t)) = Some q" by (simp add: data_def)
    with True a(1) show ?thesis by blast
  next
    case False
    have "heap s q \<noteq> None" using vl hq False live by (auto split: if_splits)
    then have q: "q \<noteq> 0" "(\<exists>u. data (view (loc s u)) = Some q) \<or> (\<exists>h. obj (lib s) h = q \<and> attached (lib s) h)"
      using inv(2) unfolding accounted_def by blast+
    have "data (view p) = Some q" if "data ?v = Some q"
      using vl that by (auto simp: data_def split: option.splits)
    moreover have "data (view (loc ?s' u)) = Some q" if "data (view (loc s u)) = Some q" "u \<noteq> t" for u
      using that by simp
    ultimately have "\<exists>u. data (view (loc ?s' u)) = Some q" if "data (view (loc s u)) = Some q" for u
      using that by (cases "u = t") (auto intro: exI [of _ t] exI [of _ u])
    with q show ?thesis by blast
  qed
  then have objects: "\<forall>q. heap ?s' q \<noteq> None \<longrightarrow> q \<noteq> 0 \<and>
      ((\<exists>u. data (view (loc ?s' u)) = Some q) \<or> (\<exists>h. obj (lib ?s') h = q \<and> attached (lib ?s') h))" by simp
  have same: "made (view (loc ?s' u)) = made (view (loc s u))" "held (view (loc ?s' u)) = held (view (loc s u))"
    "lib ?s' = lib s" for u using vl by simp_all
  show ?thesis
    unfolding accounted_def same(1,2) using inv(2) objects unfolding same(3) accounted_def by blast
qed

sublocale account: inductive_invariant "client_start gates initial starts" "client_step call local rc_limit"
  "\<lambda>s. client_inv s \<and> accounted s"
proof
  show "client_inv s \<and> accounted s" if "client_start gates initial starts s" for s
    using that start_inv accounted_start by blast
  show "client_inv s' \<and> accounted s'"
    if inv: "client_inv s \<and> accounted s" and step: "client_step call local rc_limit s s'" for s s'
    using step
  proof cases
    case (Call t l r p)
    then show ?thesis using call_inv accounted_call inv by blast
  next
    case (Local t a stop p hp)
    then show ?thesis using local_inv accounted_local inv by blast
  qed
qed

text \<open>The callback is given an object of the program.\<close>

lemma callback_object:
  assumes run: "reach (client_start gates initial starts) (client_step call local rc_limit) s"
    and act: "rc_act rc_limit t (L_Callback h) (lib s) r"
  shows "heap s (obj (lib s) h) \<noteq> None" "obj (lib s) h \<noteq> 0"
proof -
  from account.inv_reach [OF run] obtain own where inv: "rc_inv rc_limit (lib s)" "\<And>h. version_ok own s h" "accounted s"
    by (auto simp: client_inv_def)
  from act have "pc (lib s) t = Fin_Call h" by cases
  with rc_inv_pc [OF inv(1), of t] inv(2) [of h] show obj: "heap s (obj (lib s) h) \<noteq> None"
    by (auto simp: version_ok_def)
  with inv(3) show "obj (lib s) h \<noteq> 0" unfolding accounted_def by blast
qed

text \<open>What is published changes only when a version is installed.\<close>

lemma cur_published_inv:
  assumes "client_inv s" "c \<in> gates"
  shows "status (lib s) (cb_handle (cbs (lib s) c)) = Published c"
  using assms by (intro cur_published) (auto simp: client_inv_def simp del: cb_handle_lo)

lemma call_cur:
  assumes inv: "client_inv s" and c: "c \<in> gates"
    and act: "rc_act rc_limit t l (lib s) r" and l: "\<And>c n. l \<noteq> L_Exchange c n" "l \<noteq> L_Cx_True"
  shows "cur_data (s\<lparr>lib := r, heap := label_heap l (lib s) (heap s), loc := f\<rparr>) c = cur_data s c"
proof -
  from inv obtain own where rc: "rc_inv rc_limit (lib s)" "\<And>h. version_ok own s h" by (auto simp: client_inv_def)
  let ?h = "cb_handle (cbs (lib s) c)"
  note pub = cur_published_inv [OF inv c]
  have cb: "cb_handle (cbs r c) = ?h"
    using act l cb_word.tag_inc [of "cbs (lib s) c"] by cases (auto simp del: cb_handle_lo incs_eq)
  have fin: "pc (lib s) t = Fin_Call h" if "l = L_Callback h" for h using act that by (auto elim: rc_act.cases)
  have "obj (lib s) h \<noteq> obj (lib s) ?h \<and> h \<noteq> ?h" if "l = L_Callback h" for h
  proof -
    have st: "status (lib s) h = Finalizing t" using rc_inv_pc [OF rc(1), of t] fin [OF that] by simp
    then have "own (obj (lib s) h) = Some (Version h)" using rc(2) [of h] fin [OF that] by (auto simp: version_ok_def)
    moreover have "own (obj (lib s) ?h) = Some (Version ?h)" using rc(2) [of ?h] pub by (auto simp: version_ok_def)
    moreover have "h \<noteq> ?h" using st pub by auto
    ultimately show ?thesis by auto
  qed
  moreover have "attached (lib s) ?h" using pub by (simp add: attached_def)
  ultimately have "obj r ?h = obj (lib s) ?h" "label_heap l (lib s) (heap s) (obj (lib s) ?h) = heap s (obj (lib s) ?h)"
    using act_attached(2) [OF rc(1) act, of ?h] by (cases l; auto)+
  then show ?thesis by (simp add: cur_data_def cb del: cb_handle_lo)
qed

lemma local_cur:
  assumes inv: "client_inv s" and c: "c \<in> gates" and a: "a \<noteq> 0" "heap s a = None"
    and step: "local stop a (obj (lib s)) (loc s t) (heap s) = (p, hp)"
  shows "cur_data (s\<lparr>heap := hp, loc := f\<rparr>) c = cur_data s c"
proof -
  from inv obtain own where rc: "rc_inv rc_limit (lib s)" "\<And>h. version_ok own s h" "thread_ok own s t"
    by (auto simp: client_inv_def)
  let ?q = "obj (lib s) (cb_handle (cbs (lib s) c))"
  have q: "own ?q = Some (Version (cb_handle (cbs (lib s) c)))" "heap s ?q \<noteq> None"
    using rc(2) [of "cb_handle (cbs (lib s) c)"] cur_published_inv [OF inv c] by (auto simp: version_ok_def simp del: cb_handle_lo)
  have "own x = Some (Thread t)" if "data (view (loc s t)) = Some x" for x
    using rc(3) that by (simp add: thread_ok_def view_ok_def)
  then have "hp ?q = heap s ?q"
    using local_contract(1) [OF rc a step] q a(2) by (auto simp: view_local_def simp del: cb_handle_lo)
  then show ?thesis by (simp add: cur_data_def del: cb_handle_lo)
qed

lemma cx_cur:
  assumes inv: "client_inv s" and act: "rc_act rc_limit t L_Cx_True (lib s) r" and call: "call (loc s t) L_Cx_True = Some p"
  obtains c d d' where "c \<in> gates" "cur_data s c = Some d" "cur_data (s\<lparr>lib := r, heap := heap s, loc := f\<rparr>) c = Some d'"
    "knows (loc s t) (Some d) (Some d')" "\<And>x. x \<noteq> c \<Longrightarrow> cbs r x = cbs (lib s) x"
proof -
  let ?v = "view (loc s t)"
  from inv obtain own where rc: "rc_inv rc_limit (lib s)" "\<And>h. version_ok own s h" "thread_ok own s t"
    by (auto simp: client_inv_def)
  from act obtain c e n cur where cx: "pc (lib s) t = Cx_Cas c e n cur" "cb_handle cur = e" "cbs (lib s) c = cur"
    "r = (lib s)\<lparr>cbs := (cbs (lib s))(c := ucast n),
       status := put_in c n (take_out t cur (status (lib s))), pc := (pc (lib s))(t := after_exchange cur)\<rparr>"
    by cases auto
  have vo: "view_ok own s t ?v" using rc(3) by (simp add: thread_ok_def)
  with cx(1) obtain q where v: "c \<in> gates" "made ?v = Some n" "mine ?v = Some q" "held ?v = Some e"
    by (fastforce simp: view_ok_def)
  obtain d' where d': "heap s q = Some d'" "own_data ?v (heap s) = Some d'" "obj (lib s) n = q"
    using vo v(2,3) by (fastforce simp: view_ok_def own_data_def data_def)
  have held: "held_data (obj (lib s)) ?v (heap s) = cur_data s c" using v(4) cx(2,3) by (simp add: held_data_def cur_data_def)
  obtain d where d: "cur_data s c = Some d"
    using rc(2) [of "cb_handle (cbs (lib s) c)"] cur_published_inv [OF inv v(1)]
    by (auto simp: version_ok_def cur_data_def simp del: cb_handle_lo)
  have "knows (loc s t) (Some d) (Some d')" using rc(3) held d d'(2) by (simp add: thread_ok_def)
  moreover have "cur_data (s\<lparr>lib := r, heap := heap s, loc := f\<rparr>) c = Some d'"
    using d' by (simp add: cur_data_def cx(4))
  ultimately show thesis using v(1) d by (intro that [of c d d']) (simp_all add: cx(4))
qed

text \<open>
  At rest, when every call has returned and no thread holds a version: a version is unused,
  published, or one that a thread has made and kept.
\<close>

lemma rest_status:
  assumes "reach (client_start gates initial starts) (client_step call local rc_limit) s"
    "\<And>t. pc (lib s) t = Idle" "\<And>t. held (view (loc s t)) = None"
  shows "status (lib s) h = Unused \<or> (\<exists>c\<in>gates. status (lib s) h = Published c) \<or>
    (\<exists>t. status (lib s) h = Private t \<and> made (view (loc s t)) = Some h)"
proof -
  from account.inv_reach [OF assms(1)] have inv: "rc_inv rc_limit (lib s)" "accounted s" by (auto simp: client_inv_def)
  have "count (holders (lib s) h) t = 0" for t
    using inv(2) unfolding accounted_def by (simp add: assms(3))
  then have "holders (lib s) h = {#}" by (simp add: multiset_eq_iff)
  then show ?thesis
    using rc_inv_ver [OF inv(1), of h] inv(2) assms(2) by (cases "status (lib s) h") (auto simp: accounted_def)
qed

lemma published_cur:
  assumes "client_inv s" "accounted s"
  shows "(\<exists>c. status (lib s) h = Published c) \<longleftrightarrow> h \<in> (\<lambda>c. cb_handle (cbs (lib s) c)) ` gates"
proof -
  have inv: "rc_inv rc_limit (lib s)" "\<And>c. c \<in> gates \<Longrightarrow> cb_handle (cbs (lib s) c) \<noteq> HANDLE_NULL"
    using assms(1) by (auto simp: client_inv_def simp del: cb_handle_lo)
  have "c \<in> gates \<and> cb_handle (cbs (lib s) c) = h" if "status (lib s) h = Published c" for c
    using that rc_inv_ver [OF inv(1), of h] assms(2) by (auto simp: accounted_def simp del: cb_handle_lo)
  with cur_published [OF inv(1) inv(2)] show ?thesis by blast
qed

text \<open>The objects left are those of the gates and those of versions kept by a thread.\<close>

lemma rest_heap:
  assumes "reach (client_start gates initial starts) (client_step call local rc_limit) s"
    "\<And>t. pc (lib s) t = Idle" "\<And>t. held (view (loc s t)) = None"
  shows "{q. heap s q \<noteq> None} = (\<lambda>c. obj (lib s) (cb_handle (cbs (lib s) c))) ` gates \<union>
    {q. \<exists>t. data (view (loc s t)) = Some q}"
proof -
  note st = rest_status [OF assms]
  from account.inv_reach [OF assms(1)] obtain own where inv: "client_inv s" "\<And>h. version_ok own s h" "\<And>t. thread_ok own s t"
    "accounted s" by (auto simp: client_inv_def)
  note cur = published_cur [OF inv(1,4)]
  have "heap s q \<noteq> None" if "data (view (loc s t)) = Some q" for t q
    using inv(3) [of t] that by (auto simp: thread_ok_def view_ok_def)
  moreover have "heap s (obj (lib s) h) \<noteq> None" if "h \<in> (\<lambda>c. cb_handle (cbs (lib s) c)) ` gates" for h
    using inv(2) [of h] that unfolding cur [symmetric] by (auto simp: version_ok_def)
  moreover have "(\<exists>t. data (view (loc s t)) = Some q) \<or> (\<exists>h. obj (lib s) h = q \<and> h \<in> (\<lambda>c. cb_handle (cbs (lib s) c)) ` gates)"
    if "heap s q \<noteq> None" for q
  proof (cases "\<exists>t. data (view (loc s t)) = Some q")
    case False
    with that inv(4) obtain h where h: "obj (lib s) h = q" "attached (lib s) h"
      unfolding accounted_def by auto
    with st [of h] have "\<exists>c. status (lib s) h = Published c" by (auto simp: attached_def)
    with h(1) show ?thesis unfolding cur by blast
  qed simp
  ultimately show ?thesis by fastforce
qed

text \<open>What the callback has not been called for: one version for each gate.\<close>

lemma rest_totals:
  assumes "reach (client_start gates initial starts) (client_step call local rc_limit) s"
    "\<And>t. pc (lib s) t = Idle" "\<And>t. view (loc s t) = no_view"
  shows "made_total (lib s) = called_total (lib s) + card gates"
proof -
  from account.inv_reach [OF assms(1)] have inv: "client_inv s" "accounted s" "rc_inv rc_limit (lib s)"
    by (auto simp: client_inv_def)
  have "status (lib s) h = Unused \<or> (\<exists>c. status (lib s) h = Published c)" for h
    using rest_status [OF assms(1,2), of h] by (auto simp: assms(3) no_view_def)
  from at_rest_totals [OF inv(3) this] have "made_total (lib s) = called_total (lib s) + card (occupied (lib s))" .
  moreover have "occupied (lib s) = gates"
  proof (intro set_eqI iffI)
    fix c
    assume "c \<in> occupied (lib s)"
    then have "status (lib s) (cb_handle (cbs (lib s) c)) = Published c"
      unfolding occupied_def mem_Collect_eq by (rule cur_published [OF inv(3)])
    then show "c \<in> gates" using inv(2) unfolding accounted_def by blast
  next
    fix c
    assume "c \<in> gates"
    then show "c \<in> occupied (lib s)" using inv(1) by (simp add: client_inv_def occupied_def del: cb_handle_lo)
  qed
  ultimately show ?thesis by simp
qed

end

end
