(* ===== verification/Example_Cmp_Exchange.thy ===== *)
theory Example_Cmp_Exchange
  imports Client_Rest Refcount_Props
begin

text \<open>
  The program \<open>microbench/bench1/cmp_exchange/atomsnap_example.cpp\<close>: writers replace the
  published pair of counters by its successor with \<open>atomsnap_compare_exchange_version\<close>, readers
  check that the two counters agree and that they never decrease. The theory shows that the
  readers' checks never fail and that no thread touches an object that has been deleted, for
  every number of threads and every interleaving.
\<close>

section \<open>The program\<close>

text \<open>
  \<open>struct Data\<close>; a member that was not initialised is \<^term>\<open>None\<close>, and reading it is a fault
  like reading memory that is not allocated. \<open>int64_t\<close> is \<^typ>\<open>int\<close> with the increment of the
  largest value (which is undefined) as a program point of its own.
\<close>

record snap_data =
  value1 :: "int option"
  value2 :: "int option"

definition INT64_MAX :: int where
  "INT64_MAX = 2 ^ 63 - 1"

definition fetch :: "('d \<Rightarrow> int option) \<Rightarrow> (nat \<Rightarrow> 'd option) \<Rightarrow> nat \<Rightarrow> int option" where
  "fetch f hp p = Option.bind (hp p) f"

definition get_object :: "(u32 \<Rightarrow> nat) \<Rightarrow> u32 \<Rightarrow> nat" where
  "get_object ob h = (if h = HANDLE_NULL then 0 else ob h)"

text \<open>
  Program points of \<open>writer\<close>, with \<open>new_version\<close>, \<open>new_data\<close>, \<open>old_version\<close> and \<open>old_data\<close>
  in this order where they are live.
\<close>

datatype cmp_writer =
    W_Make
  | W_New u32
  | W_Set u32 nat
  | W_Loop u32 nat
  | W_Acquire u32 nat
  | W_Get u32 nat u32
  | W_Value1 u32 nat u32 nat
  | W_Value2 u32 nat u32 nat
  | W_Cmp u32 nat u32
  | W_Cmp_In u32 nat u32
  | W_Make2 u32
  | W_New2 u32 u32
  | W_Set2 u32 nat u32
  | W_Release u32 nat u32
  | W_Add u32 nat
  | W_Exit u32 nat
  | W_Overflow u32 nat u32 nat
  | W_Fault

definition cmp_writer_call :: "cmp_writer \<Rightarrow> rc_label \<Rightarrow> cmp_writer option" where
  "cmp_writer_call p l = (case l of
     L_Make h \<Rightarrow> (case p of W_Make \<Rightarrow> Some (W_New h) | W_Make2 ov \<Rightarrow> Some (W_New2 h ov) | _ \<Rightarrow> None)
   | L_Set h q \<Rightarrow> (case p of
        W_Set nv nd \<Rightarrow> if h = nv \<and> q = nd then Some (W_Loop nv nd) else None
      | W_Set2 nv nd ov \<Rightarrow> if h = nv \<and> q = nd then Some (W_Release nv nd ov) else None
      | _ \<Rightarrow> None)
   | L_Acquire c h \<Rightarrow> (case p of W_Acquire nv nd \<Rightarrow> if c = 0 then Some (W_Get nv nd h) else None | _ \<Rightarrow> None)
   | L_Cx c e n \<Rightarrow> (case p of
        W_Cmp nv nd ov \<Rightarrow> if c = 0 \<and> e = ov \<and> n = nv \<and> ov \<noteq> HANDLE_NULL then Some (W_Cmp_In nv nd ov) else None
      | _ \<Rightarrow> None)
   | L_Cx_Refuse c e n \<Rightarrow> (case p of
        W_Cmp nv nd ov \<Rightarrow> if c = 0 \<and> e = ov \<and> n = nv then Some (W_Release nv nd ov) else None
      | _ \<Rightarrow> None)
   | L_Cx_False \<Rightarrow> (case p of W_Cmp_In nv nd ov \<Rightarrow> Some (W_Release nv nd ov) | _ \<Rightarrow> None)
   | L_Cx_True \<Rightarrow> (case p of W_Cmp_In nv nd ov \<Rightarrow> Some (W_Make2 ov) | _ \<Rightarrow> None)
   | L_Release h \<Rightarrow> (case p of
        W_Release nv nd ov \<Rightarrow> if h = ov \<and> ov \<noteq> HANDLE_NULL then Some (W_Loop nv nd) else None
      | _ \<Rightarrow> None)
   | L_Callback h \<Rightarrow> Some p
   | L_Tau \<Rightarrow> Some p
   | _ \<Rightarrow> None)"

definition cmp_writer_local ::
  "bool \<Rightarrow> nat \<Rightarrow> (u32 \<Rightarrow> nat) \<Rightarrow> cmp_writer \<Rightarrow> (nat \<Rightarrow> snap_data option) \<Rightarrow> cmp_writer \<times> (nat \<Rightarrow> snap_data option)" where
  "cmp_writer_local stop a ob p hp = (case p of
     W_New nv \<Rightarrow> (W_Set nv a, hp(a := Some \<lparr>value1 = None, value2 = None\<rparr>))
   | W_Loop nv nd \<Rightarrow> (if stop then W_Add nv nd else W_Acquire nv nd, hp)
   | W_Add nv nd \<Rightarrow> (W_Exit nv nd, hp)
   | W_Get nv nd ov \<Rightarrow> (W_Value1 nv nd ov (get_object ob ov), hp)
   | W_Value1 nv nd ov od \<Rightarrow>
       (case (fetch value1 hp od, hp nd) of
          (Some x, Some d) \<Rightarrow>
            if x = INT64_MAX then (W_Overflow nv nd ov od, hp)
            else (W_Value2 nv nd ov od, hp(nd := Some (d\<lparr>value1 := Some (x + 1)\<rparr>)))
        | _ \<Rightarrow> (W_Fault, hp))
   | W_Value2 nv nd ov od \<Rightarrow>
       (case (fetch value2 hp od, hp nd) of
          (Some x, Some d) \<Rightarrow>
            if x = INT64_MAX then (W_Overflow nv nd ov od, hp)
            else (W_Cmp nv nd ov, hp(nd := Some (d\<lparr>value2 := Some (x + 1)\<rparr>)))
        | _ \<Rightarrow> (W_Fault, hp))
   | W_New2 nv ov \<Rightarrow> (W_Set2 nv a ov, hp(a := Some \<lparr>value1 = None, value2 = None\<rparr>))
   | _ \<Rightarrow> (p, hp))"

text \<open>Program points of \<open>reader\<close>, with \<open>prev_value\<close>, \<open>current_version\<close>, \<open>d\<close> and the value read.\<close>

datatype cmp_reader =
    R_Loop int
  | R_Acquire int
  | R_Get int u32
  | R_Value1 int u32 nat
  | R_Value2 int u32 nat int
  | R_Order int u32 nat
  | R_Save int u32 nat
  | R_Release int u32
  | R_Add int
  | R_Exit int
  | R_Invalid_Data
  | R_Invalid_Value
  | R_Fault

definition cmp_reader_call :: "cmp_reader \<Rightarrow> rc_label \<Rightarrow> cmp_reader option" where
  "cmp_reader_call p l = (case l of
     L_Acquire c h \<Rightarrow> (case p of R_Acquire prev \<Rightarrow> if c = 0 then Some (R_Get prev h) else None | _ \<Rightarrow> None)
   | L_Release h \<Rightarrow> (case p of
        R_Release prev h' \<Rightarrow> if h = h' \<and> h' \<noteq> HANDLE_NULL then Some (R_Loop prev) else None
      | _ \<Rightarrow> None)
   | L_Callback h \<Rightarrow> Some p
   | L_Tau \<Rightarrow> Some p
   | _ \<Rightarrow> None)"

definition cmp_reader_local ::
  "bool \<Rightarrow> nat \<Rightarrow> (u32 \<Rightarrow> nat) \<Rightarrow> cmp_reader \<Rightarrow> (nat \<Rightarrow> snap_data option) \<Rightarrow> cmp_reader \<times> (nat \<Rightarrow> snap_data option)" where
  "cmp_reader_local stop a ob p hp = (case p of
     R_Loop prev \<Rightarrow> (if stop then R_Add prev else R_Acquire prev, hp)
   | R_Add prev \<Rightarrow> (R_Exit prev, hp)
   | R_Get prev h \<Rightarrow> (R_Value1 prev h (get_object ob h), hp)
   | R_Value1 prev h d \<Rightarrow>
       (case fetch value1 hp d of Some x \<Rightarrow> (R_Value2 prev h d x, hp) | None \<Rightarrow> (R_Fault, hp))
   | R_Value2 prev h d x \<Rightarrow>
       (case fetch value2 hp d of
          Some y \<Rightarrow> (if x \<noteq> y then R_Invalid_Data else R_Order prev h d, hp) | None \<Rightarrow> (R_Fault, hp))
   | R_Order prev h d \<Rightarrow>
       (case fetch value1 hp d of
          Some x \<Rightarrow> (if x < prev then R_Invalid_Value else R_Save prev h d, hp) | None \<Rightarrow> (R_Fault, hp))
   | R_Save prev h d \<Rightarrow>
       (case fetch value1 hp d of Some x \<Rightarrow> (R_Release x h, hp) | None \<Rightarrow> (R_Fault, hp))
   | _ \<Rightarrow> (p, hp))"

text \<open>The program: any number of threads of either kind, started after \<open>main\<close> published \<open>Data{0, 0}\<close>.\<close>

datatype cmp_thread = Writer cmp_writer | Reader cmp_reader

definition cmp_call :: "cmp_thread \<Rightarrow> rc_label \<Rightarrow> cmp_thread option" where
  "cmp_call p l = (case p of
     Writer w \<Rightarrow> map_option Writer (cmp_writer_call w l)
   | Reader r \<Rightarrow> map_option Reader (cmp_reader_call r l))"

definition cmp_local ::
  "bool \<Rightarrow> nat \<Rightarrow> (u32 \<Rightarrow> nat) \<Rightarrow> cmp_thread \<Rightarrow> (nat \<Rightarrow> snap_data option) \<Rightarrow> cmp_thread \<times> (nat \<Rightarrow> snap_data option)" where
  "cmp_local stop a ob p hp = (case p of
     Writer w \<Rightarrow> apfst Writer (cmp_writer_local stop a ob w hp)
   | Reader r \<Rightarrow> apfst Reader (cmp_reader_local stop a ob r hp))"

definition initial_data :: "snap_data \<Rightarrow> bool" where
  "initial_data d \<longleftrightarrow> d = \<lparr>value1 = Some 0, value2 = Some 0\<rparr>"

definition cmp_start :: "(snap_data, cmp_thread) client_state \<Rightarrow> bool" where
  "cmp_start s \<longleftrightarrow> client_start {0} initial_data {Writer W_Make, Reader (R_Loop 0)} s"

definition cmp_step :: "(snap_data, cmp_thread) client_state \<Rightarrow> (snap_data, cmp_thread) client_state \<Rightarrow> bool" where
  "cmp_step s s' \<longleftrightarrow> client_step cmp_call cmp_local rc_limit s s'"

section \<open>The program keeps the discipline\<close>

fun writer_view :: "cmp_writer \<Rightarrow> client_view" where
  "writer_view (W_New nv) = no_view\<lparr>made := Some nv\<rparr>"
| "writer_view (W_Set nv nd) = no_view\<lparr>made := Some nv, raw := Some nd\<rparr>"
| "writer_view (W_Loop nv nd) = no_view\<lparr>made := Some nv, mine := Some nd\<rparr>"
| "writer_view (W_Acquire nv nd) = no_view\<lparr>made := Some nv, mine := Some nd\<rparr>"
| "writer_view (W_Add nv nd) = no_view\<lparr>made := Some nv, mine := Some nd\<rparr>"
| "writer_view (W_Exit nv nd) = no_view\<lparr>made := Some nv, mine := Some nd\<rparr>"
| "writer_view (W_Get nv nd ov) = no_view\<lparr>made := Some nv, mine := Some nd, held := handle_opt ov\<rparr>"
| "writer_view (W_Value1 nv nd ov od) = no_view\<lparr>made := Some nv, mine := Some nd, held := handle_opt ov, ptr := Some od\<rparr>"
| "writer_view (W_Value2 nv nd ov od) = no_view\<lparr>made := Some nv, mine := Some nd, held := handle_opt ov, ptr := Some od\<rparr>"
| "writer_view (W_Overflow nv nd ov od) = no_view\<lparr>made := Some nv, mine := Some nd, held := handle_opt ov, ptr := Some od\<rparr>"
| "writer_view (W_Cmp nv nd ov) = no_view\<lparr>made := Some nv, mine := Some nd, held := handle_opt ov\<rparr>"
| "writer_view (W_Cmp_In nv nd ov) = no_view\<lparr>made := Some nv, mine := Some nd, held := handle_opt ov\<rparr>"
| "writer_view (W_Release nv nd ov) = no_view\<lparr>made := Some nv, mine := Some nd, held := handle_opt ov\<rparr>"
| "writer_view (W_Make2 ov) = no_view\<lparr>held := handle_opt ov\<rparr>"
| "writer_view (W_New2 nv ov) = no_view\<lparr>made := Some nv, held := handle_opt ov\<rparr>"
| "writer_view (W_Set2 nv nd ov) = no_view\<lparr>made := Some nv, raw := Some nd, held := handle_opt ov\<rparr>"
| "writer_view _ = no_view"

fun reader_view :: "cmp_reader \<Rightarrow> client_view" where
  "reader_view (R_Get prev h) = no_view\<lparr>held := handle_opt h\<rparr>"
| "reader_view (R_Value1 prev h d) = no_view\<lparr>held := handle_opt h, ptr := Some d\<rparr>"
| "reader_view (R_Value2 prev h d x) = no_view\<lparr>held := handle_opt h, ptr := Some d\<rparr>"
| "reader_view (R_Order prev h d) = no_view\<lparr>held := handle_opt h, ptr := Some d\<rparr>"
| "reader_view (R_Save prev h d) = no_view\<lparr>held := handle_opt h, ptr := Some d\<rparr>"
| "reader_view (R_Release prev h) = no_view\<lparr>held := handle_opt h\<rparr>"
| "reader_view _ = no_view"

definition succ1 :: "snap_data \<Rightarrow> snap_data \<Rightarrow> bool" where
  "succ1 d d' \<longleftrightarrow> value1 d' = map_option (\<lambda>x. x + 1) (value1 d)"

definition succ12 :: "snap_data \<Rightarrow> snap_data \<Rightarrow> bool" where
  "succ12 d d' \<longleftrightarrow> succ1 d d' \<and> value2 d' = value1 d' \<and> value1 d \<noteq> None"

text \<open>What the writer knows: the new pair is the successor of the old one, as far as it is written.\<close>

fun writer_knows :: "cmp_writer \<Rightarrow> snap_data option \<Rightarrow> snap_data option \<Rightarrow> bool" where
  "writer_knows (W_Get nv nd ov) dh dn \<longleftrightarrow> ov \<noteq> HANDLE_NULL"
| "writer_knows (W_Value1 nv nd ov od) dh dn \<longleftrightarrow> ov \<noteq> HANDLE_NULL"
| "writer_knows (W_Value2 nv nd ov od) dh dn \<longleftrightarrow> ov \<noteq> HANDLE_NULL \<and>
     (\<forall>d d'. dh = Some d \<longrightarrow> dn = Some d' \<longrightarrow> succ1 d d')"
| "writer_knows (W_Cmp nv nd ov) dh dn \<longleftrightarrow> (\<forall>d d'. dh = Some d \<longrightarrow> dn = Some d' \<longrightarrow> succ12 d d')"
| "writer_knows (W_Cmp_In nv nd ov) dh dn \<longleftrightarrow> (\<forall>d d'. dh = Some d \<longrightarrow> dn = Some d' \<longrightarrow> succ12 d d')"
| "writer_knows _ dh dn \<longleftrightarrow> True"

fun reader_knows :: "cmp_reader \<Rightarrow> snap_data option \<Rightarrow> bool" where
  "reader_knows (R_Get prev h) dh \<longleftrightarrow> h \<noteq> HANDLE_NULL"
| "reader_knows (R_Value1 prev h d) dh \<longleftrightarrow> h \<noteq> HANDLE_NULL"
| "reader_knows (R_Value2 prev h d x) dh \<longleftrightarrow> h \<noteq> HANDLE_NULL \<and> (\<forall>d. dh = Some d \<longrightarrow> value1 d = Some x)"
| "reader_knows (R_Order prev h d) dh \<longleftrightarrow> h \<noteq> HANDLE_NULL"
| "reader_knows (R_Save prev h d) dh \<longleftrightarrow> h \<noteq> HANDLE_NULL"
| "reader_knows _ dh \<longleftrightarrow> True"

fun prev_value :: "cmp_reader \<Rightarrow> int" where
  "prev_value (R_Loop v) = v"
| "prev_value (R_Acquire v) = v"
| "prev_value (R_Get v h) = v"
| "prev_value (R_Value1 v h d) = v"
| "prev_value (R_Value2 v h d x) = v"
| "prev_value (R_Order v h d) = v"
| "prev_value (R_Save v h d) = v"
| "prev_value (R_Release v h) = v"
| "prev_value (R_Add v) = v"
| "prev_value (R_Exit v) = v"
| "prev_value _ = 0"

definition good_data :: "snap_data \<Rightarrow> bool" where
  "good_data d \<longleftrightarrow> value1 d \<noteq> None \<and> value2 d = value1 d"

definition data_rank :: "snap_data \<Rightarrow> int" where
  "data_rank d = (case value1 d of None \<Rightarrow> 0 | Some x \<Rightarrow> x)"

definition cmp_view :: "cmp_thread \<Rightarrow> client_view" where
  "cmp_view p = (case p of Writer w \<Rightarrow> writer_view w | Reader r \<Rightarrow> reader_view r)"

definition cmp_knows :: "cmp_thread \<Rightarrow> snap_data option \<Rightarrow> snap_data option \<Rightarrow> bool" where
  "cmp_knows p dh dn \<longleftrightarrow> (case p of Writer w \<Rightarrow> writer_knows w dh dn | Reader r \<Rightarrow> reader_knows r dh)"

definition cmp_least :: "cmp_thread \<Rightarrow> int" where
  "cmp_least p = (case p of Writer w \<Rightarrow> 0 | Reader r \<Rightarrow> prev_value r)"

definition cmp_failed :: "cmp_thread \<Rightarrow> bool" where
  "cmp_failed p \<longleftrightarrow> p \<in> {Writer W_Fault, Reader R_Fault, Reader R_Invalid_Data, Reader R_Invalid_Value}"

lemmas cmp_call_defs = cmp_call_def cmp_writer_call_def cmp_reader_call_def
lemmas cmp_splits = rc_label.splits cmp_writer.splits cmp_reader.splits cmp_thread.splits option.splits if_splits

lemma cmp_call_view: "cmp_call p l = Some p' \<Longrightarrow> view_call {0} (cmp_view p) l (cmp_view p')"
  by (auto simp: cmp_call_defs cmp_view_def no_view_def handle_opt_def split: cmp_splits)

lemma cmp_call_failed: "cmp_call p l = Some p' \<Longrightarrow> \<not> cmp_failed p \<Longrightarrow> \<not> cmp_failed p'"
  by (auto simp: cmp_call_defs cmp_failed_def split: cmp_splits)

lemma cmp_call_least: "cmp_call p l = Some p' \<Longrightarrow> cmp_least p' = cmp_least p"
  by (auto simp: cmp_call_defs cmp_least_def split: cmp_splits)

lemma cmp_call_knows:
  assumes "cmp_call p l = Some p'" "cmp_knows p dh dn"
    "\<forall>c h. l = L_Acquire c h \<longrightarrow> h \<noteq> HANDLE_NULL"
    "(\<forall>c h. l \<noteq> L_Acquire c h) \<and> (\<forall>h. l \<noteq> L_Release h) \<longrightarrow> dh' = dh"
    "if (\<exists>c n. l = L_Exchange c n) \<or> l = L_Cx_True then dn2 = None else dn2 = dn"
  shows "cmp_knows p' dh' dn2"
proof -
  have "writer_knows w' dh' dn2" if "cmp_writer_call w l = Some w'" "writer_knows w dh dn" for w w'
    using that assms(3-5) by (cases l) (auto simp: cmp_writer_call_def split: cmp_writer.splits if_splits)
  moreover have "reader_knows r' dh'" if "cmp_reader_call r l = Some r'" "reader_knows r dh" for r r'
    using that assms(3,4) by (cases l) (auto simp: cmp_reader_call_def split: cmp_reader.splits if_splits)
  ultimately show ?thesis
    using assms(1,2) by (auto simp: cmp_call_def cmp_knows_def split: cmp_thread.splits)
qed

lemma cmp_cx_ok:
  "cmp_call p L_Cx_True = Some p' \<Longrightarrow> cmp_knows p (Some d') (Some d) \<Longrightarrow> good_data d \<and> data_rank d' \<le> data_rank d"
  by (auto simp: cmp_call_defs cmp_knows_def good_data_def data_rank_def succ12_def succ1_def split: cmp_splits)

lemmas cmp_local_defs = view_local_def held_data_def own_data_def data_def no_view_def handle_opt_def get_object_def fetch_def

lemma writer_local_ok:
  assumes step: "cmp_writer_local stop a ob p hp = (p', hp')" and p: "p \<noteq> W_Fault"
    and k: "writer_knows p (held_data ob (writer_view p) hp) (own_data (writer_view p) hp)"
    and held: "\<And>h. held (writer_view p) = Some h \<Longrightarrow> \<exists>d. hp (ob h) = Some d \<and> good_data d \<and> 0 \<le> data_rank d"
    and data: "\<And>q. data (writer_view p) = Some q \<Longrightarrow> hp q \<noteq> None"
    and dist: "\<And>q h. data (writer_view p) = Some q \<Longrightarrow> held (writer_view p) = Some h \<Longrightarrow> q \<noteq> ob h"
    and ptr: "\<And>q. ptr (writer_view p) = Some q \<Longrightarrow> \<exists>h. held (writer_view p) = Some h \<and> q = ob h"
  shows "view_local a ob (writer_view p) hp (writer_view p') hp' \<and>
    writer_knows p' (held_data ob (writer_view p') hp') (own_data (writer_view p') hp') \<and> p' \<noteq> W_Fault"
proof -
  have read: ?thesis if p: "p = W_Value1 nv nd ov od \<or> p = W_Value2 nv nd ov od" for nv nd ov od
  proof -
    from p k have ov: "ov \<noteq> HANDLE_NULL" "held (writer_view p) = Some ov" by (auto simp: handle_opt_def no_view_def)
    from p ptr [of od] ov(2) have od: "od = ob ov" by (auto simp: no_view_def)
    obtain d where d: "hp (ob ov) = Some d" "good_data d" using held [OF ov(2)] by blast
    then obtain x where x: "value1 d = Some x" "value2 d = Some x" by (auto simp: good_data_def)
    from p data [of nd] obtain d' where d': "hp nd = Some d'" by (auto simp: data_def no_view_def)
    from p dist [of nd ov] ov(2) have nd: "nd \<noteq> ob ov" by (auto simp: data_def no_view_def)
    from p show ?thesis
    proof
      assume "p = W_Value1 nv nd ov od"
      with step show ?thesis
        using ov od d x d' nd
        by (auto simp: cmp_writer_local_def cmp_local_defs succ12_def succ1_def split: if_splits)
    next
      assume "p = W_Value2 nv nd ov od"
      with step k show ?thesis
        using ov od d x d' nd
        by (auto simp: cmp_writer_local_def cmp_local_defs succ12_def succ1_def split: if_splits)
    qed
  qed
  show ?thesis
  proof (cases p)
    case (W_Get nv nd ov)
    with step k show ?thesis by (auto simp: cmp_writer_local_def cmp_local_defs)
  qed (use step p k ptr read in \<open>auto simp: cmp_writer_local_def cmp_local_defs split: if_splits\<close>)
qed

lemma reader_local_ok:
  assumes step: "cmp_reader_local stop a ob p hp = (p', hp')" and p: "p \<notin> {R_Fault, R_Invalid_Data, R_Invalid_Value}"
    and k: "reader_knows p (held_data ob (reader_view p) hp)"
    and held: "\<And>h. held (reader_view p) = Some h \<Longrightarrow> \<exists>d. hp (ob h) = Some d \<and> good_data d \<and> prev_value p \<le> data_rank d"
    and ptr: "\<And>q. ptr (reader_view p) = Some q \<Longrightarrow> \<exists>h. held (reader_view p) = Some h \<and> q = ob h"
  shows "view_local a ob (reader_view p) hp (reader_view p') hp' \<and>
    reader_knows p' (held_data ob (reader_view p') hp') \<and> p' \<notin> {R_Fault, R_Invalid_Data, R_Invalid_Value} \<and>
    (prev_value p' \<le> prev_value p \<or>
      (\<exists>d. held_data ob (reader_view p) hp = Some d \<and> prev_value p' \<le> data_rank d))"
proof (cases "\<exists>prev h d x. p \<in> {R_Value1 prev h d, R_Value2 prev h d x, R_Order prev h d, R_Save prev h d}")
  case True
  then obtain prev h q x where p': "p \<in> {R_Value1 prev h q, R_Value2 prev h q x, R_Order prev h q, R_Save prev h q}" by blast
  with k have h: "h \<noteq> HANDLE_NULL" "held (reader_view p) = Some h" by (auto simp: handle_opt_def no_view_def)
  from p' ptr [of q] h(2) have q: "q = ob h" by (auto simp: no_view_def)
  obtain d where d: "hp (ob h) = Some d" "good_data d" "prev_value p \<le> data_rank d" using held [OF h(2)] by blast
  then obtain y where y: "value1 d = Some y" "value2 d = Some y" by (auto simp: good_data_def)
  from p' step k h q d y show ?thesis
    by (auto simp: cmp_reader_local_def cmp_local_defs data_rank_def split: if_splits)
next
  case False
  with step p k show ?thesis
    by (cases p) (auto simp: cmp_reader_local_def cmp_local_defs split: if_splits)
qed

lemma cmp_start_simps [simp]:
  "cmp_view (Writer W_Make) = no_view" "cmp_view (Reader (R_Loop v)) = no_view"
  "\<not> cmp_failed (Writer W_Make)" "\<not> cmp_failed (Reader (R_Loop v))"
  "cmp_knows (Writer W_Make) dh dn" "cmp_knows (Reader (R_Loop v)) dh dn"
  "cmp_least (Writer W_Make) = 0" "cmp_least (Reader (R_Loop v)) = v"
  by (simp_all add: cmp_view_def cmp_failed_def cmp_knows_def cmp_least_def)

interpretation cmp_program: snapshot_client cmp_call cmp_local "{0}" cmp_view cmp_knows good_data data_rank cmp_least
  cmp_failed initial_data "{Writer W_Make, Reader (R_Loop 0)}"
proof
  fix stop a ob p hp p' hp'
  assume "cmp_local stop a ob p hp = (p', hp')" "\<not> cmp_failed p"
    "cmp_knows p (held_data ob (cmp_view p) hp) (own_data (cmp_view p) hp)"
    "\<And>h. held (cmp_view p) = Some h \<Longrightarrow> \<exists>d. hp (ob h) = Some d \<and> good_data d \<and> cmp_least p \<le> data_rank d"
    "\<And>q. data (cmp_view p) = Some q \<Longrightarrow> hp q \<noteq> None"
    "\<And>q h. data (cmp_view p) = Some q \<Longrightarrow> held (cmp_view p) = Some h \<Longrightarrow> q \<noteq> ob h"
    "\<And>q. ptr (cmp_view p) = Some q \<Longrightarrow> \<exists>h. held (cmp_view p) = Some h \<and> q = ob h"
  note a = this
  show "view_local a ob (cmp_view p) hp (cmp_view p') hp' \<and>
      cmp_knows p' (held_data ob (cmp_view p') hp') (own_data (cmp_view p') hp') \<and> \<not> cmp_failed p' \<and>
      (cmp_least p' \<le> cmp_least p \<or> (\<exists>d. held_data ob (cmp_view p) hp = Some d \<and> cmp_least p' \<le> data_rank d))"
  proof (cases p)
    case (Writer w)
    with a(1) obtain w' where w: "p' = Writer w'" "cmp_writer_local stop a ob w hp = (w', hp')"
      by (cases "cmp_writer_local stop a ob w hp") (auto simp: cmp_local_def)
    from writer_local_ok [OF w(2)] a(2-) Writer w(1) show ?thesis
      by (auto simp: cmp_view_def cmp_knows_def cmp_least_def cmp_failed_def)
  next
    case (Reader r)
    with a(1) obtain r' where r: "p' = Reader r'" "cmp_reader_local stop a ob r hp = (r', hp')"
      by (cases "cmp_reader_local stop a ob r hp") (auto simp: cmp_local_def)
    from reader_local_ok [OF r(2)] a(2-) Reader r(1) show ?thesis
      by (auto simp: cmp_view_def cmp_knows_def cmp_least_def cmp_failed_def)
  qed
next
  fix p c n p' dh d
  assume "cmp_call p (L_Exchange c n) = Some p'"
  then show "good_data d \<and> (\<forall>d'. good_data d' \<longrightarrow> data_rank d' \<le> data_rank d)"
    by (auto simp: cmp_call_defs split: cmp_splits)
next
  fix p l p' dh dn dh' dn2
  assume "cmp_call p l = Some p'" "cmp_knows p dh dn"
    "\<forall>c h. l = L_Acquire c h \<longrightarrow> h \<noteq> HANDLE_NULL \<and> dh = None \<and> (\<exists>d. dh' = Some d \<and> good_data d)"
    "(\<forall>c h. l \<noteq> L_Acquire c h) \<and> (\<forall>h. l \<noteq> L_Release h) \<longrightarrow> dh' = dh"
    "if (\<exists>c n. l = L_Exchange c n) \<or> l = L_Cx_True then dn2 = None else dn2 = dn"
  then show "cmp_knows p' dh' dn2" using cmp_call_knows by blast
qed (use cmp_call_view cmp_call_failed cmp_call_least cmp_cx_ok in
    \<open>auto simp: initial_data_def good_data_def data_rank_def\<close>)

section \<open>Correctness\<close>

text \<open>A thread that has not begun, is between two rounds of its loop, or has left it.\<close>

fun cmp_resting :: "cmp_thread \<Rightarrow> bool" where
  "cmp_resting (Writer W_Make) \<longleftrightarrow> True"
| "cmp_resting (Writer (W_Loop nv nd)) \<longleftrightarrow> True"
| "cmp_resting (Writer (W_Exit nv nd)) \<longleftrightarrow> True"
| "cmp_resting (Reader (R_Loop v)) \<longleftrightarrow> True"
| "cmp_resting (Reader (R_Exit v)) \<longleftrightarrow> True"
| "cmp_resting _ \<longleftrightarrow> False"

lemma cmp_resting_view:
  assumes "cmp_resting p"
  shows "held (cmp_view p) = None" "data (cmp_view p) = Some q \<longleftrightarrow> (\<exists>nv. p \<in> {Writer (W_Loop nv q), Writer (W_Exit nv q)})"
  using assms by (cases p rule: cmp_resting.cases; auto simp: cmp_view_def no_view_def data_def)+

text \<open>
  Claim C8. In every execution of the program, with any number of writers and readers, no
  reader finds two counters that differ or a counter smaller than the one it read before, and
  no thread reads an object that was deleted or not initialised. Whenever no call is under way
  and every thread rests, the only objects not deleted are the published one and the one each
  writer keeps for its next round, which it does not delete when it exits.
\<close>

theorem cmp_exchange_example_correct:
  assumes "reach cmp_start cmp_step s"
  shows "loc s t \<notin> {Writer W_Fault, Reader R_Fault, Reader R_Invalid_Data, Reader R_Invalid_Value} \<and>
    ((\<forall>u. pc (lib s) u = Idle \<and> cmp_resting (loc s u)) \<longrightarrow>
       {q. heap s q \<noteq> None} = insert (obj (lib s) (cb_handle (cbs (lib s) 0)))
         {nd. \<exists>u nv. loc s u \<in> {Writer (W_Loop nv nd), Writer (W_Exit nv nd)}})"
proof -
  have "cmp_start = client_start {0} initial_data {Writer W_Make, Reader (R_Loop 0)}"
    "cmp_step = client_step cmp_call cmp_local rc_limit"
    by (intro ext; simp add: cmp_start_def cmp_step_def)+
  with assms have run: "reach (client_start {0} initial_data {Writer W_Make, Reader (R_Loop 0)})
      (client_step cmp_call cmp_local rc_limit) s" by simp
  have "{q. heap s q \<noteq> None} = insert (obj (lib s) (cb_handle (cbs (lib s) 0)))
      {nd. \<exists>u nv. loc s u \<in> {Writer (W_Loop nv nd), Writer (W_Exit nv nd)}}"
    if "\<forall>u. pc (lib s) u = Idle \<and> cmp_resting (loc s u)"
    using cmp_program.rest_heap [OF run] cmp_resting_view that by (simp del: cb_handle_lo)
  with cmp_program.never_fails [OF run, of t] show ?thesis by (auto simp: cmp_failed_def)
qed

text \<open>
  An execution: \<open>main\<close> has published version 1 with its object at address 5, and thread 1, a
  reader, acquires it and reads the first counter.
\<close>

definition main_lib :: rc_state where
  "main_lib = run2\<lparr>obj := (obj run2)(1 := 5)\<rparr>"

lemma main_lib_fields:
  "pc main_lib = (\<lambda>_. Idle)" "holders main_lib = (\<lambda>_. {#})" "status main_lib = (\<lambda>_. Unused)(1 := Published 0)"
  "cbs main_lib 0 = pack32 0 1" "obj main_lib 1 = 5"
  by (simp_all add: main_lib_def run2_fields)

lemma main_lib_reach: "reach rc_init (rc_step rc_limit) main_lib"
proof -
  let ?s = "run1\<lparr>obj := (obj run1)(1 := 5)\<rparr>"
  have "rc_step rc_limit run1 ?s"
    by (rule rc_act.Set_Object [THEN rc_stepI, where t = 0]) (simp_all add: run1_def run0_def)
  moreover have "rc_step rc_limit ?s (?s\<lparr>cbs := (cbs ?s)(0 := ucast (1 :: u32)),
      status := put_in 0 1 (take_out 0 (cbs ?s 0) (status ?s)), pc := (pc ?s)(0 := after_exchange (cbs ?s 0))\<rparr>)"
    by (rule rc_act.Exchange [THEN rc_stepI]) (simp_all add: run1_def run0_def may_install_def)
  moreover have "?s\<lparr>cbs := (cbs ?s)(0 := ucast (1 :: u32)),
      status := put_in 0 1 (take_out 0 (cbs ?s 0) (status ?s)), pc := (pc ?s)(0 := after_exchange (cbs ?s 0))\<rparr> = main_lib"
    by (simp add: main_lib_def run2_def)
  ultimately show ?thesis
    using reach_step [OF reach_step [OF reach_step [OF run_reach(1) run_step_3(1)]]] by metis
qed

definition read_lib :: rc_state where
  "read_lib = main_lib\<lparr>cbs := (cbs main_lib)(0 := cbs main_lib 0 + REF_COUNT_INC),
     holders := (if (1 :: u32) = HANDLE_NULL then holders main_lib
                 else (holders main_lib)(1 := add_mset 1 (holders main_lib 1)))\<rparr>"

lemma read_lib_act: "rc_act rc_limit 1 (L_Acquire 0 1) main_lib read_lib"
  unfolding read_lib_def by (rule rc_act.Acquire) (simp_all add: main_lib_fields)

lemma read_lib_fields: "pc read_lib = (\<lambda>_. Idle)" "obj read_lib = obj main_lib"
  by (simp_all add: read_lib_def main_lib_fields)

definition cmp_state0 :: "(snap_data, cmp_thread) client_state" where
  "cmp_state0 = \<lparr>lib = main_lib, heap = (\<lambda>_. None)(5 := Some \<lparr>value1 = Some 0, value2 = Some 0\<rparr>),
     loc = (\<lambda>t. if t = 0 then Writer W_Make else Reader (R_Loop 0))\<rparr>"

definition cmp_state1 :: "(snap_data, cmp_thread) client_state" where
  "cmp_state1 = cmp_state0\<lparr>heap := heap cmp_state0, loc := (loc cmp_state0)(1 := Reader (R_Acquire 0))\<rparr>"

definition cmp_state2 :: "(snap_data, cmp_thread) client_state" where
  "cmp_state2 = cmp_state1\<lparr>lib := read_lib, heap := heap cmp_state1, loc := (loc cmp_state1)(1 := Reader (R_Get 0 1))\<rparr>"

definition cmp_state3 :: "(snap_data, cmp_thread) client_state" where
  "cmp_state3 = cmp_state2\<lparr>heap := heap cmp_state2, loc := (loc cmp_state2)(1 := Reader (R_Value1 0 1 5))\<rparr>"

definition cmp_state4 :: "(snap_data, cmp_thread) client_state" where
  "cmp_state4 = cmp_state3\<lparr>heap := heap cmp_state3, loc := (loc cmp_state3)(1 := Reader (R_Value2 0 1 5 0))\<rparr>"

lemma cmp_state0_start: "cmp_start cmp_state0"
  using main_lib_reach
  by (auto simp: cmp_start_def client_start_def cmp_state0_def main_lib_fields initial_data_def
      run_words inj_on_def split: if_splits)

lemma cmp_state4_reach: "reach cmp_start cmp_step cmp_state4"
proof -
  note cmp_state0_start
  moreover have "cmp_step cmp_state0 cmp_state1"
    unfolding cmp_step_def cmp_state1_def
    by (rule client_step.Local [where a = 9 and stop = False])
      (simp_all add: cmp_state0_def main_lib_fields cmp_local_def cmp_reader_local_def)
  moreover have "cmp_step cmp_state1 cmp_state2"
    using client_step.Call [of rc_limit 1 "L_Acquire 0 1" cmp_state1 read_lib cmp_call "Reader (R_Get 0 1)" cmp_local]
      read_lib_act
    by (simp add: cmp_step_def cmp_state2_def cmp_state1_def cmp_state0_def cmp_call_def cmp_reader_call_def)
  moreover have "cmp_step cmp_state2 cmp_state3"
    unfolding cmp_step_def cmp_state3_def
    by (rule client_step.Local [where a = 9])
      (simp_all add: cmp_state2_def cmp_state1_def cmp_state0_def main_lib_fields read_lib_fields cmp_local_def cmp_reader_local_def
        get_object_def run_words)
  moreover have "cmp_step cmp_state3 cmp_state4"
    unfolding cmp_step_def cmp_state4_def
    by (rule client_step.Local [where a = 9])
      (simp_all add: cmp_state3_def cmp_state2_def cmp_state1_def cmp_state0_def main_lib_fields read_lib_fields cmp_local_def
        cmp_reader_local_def fetch_def)
  ultimately show ?thesis by (meson reach_init reach_step)
qed

theorem cmp_exchange_example_correct_witness:
  "loc cmp_state4 1 = Reader (R_Value2 0 1 5 0) \<and> loc cmp_state4 1 \<noteq> Reader R_Invalid_Data \<and>
   {q. heap cmp_state0 q \<noteq> None} = {5}"
proof -
  have "\<forall>u. pc (lib cmp_state0) u = Idle \<and> cmp_resting (loc cmp_state0 u)"
    by (simp add: cmp_state0_def main_lib_fields)
  with cmp_exchange_example_correct [OF reach_init [where init = cmp_start, OF cmp_state0_start]]
  have "{q. heap cmp_state0 q \<noteq> None} = insert (obj (lib cmp_state0) (cb_handle (cbs (lib cmp_state0) 0)))
      {nd. \<exists>u nv. loc cmp_state0 u \<in> {Writer (W_Loop nv nd), Writer (W_Exit nv nd)}}" by blast
  also have "\<dots> = {5}" by (auto simp: cmp_state0_def main_lib_fields split: if_splits)
  finally show ?thesis using cmp_exchange_example_correct [OF cmp_state4_reach, of 1] by (simp add: cmp_state4_def)
qed

end
