(* ===== verification/Example_Counts.thy ===== *)
theory Example_Counts
  imports Example_Cmp_Exchange
begin

text \<open>
  The operation counts of \<open>microbench/bench1/cmp_exchange/atomsnap_example.cpp\<close>: each thread
  counts in a local variable \<open>ops\<close> and adds it to \<open>total_writer_ops\<close> or \<open>total_reader_ops\<close> when
  it leaves its loop. A writer counts an exchange that succeeded, and the pair it published is
  the successor of the pair it replaced; so the published counter and the operations counted are
  the same number, and no update is lost, whatever the interleaving.
\<close>

section \<open>Steps with counts\<close>

record cmp_counts =
  ops :: "nat \<Rightarrow> u64"
  total_writer_ops :: u64
  total_reader_ops :: u64

definition zero_counts :: cmp_counts where
  "zero_counts = \<lparr>ops = (\<lambda>_. 0), total_writer_ops = 0, total_reader_ops = 0\<rparr>"

text \<open>\<open>ops++\<close>, after a compare-exchange that succeeded and after a reader's release.\<close>

fun counted :: "rc_label \<Rightarrow> cmp_thread \<Rightarrow> bool" where
  "counted L_Cx_True (Writer w) \<longleftrightarrow> True"
| "counted (L_Release h) (Reader r) \<longleftrightarrow> True"
| "counted _ _ \<longleftrightarrow> False"

definition count_call :: "nat \<Rightarrow> rc_label \<Rightarrow> cmp_thread \<Rightarrow> cmp_counts \<Rightarrow> cmp_counts" where
  "count_call t l p k = (if counted l p then k\<lparr>ops := (ops k)(t := ops k t + 1)\<rparr> else k)"

text \<open>The \<open>fetch_add\<close> after the loop.\<close>

fun count_local :: "nat \<Rightarrow> cmp_thread \<Rightarrow> cmp_counts \<Rightarrow> cmp_counts" where
  "count_local t (Writer (W_Add nv nd)) k = k\<lparr>total_writer_ops := total_writer_ops k + ops k t\<rparr>"
| "count_local t (Reader (R_Add prev)) k = k\<lparr>total_reader_ops := total_reader_ops k + ops k t\<rparr>"
| "count_local t _ k = k"

type_synonym cmp_state = "(snap_data, cmp_thread) client_state \<times> cmp_counts"

inductive cmp_counted_step :: "cmp_state \<Rightarrow> cmp_state \<Rightarrow> bool" where
  Call:
    "rc_act rc_limit t l (lib s) r \<Longrightarrow> cmp_call (loc s t) l = Some p \<Longrightarrow>
     cmp_counted_step (s, k)
       (s\<lparr>lib := r, heap := label_heap l (lib s) (heap s), loc := (loc s)(t := p)\<rparr>, count_call t l (loc s t) k)"
| Local:
    "pc (lib s) t = Idle \<Longrightarrow> a \<noteq> 0 \<Longrightarrow> heap s a = None \<Longrightarrow>
     cmp_local stop a (obj (lib s)) (loc s t) (heap s) = (p, hp) \<Longrightarrow>
     cmp_counted_step (s, k) (s\<lparr>heap := hp, loc := (loc s)(t := p)\<rparr>, count_local t (loc s t) k)"

definition cmp_counted_start :: "cmp_state \<Rightarrow> bool" where
  "cmp_counted_start x \<longleftrightarrow> cmp_start (fst x) \<and> snd x = zero_counts"

section \<open>No update is lost\<close>

text \<open>What a thread has counted and not added yet.\<close>

fun unreported :: "cmp_thread \<Rightarrow> u64 \<Rightarrow> u64" where
  "unreported (Writer (W_Exit nv nd)) n = 0"
| "unreported (Writer w) n = n"
| "unreported (Reader r) n = 0"

definition reported :: "(snap_data, cmp_thread) client_state \<Rightarrow> cmp_counts \<Rightarrow> nat \<Rightarrow> u64" where
  "reported s k t = unreported (loc s t) (ops k t)"

lemma sum_change:
  fixes f g :: "nat \<Rightarrow> u64"
  assumes "finite T" "\<And>x. x \<notin> T \<Longrightarrow> f x = 0" "\<And>x. x \<noteq> t \<Longrightarrow> g x = f x"
  shows "(\<Sum>x\<in>insert t T. g x) = (\<Sum>x\<in>T. f x) - f t + g t"
proof -
  have "(\<Sum>x\<in>insert t T. g x) = g t + (\<Sum>x\<in>T - {t}. f x)"
    using assms(1,3) by (simp add: sum.insert_remove)
  moreover have "(\<Sum>x\<in>T. f x) = f t + (\<Sum>x\<in>T - {t}. f x)"
    using assms(1,2) by (cases "t \<in> T") (simp_all add: sum.remove)
  ultimately show ?thesis by simp
qed

text \<open>
  The published counter is what has been reported and what is still to be reported, summed over
  some finite set of threads outside which there is nothing.
\<close>

definition counter_is :: "(snap_data, cmp_thread) client_state \<Rightarrow> cmp_counts \<Rightarrow> bool" where
  "counter_is s k \<longleftrightarrow> (\<exists>T d v. finite T \<and> (\<forall>t. t \<notin> T \<longrightarrow> reported s k t = 0) \<and>
     cur_data s 0 = Some d \<and> value1 d = Some v \<and> of_int v = total_writer_ops k + (\<Sum>t\<in>T. reported s k t))"

lemma counter_is_step:
  assumes "counter_is s k" "\<And>u. u \<noteq> t \<Longrightarrow> reported s' k' u = reported s k u"
    and v: "\<And>d v. cur_data s 0 = Some d \<Longrightarrow> value1 d = Some v \<Longrightarrow> \<exists>d' v'. cur_data s' 0 = Some d' \<and> value1 d' = Some v' \<and>
      of_int v' + reported s k t + total_writer_ops k = of_int v + reported s' k' t + total_writer_ops k'"
  shows "counter_is s' k'"
proof -
  from assms(1) obtain T d v where T: "finite T" "\<And>t. t \<notin> T \<Longrightarrow> reported s k t = 0" "cur_data s 0 = Some d"
    "value1 d = Some v" "of_int v = total_writer_ops k + (\<Sum>t\<in>T. reported s k t)" by (auto simp: counter_is_def)
  from v [OF T(3,4)] obtain d' v' where d': "cur_data s' 0 = Some d'" "value1 d' = Some v'"
    "of_int v' + reported s k t + total_writer_ops k = of_int v + reported s' k' t + total_writer_ops k'" by blast
  have "(\<Sum>x\<in>insert t T. reported s' k' x) = (\<Sum>x\<in>T. reported s k x) - reported s k t + reported s' k' t"
    by (rule sum_change [OF T(1,2) assms(2)])
  with T(5) d'(3) have "of_int v' + reported s k t = total_writer_ops k' + (\<Sum>x\<in>insert t T. reported s' k' x) + reported s k t"
    by (simp add: algebra_simps)
  then have "of_int v' = total_writer_ops k' + (\<Sum>x\<in>insert t T. reported s' k' x)" by simp
  moreover have "reported s' k' x = 0" if "x \<notin> insert t T" for x using that T(2) [of x] assms(2) [of x] by simp
  ultimately show ?thesis unfolding counter_is_def using T(1) d'(1,2) by (intro exI [of _ "insert t T"]) auto
qed

lemma cmp_reach:
  "reach cmp_start cmp_step = reach (client_start {0} initial_data {Writer W_Make, Reader (R_Loop 0)})
     (client_step cmp_call cmp_local rc_limit)"
proof -
  have "cmp_start = client_start {0} initial_data {Writer W_Make, Reader (R_Loop 0)}"
    "cmp_step = client_step cmp_call cmp_local rc_limit"
    by (intro ext; simp add: cmp_start_def cmp_step_def)+
  then show ?thesis by simp
qed

definition counts_inv :: "cmp_state \<Rightarrow> bool" where
  "counts_inv x \<longleftrightarrow> (case x of (s, k) \<Rightarrow>
     reach cmp_start cmp_step s \<and> counter_is s k \<and> (\<forall>t. loc s t = Writer W_Make \<longrightarrow> ops k t = 0))"

lemma call_reports:
  assumes "cmp_call p l = Some p'" "l \<noteq> L_Cx_True"
  shows "unreported p' (ops (count_call t l p k) t) = unreported p (ops k t)"
    "p' = Writer W_Make \<Longrightarrow> p = Writer W_Make \<and> count_call t l p k = k"
    "total_writer_ops (count_call t l p k) = total_writer_ops k"
  using assms by (auto simp: cmp_call_defs count_call_def split: cmp_splits)

lemma cx_reports:
  assumes "cmp_call p L_Cx_True = Some p'"
  obtains nv nd ov where "p = Writer (W_Cmp_In nv nd ov)" "p' = Writer (W_Make2 ov)"
  using assms by (auto simp: cmp_call_defs split: cmp_splits)

lemma local_reports:
  assumes "cmp_local stop a ob p hp = (p', hp')"
  shows "unreported p' (ops (count_local t p k) t) + total_writer_ops (count_local t p k) =
      unreported p (ops k t) + total_writer_ops k"
    "p' = Writer W_Make \<Longrightarrow> p = Writer W_Make" "ops (count_local t p k) = ops k"
proof -
  show "ops (count_local t p k) = ops k" by (cases "(t, p, k)" rule: count_local.cases) simp_all
  show "unreported p' (ops (count_local t p k) t) + total_writer_ops (count_local t p k) =
      unreported p (ops k t) + total_writer_ops k" "p' = Writer W_Make \<Longrightarrow> p = Writer W_Make"
    using assms
    by (auto simp: cmp_local_def cmp_writer_local_def cmp_reader_local_def split: cmp_splits)
qed

lemma counts_start:
  assumes "cmp_counted_start (s, k)"
  shows "counts_inv (s, k)"
proof -
  from assms have start: "cmp_start s" and k: "k = zero_counts" by (simp_all add: cmp_counted_start_def)
  have run: "reach cmp_start cmp_step s" using start by (rule reach_init)
  have inv: "cmp_program.client_inv s" using cmp_program.run.inv_reach run by (simp add: cmp_reach)
  have "\<exists>d. heap s (obj (lib s) (cb_handle (cbs (lib s) 0))) = Some d \<and> initial_data d"
    using cmp_program.cur_published_inv [OF inv, of 0] start unfolding cmp_start_def client_start_def by blast
  then have "cur_data s 0 = Some \<lparr>value1 = Some 0, value2 = Some 0\<rparr>"
    by (auto simp: cur_data_def initial_data_def simp del: cb_handle_lo)
  moreover have "reported s k t = 0" for t
    by (simp add: reported_def k zero_counts_def) (cases "(loc s t, 0 :: u64)" rule: unreported.cases; simp)
  ultimately have "counter_is s k" unfolding counter_is_def by (intro exI [of _ "{}"]) (auto simp: k zero_counts_def)
  with run show ?thesis by (simp add: counts_inv_def k zero_counts_def)
qed

lemma counts_call:
  assumes inv: "counts_inv (s, k)" and act: "rc_act rc_limit t l (lib s) r" and call: "cmp_call (loc s t) l = Some p"
  shows "counts_inv (s\<lparr>lib := r, heap := label_heap l (lib s) (heap s), loc := (loc s)(t := p)\<rparr>, count_call t l (loc s t) k)"
    (is "counts_inv (?s', ?k')")
proof -
  from inv have run: "reach cmp_start cmp_step s" and cnt: "counter_is s k"
    and fresh: "\<And>t. loc s t = Writer W_Make \<Longrightarrow> ops k t = 0" by (auto simp: counts_inv_def)
  have step: "cmp_step s ?s'" unfolding cmp_step_def by (rule client_step.Call) (rule act call)+
  have inv: "cmp_program.client_inv s" using cmp_program.run.inv_reach run by (simp add: cmp_reach)
  have other: "reported ?s' ?k' u = reported s k u" if "u \<noteq> t" for u using that by (simp add: reported_def count_call_def)
  have "counter_is ?s' ?k' \<and> (p = Writer W_Make \<longrightarrow> ops ?k' t = 0)"
  proof (cases "l = L_Cx_True")
    case False
    note rep = call_reports [OF call False, of t k]
    have l: "l \<noteq> L_Exchange c n" for c n using call by (auto simp: cmp_call_defs split: cmp_splits)
    have cur: "cur_data ?s' 0 = cur_data s 0" by (rule cmp_program.call_cur [OF inv _ act l False]) simp
    have "counter_is ?s' ?k'"
      by (rule counter_is_step [OF cnt other]) (use rep cur in \<open>auto simp: reported_def\<close>)
    then show ?thesis using rep(2) fresh by auto
  next
    case True
    from call True obtain nv nd ov where p: "loc s t = Writer (W_Cmp_In nv nd ov)" "p = Writer (W_Make2 ov)"
      by (auto elim: cx_reports)
    obtain c d d' where cx: "c \<in> {0}" "cur_data s c = Some d"
      "cur_data (s\<lparr>lib := r, heap := heap s, loc := (loc s)(t := p)\<rparr>) c = Some d'" "cmp_knows (loc s t) (Some d) (Some d')"
      by (rule cmp_program.cx_cur [OF inv act [unfolded True] call [unfolded True]])
    then have "value1 d' = map_option (\<lambda>x. x + 1) (value1 d)"
      by (simp add: p(1) cmp_knows_def succ12_def succ1_def)
    with cx p have "counter_is ?s' ?k'"
      by (intro counter_is_step [OF cnt other]) (auto simp: reported_def count_call_def True)
    with p(2) show ?thesis by simp
  qed
  with fresh reach_step [OF run step] show ?thesis by (auto simp: counts_inv_def count_call_def)
qed

lemma counts_local:
  assumes inv: "counts_inv (s, k)" and idle: "pc (lib s) t = Idle" and addr: "a \<noteq> 0" "heap s a = None"
    and step: "cmp_local stop a (obj (lib s)) (loc s t) (heap s) = (p, hp)"
  shows "counts_inv (s\<lparr>heap := hp, loc := (loc s)(t := p)\<rparr>, count_local t (loc s t) k)" (is "counts_inv (?s', ?k')")
proof -
  from inv have run: "reach cmp_start cmp_step s" and cnt: "counter_is s k"
    and fresh: "\<And>t. loc s t = Writer W_Make \<Longrightarrow> ops k t = 0" by (auto simp: counts_inv_def)
  have "cmp_step s ?s'" unfolding cmp_step_def by (rule client_step.Local) (rule idle addr step)+
  then have run': "reach cmp_start cmp_step ?s'" by (rule reach_step [OF run])
  have inv: "cmp_program.client_inv s" using cmp_program.run.inv_reach run by (simp add: cmp_reach)
  note rep = local_reports(1) [OF step, of t k] local_reports(2) [OF step] local_reports(3) [OF step, of t k]
  have cur: "cur_data ?s' 0 = cur_data s 0" by (rule cmp_program.local_cur [OF inv _ addr step]) simp
  have "reported ?s' ?k' u = reported s k u" if "u \<noteq> t" for u using that rep(3) by (simp add: reported_def)
  then have "counter_is ?s' ?k'"
    by (rule counter_is_step [OF cnt]) (use rep(1) cur in \<open>auto simp: reported_def algebra_simps\<close>)
  with run' fresh rep(2,3) show ?thesis by (auto simp: counts_inv_def)
qed

interpretation cmp_counts: inductive_invariant cmp_counted_start cmp_counted_step counts_inv
proof
  show "counts_inv x" if "cmp_counted_start x" for x using that counts_start by (cases x) simp
  show "counts_inv y" if inv: "counts_inv x" and step: "cmp_counted_step x y" for x y
    using step
  proof cases
    case (Call t l s r p k)
    with inv show ?thesis using counts_call by blast
  next
    case (Local s t a stop p hp k)
    with inv show ?thesis using counts_local by blast
  qed
qed

text \<open>
  Claim C9. In the compare-exchange program no update is lost and none is counted twice: once
  every writer has not begun or has left its loop, whatever the readers do, the two counters of
  the published object are equal, and in 64 bits they are the number of writer operations that
  \<open>main\<close> reports.
\<close>

theorem no_update_lost:
  assumes "reach cmp_counted_start cmp_counted_step (s, k)"
    "\<forall>t w. loc s t = Writer w \<longrightarrow> w = W_Make \<or> (\<exists>nv nd. w = W_Exit nv nd)"
  shows "\<exists>v. heap s (obj (lib s) (cb_handle (cbs (lib s) 0))) = Some \<lparr>value1 = Some v, value2 = Some v\<rparr> \<and>
    total_writer_ops k = of_int v"
proof -
  have inv: "counts_inv (s, k)" by (rule cmp_counts.inv_reach [OF assms(1)])
  then obtain T d v where d: "cur_data s 0 = Some d" "value1 d = Some v"
    "of_int v = total_writer_ops k + (\<Sum>t\<in>T. reported s k t)"
    and fresh: "\<And>t. loc s t = Writer W_Make \<Longrightarrow> ops k t = 0" and run: "reach cmp_start cmp_step s"
    by (auto simp: counts_inv_def counter_is_def)
  have "reported s k t = 0" for t
  proof (cases "loc s t")
    case (Writer w)
    with assms(2) consider "w = W_Make" | nv nd where "w = W_Exit nv nd" by blast
    then show ?thesis using fresh [of t] Writer by cases (simp_all add: reported_def)
  qed (simp add: reported_def)
  with d(3) have "total_writer_ops k = of_int v" by simp
  moreover have "good_data d"
  proof -
    have "cmp_program.client_inv s" using cmp_program.run.inv_reach run by (simp add: cmp_reach)
    then obtain own where "rc_inv rc_limit (lib s)" "\<And>h. cmp_program.version_ok own s h" "cb_handle (cbs (lib s) 0) \<noteq> HANDLE_NULL"
      by (auto simp: cmp_program.client_inv_def simp del: cb_handle_lo)
    from cmp_program.cur_good [OF this] d(1) show ?thesis by auto
  qed
  with d(2) have "d = \<lparr>value1 = Some v, value2 = Some v\<rparr>" by (simp add: good_data_def)
  with d(1) have "heap s (obj (lib s) (cb_handle (cbs (lib s) 0))) = Some \<lparr>value1 = Some v, value2 = Some v\<rparr>"
    by (simp add: cur_data_def del: cb_handle_lo)
  ultimately show ?thesis by blast
qed

section \<open>A run of a writer\<close>

text \<open>
  One writer, thread 0, next to readers that have not begun: it replaces version 1 (object at
  address 5) by version 2 (object at address 9), prepares version 3 (object at address 10),
  releases version 1, whose object the callback deletes, and leaves its loop.
\<close>

definition tour :: "rc_state \<Rightarrow> (nat \<Rightarrow> snap_data option) \<Rightarrow> cmp_writer \<Rightarrow> cmp_counts \<Rightarrow> bool" where
  "tour r hp w k \<longleftrightarrow> reach cmp_counted_start cmp_counted_step (\<lparr>lib = r, heap = hp, loc = (loc cmp_state0)(0 := Writer w)\<rparr>, k)"

lemma tour_local:
  assumes "tour r hp w k" "a \<noteq> 0" "pc r 0 = Idle" "hp a = None"
    "cmp_writer_local stop a (obj r) w hp = (w', hp')" "count_local 0 (Writer w) k = k'"
  shows "tour r hp' w' k'"
proof -
  let ?s = "\<lparr>lib = r, heap = hp, loc = (loc cmp_state0)(0 := Writer w)\<rparr>"
  have "cmp_counted_step (?s, k) (?s\<lparr>heap := hp', loc := (loc ?s)(0 := Writer w')\<rparr>, count_local 0 (loc ?s 0) k)"
    by (rule cmp_counted_step.Local [where a = a and stop = stop]) (use assms(2-5) in \<open>simp_all add: cmp_local_def\<close>)
  with assms(1,6) reach_step show ?thesis unfolding tour_def by fastforce
qed

lemma tour_call:
  assumes "tour r hp w k" "rc_act rc_limit 0 l r r'" "cmp_writer_call w l = Some w'" "label_heap l r hp = hp'"
    "count_call 0 l (Writer w) k = k'"
  shows "tour r' hp' w' k'"
proof -
  let ?s = "\<lparr>lib = r, heap = hp, loc = (loc cmp_state0)(0 := Writer w)\<rparr>"
  have "cmp_counted_step (?s, k)
      (?s\<lparr>lib := r', heap := label_heap l (lib ?s) (heap ?s), loc := (loc ?s)(0 := Writer w')\<rparr>, count_call 0 l (loc ?s 0) k)"
    by (rule cmp_counted_step.Call) (use assms(2-3) in \<open>simp_all add: cmp_call_def\<close>)
  with assms(1,4,5) reach_step show ?thesis unfolding tour_def by fastforce
qed

lemma tour_start: "tour main_lib (heap cmp_state0) W_Make zero_counts"
proof -
  note cmp_state0_start
  moreover have "cmp_state0 = \<lparr>lib = main_lib, heap = heap cmp_state0, loc = (loc cmp_state0)(0 := Writer W_Make)\<rparr>"
    by (simp add: cmp_state0_def fun_eq_iff)
  ultimately show ?thesis unfolding tour_def by (intro reach_init) (simp add: cmp_counted_start_def)
qed

text \<open>Up to the compare-exchange: version 1 is held and version 2 carries its successor.\<close>

lemma tour_prepared:
  obtains r where "tour r ((heap cmp_state0)(9 := Some \<lparr>value1 = Some 1, value2 = Some 1\<rparr>)) (W_Cmp 2 9 1) zero_counts"
    "pc r = (\<lambda>_. Idle)" "status r = (\<lambda>_. Unused)(1 := Published 0, 2 := Private 0)" "cbs r 0 = pack32 1 1"
    "holders r 1 = {#0#}" "inner r 1 = 0" "obj r 1 = 5"
proof -
  let ?hp = "heap cmp_state0"
  define r1 where "r1 = main_lib\<lparr>status := (status main_lib)(2 := Private 0), inner := (inner main_lib)(2 := 0),
    obj := (obj main_lib)(2 := 0), allocs := (allocs main_lib)(2 := Suc (allocs main_lib 2))\<rparr>"
  define r2 where "r2 = r1\<lparr>obj := (obj r1)(2 := 9)\<rparr>"
  define r3 where "r3 = r2\<lparr>cbs := (cbs r2)(0 := cbs r2 0 + REF_COUNT_INC),
    holders := (if (1 :: u32) = HANDLE_NULL then holders r2 else (holders r2)(1 := add_mset 0 (holders r2 1)))\<rparr>"
  have null: "(1 :: u32) \<noteq> HANDLE_NULL" "(2 :: u32) \<noteq> HANDLE_NULL" by (simp_all add: HANDLE_NULL_def)
  have inner0: "inner main_lib 1 = 0" by (simp add: main_lib_def run2_def run1_def)
  have r2: "pc r2 = (\<lambda>_. Idle)" "cbs r2 0 = pack32 0 1" "holders r2 = (\<lambda>_. {#})" "status r1 2 = Private 0" "pc r1 = (\<lambda>_. Idle)"
    by (simp_all add: r2_def r1_def main_lib_fields)
  have r3: "pc r3 = (\<lambda>_. Idle)" "status r3 = (\<lambda>_. Unused)(1 := Published 0, 2 := Private 0)" "cbs r3 0 = pack32 1 1"
    "holders r3 1 = {#0#}" "inner r3 1 = 0" "obj r3 1 = 5"
    using cb_word.mk_inc [of 0 1]
    by (auto simp: r3_def r2_def r1_def main_lib_fields null inner0)
  note sim = cmp_writer_local_def cmp_state0_def r2 r3(1,6) get_object_def null fetch_def INT64_MAX_def
  have "rc_act rc_limit 0 (L_Make 2) main_lib r1" unfolding r1_def by (rule rc_act.Make) (simp_all add: main_lib_fields null)
  then have "tour r1 ?hp (W_New 2) zero_counts"
    by (rule tour_call [OF tour_start]) (simp_all add: cmp_writer_call_def count_call_def)
  then have "tour r1 (?hp(9 := Some \<lparr>value1 = None, value2 = None\<rparr>)) (W_Set 2 9) zero_counts"
    by (rule tour_local [of _ _ _ _ 9]) (simp_all add: sim)
  moreover have "rc_act rc_limit 0 (L_Set 2 9) r1 r2" unfolding r2_def by (rule rc_act.Set_Object) (simp_all add: r2)
  ultimately have "tour r2 (?hp(9 := Some \<lparr>value1 = None, value2 = None\<rparr>)) (W_Loop 2 9) zero_counts"
    by (rule tour_call) (simp_all add: cmp_writer_call_def count_call_def)
  then have "tour r2 (?hp(9 := Some \<lparr>value1 = None, value2 = None\<rparr>)) (W_Acquire 2 9) zero_counts"
    by (rule tour_local [of _ _ _ _ 10 False]) (simp_all add: sim)
  moreover have "rc_act rc_limit 0 (L_Acquire 0 1) r2 r3" unfolding r3_def by (rule rc_act.Acquire) (simp_all add: r2)
  ultimately have "tour r3 (?hp(9 := Some \<lparr>value1 = None, value2 = None\<rparr>)) (W_Get 2 9 1) zero_counts"
    by (rule tour_call) (simp_all add: cmp_writer_call_def count_call_def)
  then have "tour r3 (?hp(9 := Some \<lparr>value1 = None, value2 = None\<rparr>)) (W_Value1 2 9 1 5) zero_counts"
    by (rule tour_local [of _ _ _ _ 10]) (simp_all add: sim)
  then have "tour r3 (?hp(9 := Some \<lparr>value1 = Some 1, value2 = None\<rparr>)) (W_Value2 2 9 1 5) zero_counts"
    by (rule tour_local [of _ _ _ _ 10]) (simp_all add: sim)
  then have "tour r3 (?hp(9 := Some \<lparr>value1 = Some 1, value2 = Some 1\<rparr>)) (W_Cmp 2 9 1) zero_counts"
    by (rule tour_local [of _ _ _ _ 10]) (simp_all add: sim)
  then show thesis using r3 by (rule that)
qed

text \<open>Up to the release: version 1 is detached with one release outstanding, version 3 is made.\<close>

lemma tour_exchanged:
  obtains r where "tour r ((heap cmp_state0)(9 := Some \<lparr>value1 = Some 1, value2 = Some 1\<rparr>, 10 := Some \<lparr>value1 = None, value2 = None\<rparr>))
      (W_Release 3 10 1) (zero_counts\<lparr>ops := (\<lambda>_. 0)(0 := 1)\<rparr>)"
    "pc r = (\<lambda>_. Idle)" "holders r 1 = {#0#}" "inner r 1 = pack32 (- 1) INNER_F_DETACHED" "obj r 1 = 5"
proof -
  let ?hp = "(heap cmp_state0)(9 := Some \<lparr>value1 = Some 1, value2 = Some 1\<rparr>)"
  let ?k = "zero_counts\<lparr>ops := (\<lambda>_. 0)(0 := 1)\<rparr>"
  have null: "(1 :: u32) \<noteq> HANDLE_NULL" "(2 :: u32) \<noteq> HANDLE_NULL" "(3 :: u32) \<noteq> HANDLE_NULL" by (simp_all add: HANDLE_NULL_def)
  obtain r where tour: "tour r ?hp (W_Cmp 2 9 1) zero_counts"
    and r: "pc r = (\<lambda>_. Idle)" "status r = (\<lambda>_. Unused)(1 := Published 0, 2 := Private 0)" "cbs r 0 = pack32 1 1"
    "holders r 1 = {#0#}" "inner r 1 = 0" "obj r 1 = 5" by (rule tour_prepared)
  define r1 where "r1 = r\<lparr>pc := (pc r)(0 := Cx_Cas 0 1 2 (cbs r 0))\<rparr>"
  define r2 where "r2 = r1\<lparr>cbs := (cbs r1)(0 := ucast (2 :: u32)), status := put_in 0 2 (take_out 0 (cbs r 0) (status r1)),
    pc := (pc r1)(0 := after_exchange (cbs r 0))\<rparr>"
  define r3 where "r3 = r2\<lparr>pc := (pc r2)(0 := Det_Cas 1 1 (inner r2 1))\<rparr>"
  define w where "w = pack32 (- 1) INNER_F_DETACHED"
  define r4 where "r4 = r3\<lparr>inner := (inner r3)(1 := w), status := (status r3)(1 := if finalize_due w then Finalizing 0 else Detached),
    pc := (pc r3)(0 := after_adjust 1 w)\<rparr>"
  define r5 where "r5 = r4\<lparr>status := (status r4)(3 := Private 0), inner := (inner r4)(3 := 0),
    obj := (obj r4)(3 := 0), allocs := (allocs r4)(3 := Suc (allocs r4 3))\<rparr>"
  define r6 where "r6 = r5\<lparr>obj := (obj r5)(3 := 10)\<rparr>"
  have due: "\<not> finalize_due w" by (simp add: w_def finalize_due_pack)
  have r2: "pc r2 = (\<lambda>_. Idle)(0 := Det_Load 1 1)" "inner r2 1 = 0"
    by (auto simp: r2_def r1_def r after_exchange_def null)
  have r4: "pc r4 = (\<lambda>_. Idle)" "status r4 3 = Unused" "holders r4 1 = {#0#}" "inner r4 1 = w" "obj r4 1 = 5"
    by (auto simp: r4_def r3_def r2_def r1_def r due after_adjust_def put_in_def take_out_def)
  have r6: "pc r5 = (\<lambda>_. Idle)" "status r5 3 = Private 0" "pc r6 = (\<lambda>_. Idle)" "holders r6 1 = {#0#}" "inner r6 1 = w" "obj r6 1 = 5"
    by (auto simp: r6_def r5_def r4)
  note sim = cmp_writer_call_def count_call_def zero_counts_def null fun_upd_def
  have "rc_act rc_limit 0 (L_Cx 0 1 2) r r1"
    unfolding r1_def by (rule rc_act.Cx_Load) (simp_all add: r may_install_def may_expect_def)
  then have "tour r1 ?hp (W_Cmp_In 2 9 1) zero_counts" by (rule tour_call [OF tour]) (simp_all add: sim)
  moreover have "rc_act rc_limit 0 L_Cx_True r1 r2"
    unfolding r2_def by (rule rc_act.Cx_Ok [where e = 1]) (simp_all add: r1_def r)
  ultimately have "tour r2 ?hp (W_Make2 1) ?k" by (rule tour_call) (simp_all add: sim)
  moreover have "rc_act rc_limit 0 L_Tau r2 r3" unfolding r3_def by (rule rc_act.Detach_Load) (simp add: r2)
  ultimately have "tour r3 ?hp (W_Make2 1) ?k" by (rule tour_call) (simp_all add: sim)
  moreover have "rc_act rc_limit 0 L_Tau r3 r4"
    unfolding r4_def by (rule rc_act.Detach_Ok [of _ _ _ 1 "inner r2 1"]) (simp_all add: r3_def r2 w_def det_word)
  ultimately have "tour r4 ?hp (W_Make2 1) ?k" by (rule tour_call) (simp_all add: sim)
  moreover have "rc_act rc_limit 0 (L_Make 3) r4 r5" unfolding r5_def by (rule rc_act.Make) (simp_all add: r4 null)
  ultimately have "tour r5 ?hp (W_New2 3 1) ?k" by (rule tour_call) (simp_all add: sim)
  then have "tour r5 (?hp(10 := Some \<lparr>value1 = None, value2 = None\<rparr>)) (W_Set2 3 10 1) ?k"
    by (rule tour_local [of _ _ _ _ 10]) (simp_all add: r6 cmp_writer_local_def cmp_state0_def)
  moreover have "rc_act rc_limit 0 (L_Set 3 10) r5 r6" unfolding r6_def by (rule rc_act.Set_Object) (simp_all add: r6)
  ultimately have "tour r6 (?hp(10 := Some \<lparr>value1 = None, value2 = None\<rparr>)) (W_Release 3 10 1) ?k"
    by (rule tour_call) (simp_all add: sim)
  then show thesis using r6(3-6) unfolding w_def by (rule that)
qed

lemma tour_done:
  obtains r where "tour r ((heap cmp_state0)(9 := Some \<lparr>value1 = Some 1, value2 = Some 1\<rparr>,
      10 := Some \<lparr>value1 = None, value2 = None\<rparr>, 5 := None))
      (W_Exit 3 10) \<lparr>ops = (\<lambda>_. 0)(0 := 1), total_writer_ops = 1, total_reader_ops = 0\<rparr>"
proof -
  let ?hp = "(heap cmp_state0)(9 := Some \<lparr>value1 = Some 1, value2 = Some 1\<rparr>, 10 := Some \<lparr>value1 = None, value2 = None\<rparr>)"
  let ?k = "zero_counts\<lparr>ops := (\<lambda>_. 0)(0 := 1)\<rparr>"
  obtain r where tour: "tour r ?hp (W_Release 3 10 1) ?k" and r: "pc r = (\<lambda>_. Idle)" "holders r 1 = {#0#}"
    "inner r 1 = pack32 (- 1) INNER_F_DETACHED" "obj r 1 = 5" by (rule tour_exchanged)
  define w where "w = pack32 0 INNER_F_DETACHED"
  define r1 where "r1 = r\<lparr>inner := (inner r)(1 := w), holders := (holders r)(1 := holders r 1 - {#0#}),
    status := (if finalize_due w then (status r)(1 := Finalizing 0) else status r), pc := (pc r)(0 := after_adjust 1 w)\<rparr>"
  define r2 where "r2 = r1\<lparr>inner := (inner r1)(1 := inner r1 1 OR ucast INNER_F_FINALIZED),
    pc := (pc r1)(0 := if inner_flags (inner r1 1) AND INNER_F_FINALIZED \<noteq> 0 then Aborted else Fin_Call 1)\<rparr>"
  define r3 where "r3 = r2\<lparr>calls := (calls r2)(1 := obj r2 1 # calls r2 1), pc := (pc r2)(0 := Fin_Free 1)\<rparr>"
  define r4 where "r4 = r3\<lparr>status := (status r3)(1 := Unused), pc := (pc r3)(0 := Idle)\<rparr>"
  have null: "(1 :: u32) \<noteq> HANDLE_NULL" by (simp add: HANDLE_NULL_def)
  have w: "pack32 (- 1) INNER_F_DETACHED + INNER_CNT_INC = w" unfolding w_def by (simp add: inner_word.mk_inc)
  have due: "finalize_due w" by (simp add: w_def finalize_due_pack const_defs)
  have "INNER_F_DETACHED AND INNER_F_FINALIZED = 0" by (simp add: const_defs)
  then have r2: "pc r1 0 = Fin_Or 1" "pc r2 0 = Fin_Call 1" "obj r2 1 = 5"
    by (simp_all add: r2_def r1_def r due after_adjust_def) (simp_all add: w_def)
  have r4: "pc r4 = (\<lambda>_. Idle)" by (auto simp: r4_def r3_def r2_def r1_def r)
  note sim = cmp_writer_call_def count_call_def zero_counts_def null
  have "rc_act rc_limit 0 (L_Release 1) r r1"
    unfolding r1_def by (rule rc_act.Release) (simp_all add: r inner_word.mk_inc w_def)
  then have "tour r1 ?hp (W_Loop 3 10) ?k" by (rule tour_call [OF tour]) (simp_all add: sim)
  moreover have "rc_act rc_limit 0 L_Tau r1 r2" unfolding r2_def by (rule rc_act.Claim [OF r2(1)]) simp
  ultimately have "tour r2 ?hp (W_Loop 3 10) ?k" by (rule tour_call) (simp_all add: sim)
  moreover have "rc_act rc_limit 0 (L_Callback 1) r2 r3" unfolding r3_def by (rule rc_act.Callback [OF r2(2)])
  ultimately have "tour r3 (?hp(5 := None)) (W_Loop 3 10) ?k" by (rule tour_call) (simp_all add: sim r2)
  moreover have "rc_act rc_limit 0 L_Tau r3 r4" unfolding r4_def by (rule rc_act.Free_Slot) (simp add: r3_def)
  ultimately have "tour r4 (?hp(5 := None)) (W_Loop 3 10) ?k" by (rule tour_call) (simp_all add: sim)
  then have "tour r4 (?hp(5 := None)) (W_Add 3 10) ?k"
    by (rule tour_local [of _ _ _ _ 11 True]) (simp_all add: r4 cmp_writer_local_def cmp_state0_def)
  then have "tour r4 (?hp(5 := None)) (W_Exit 3 10) \<lparr>ops = (\<lambda>_. 0)(0 := 1), total_writer_ops = 1, total_reader_ops = 0\<rparr>"
    by (rule tour_local [of _ _ _ _ 11]) (simp_all add: r4 cmp_writer_local_def cmp_state0_def zero_counts_def)
  then show thesis by (rule that)
qed

theorem no_update_lost_witness:
  "\<exists>s k v. reach cmp_counted_start cmp_counted_step (s, k) \<and> loc s 0 = Writer (W_Exit 3 10) \<and> total_writer_ops k = 1 \<and>
     heap s (obj (lib s) (cb_handle (cbs (lib s) 0))) = Some \<lparr>value1 = Some v, value2 = Some v\<rparr> \<and> of_int v = (1 :: u64)"
proof -
  let ?k = "\<lparr>ops = (\<lambda>_. 0)(0 := 1), total_writer_ops = 1, total_reader_ops = 0\<rparr>"
  obtain r hp where "tour r hp (W_Exit 3 10) ?k" by (rule tour_done)
  then have run: "reach cmp_counted_start cmp_counted_step (\<lparr>lib = r, heap = hp, loc = (loc cmp_state0)(0 := Writer (W_Exit 3 10))\<rparr>, ?k)"
    (is "reach _ _ (?s, _)") by (simp add: tour_def)
  moreover have "\<forall>t w. loc ?s t = Writer w \<longrightarrow> w = W_Make \<or> (\<exists>nv nd. w = W_Exit nv nd)" by (auto simp: cmp_state0_def)
  from no_update_lost [OF run this] obtain v where "heap ?s (obj (lib ?s) (cb_handle (cbs (lib ?s) 0))) =
      Some \<lparr>value1 = Some v, value2 = Some v\<rparr>" "total_writer_ops ?k = of_int v" by blast
  ultimately show ?thesis by (intro exI [of _ ?s] exI [of _ ?k] exI [of _ v]) simp
qed

end
