(* ===== verification/Example_Exchange.thy ===== *)
theory Example_Exchange
  imports Example_Cmp_Exchange
begin

text \<open>
  The program \<open>microbench/bench1/exchange/atomsnap_example.cpp\<close>: writers publish the successor
  of the pair they read with an unconditional \<open>atomsnap_exchange_version\<close>, so that counters may
  repeat or go back, and readers check only that the two counters agree. The contract of
  \<open>Client_Compose\<close> is interpreted with a constant rank.
\<close>

section \<open>The program\<close>

text \<open>
  \<open>int values[2]\<close> holds the two sums, so each is reduced to 32 bits with its sign when it is
  stored. Program points of \<open>writer\<close>, with \<open>old_version\<close>, \<open>old_data\<close>, \<open>values[0]\<close>,
  \<open>values[1]\<close>, \<open>new_version\<close> and \<open>new_data\<close> where they are live.
\<close>

definition to_int32 :: "int \<Rightarrow> int" where
  "to_int32 x = signed_take_bit 31 x"

datatype ex_writer =
    E_Loop
  | E_Acquire
  | E_Get u32
  | E_Value1 u32 nat
  | E_Value2 u32 nat int
  | E_Make u32 int int
  | E_New u32 int int u32
  | E_Set u32 u32 nat
  | E_Exchange u32 u32 nat
  | E_Release u32
  | E_Exit
  | E_Overflow u32 nat
  | E_Fault

definition ex_writer_call :: "ex_writer \<Rightarrow> rc_label \<Rightarrow> ex_writer option" where
  "ex_writer_call p l = (case l of
     L_Acquire c h \<Rightarrow> (case p of E_Acquire \<Rightarrow> if c = 0 then Some (E_Get h) else None | _ \<Rightarrow> None)
   | L_Make h \<Rightarrow> (case p of E_Make ov v0 v1 \<Rightarrow> Some (E_New ov v0 v1 h) | _ \<Rightarrow> None)
   | L_Set h q \<Rightarrow> (case p of
        E_Set ov nv nd \<Rightarrow> if h = nv \<and> q = nd then Some (E_Exchange ov nv nd) else None
      | _ \<Rightarrow> None)
   | L_Exchange c n \<Rightarrow> (case p of
        E_Exchange ov nv nd \<Rightarrow> if c = 0 \<and> n = nv then Some (E_Release ov) else None
      | _ \<Rightarrow> None)
   | L_Release h \<Rightarrow> (case p of
        E_Release ov \<Rightarrow> if h = ov \<and> ov \<noteq> HANDLE_NULL then Some E_Loop else None
      | _ \<Rightarrow> None)
   | L_Callback h \<Rightarrow> Some p
   | L_Tau \<Rightarrow> Some p
   | _ \<Rightarrow> None)"

definition ex_writer_local ::
  "bool \<Rightarrow> nat \<Rightarrow> (u32 \<Rightarrow> nat) \<Rightarrow> ex_writer \<Rightarrow> (nat \<Rightarrow> snap_data option) \<Rightarrow> ex_writer \<times> (nat \<Rightarrow> snap_data option)" where
  "ex_writer_local stop a ob p hp = (case p of
     E_Loop \<Rightarrow> (if stop then E_Exit else E_Acquire, hp)
   | E_Get ov \<Rightarrow> (E_Value1 ov (get_object ob ov), hp)
   | E_Value1 ov od \<Rightarrow>
       (case fetch value1 hp od of
          Some x \<Rightarrow> (if x = INT64_MAX then E_Overflow ov od else E_Value2 ov od (to_int32 (x + 1)), hp)
        | None \<Rightarrow> (E_Fault, hp))
   | E_Value2 ov od v0 \<Rightarrow>
       (case fetch value2 hp od of
          Some x \<Rightarrow> (if x = INT64_MAX then E_Overflow ov od else E_Make ov v0 (to_int32 (x + 1)), hp)
        | None \<Rightarrow> (E_Fault, hp))
   | E_New ov v0 v1 nv \<Rightarrow> (E_Set ov nv a, hp(a := Some \<lparr>value1 = Some v0, value2 = Some v1\<rparr>))
   | _ \<Rightarrow> (p, hp))"

datatype ex_reader =
    X_Loop
  | X_Acquire
  | X_Get u32
  | X_Value1 u32 nat
  | X_Value2 u32 nat int
  | X_Release u32
  | X_Exit
  | X_Invalid_Data
  | X_Fault

definition ex_reader_call :: "ex_reader \<Rightarrow> rc_label \<Rightarrow> ex_reader option" where
  "ex_reader_call p l = (case l of
     L_Acquire c h \<Rightarrow> (case p of X_Acquire \<Rightarrow> if c = 0 then Some (X_Get h) else None | _ \<Rightarrow> None)
   | L_Release h \<Rightarrow> (case p of
        X_Release h' \<Rightarrow> if h = h' \<and> h' \<noteq> HANDLE_NULL then Some X_Loop else None
      | _ \<Rightarrow> None)
   | L_Callback h \<Rightarrow> Some p
   | L_Tau \<Rightarrow> Some p
   | _ \<Rightarrow> None)"

definition ex_reader_local ::
  "bool \<Rightarrow> nat \<Rightarrow> (u32 \<Rightarrow> nat) \<Rightarrow> ex_reader \<Rightarrow> (nat \<Rightarrow> snap_data option) \<Rightarrow> ex_reader \<times> (nat \<Rightarrow> snap_data option)" where
  "ex_reader_local stop a ob p hp = (case p of
     X_Loop \<Rightarrow> (if stop then X_Exit else X_Acquire, hp)
   | X_Get h \<Rightarrow> (X_Value1 h (get_object ob h), hp)
   | X_Value1 h d \<Rightarrow> (case fetch value1 hp d of Some x \<Rightarrow> (X_Value2 h d x, hp) | None \<Rightarrow> (X_Fault, hp))
   | X_Value2 h d x \<Rightarrow>
       (case fetch value2 hp d of
          Some y \<Rightarrow> (if x \<noteq> y then X_Invalid_Data else X_Release h, hp) | None \<Rightarrow> (X_Fault, hp))
   | _ \<Rightarrow> (p, hp))"

datatype ex_thread = Ex_Writer ex_writer | Ex_Reader ex_reader

definition ex_call :: "ex_thread \<Rightarrow> rc_label \<Rightarrow> ex_thread option" where
  "ex_call p l = (case p of
     Ex_Writer w \<Rightarrow> map_option Ex_Writer (ex_writer_call w l)
   | Ex_Reader r \<Rightarrow> map_option Ex_Reader (ex_reader_call r l))"

definition ex_local ::
  "bool \<Rightarrow> nat \<Rightarrow> (u32 \<Rightarrow> nat) \<Rightarrow> ex_thread \<Rightarrow> (nat \<Rightarrow> snap_data option) \<Rightarrow> ex_thread \<times> (nat \<Rightarrow> snap_data option)" where
  "ex_local stop a ob p hp = (case p of
     Ex_Writer w \<Rightarrow> apfst Ex_Writer (ex_writer_local stop a ob w hp)
   | Ex_Reader r \<Rightarrow> apfst Ex_Reader (ex_reader_local stop a ob r hp))"

definition ex_start :: "(snap_data, ex_thread) client_state \<Rightarrow> bool" where
  "ex_start s \<longleftrightarrow> client_start {0} initial_data {Ex_Writer E_Loop, Ex_Reader X_Loop} s"

definition ex_step :: "(snap_data, ex_thread) client_state \<Rightarrow> (snap_data, ex_thread) client_state \<Rightarrow> bool" where
  "ex_step s s' \<longleftrightarrow> client_step ex_call ex_local rc_limit s s'"

section \<open>The program keeps the discipline\<close>

fun ex_writer_view :: "ex_writer \<Rightarrow> client_view" where
  "ex_writer_view (E_Get ov) = no_view\<lparr>held := handle_opt ov\<rparr>"
| "ex_writer_view (E_Value1 ov od) = no_view\<lparr>held := handle_opt ov, ptr := Some od\<rparr>"
| "ex_writer_view (E_Value2 ov od v0) = no_view\<lparr>held := handle_opt ov, ptr := Some od\<rparr>"
| "ex_writer_view (E_Overflow ov od) = no_view\<lparr>held := handle_opt ov, ptr := Some od\<rparr>"
| "ex_writer_view (E_Make ov v0 v1) = no_view\<lparr>held := handle_opt ov\<rparr>"
| "ex_writer_view (E_New ov v0 v1 nv) = no_view\<lparr>held := handle_opt ov, made := Some nv\<rparr>"
| "ex_writer_view (E_Set ov nv nd) = no_view\<lparr>held := handle_opt ov, made := Some nv, raw := Some nd\<rparr>"
| "ex_writer_view (E_Exchange ov nv nd) = no_view\<lparr>held := handle_opt ov, made := Some nv, mine := Some nd\<rparr>"
| "ex_writer_view (E_Release ov) = no_view\<lparr>held := handle_opt ov\<rparr>"
| "ex_writer_view _ = no_view"

fun ex_reader_view :: "ex_reader \<Rightarrow> client_view" where
  "ex_reader_view (X_Get h) = no_view\<lparr>held := handle_opt h\<rparr>"
| "ex_reader_view (X_Value1 h d) = no_view\<lparr>held := handle_opt h, ptr := Some d\<rparr>"
| "ex_reader_view (X_Value2 h d x) = no_view\<lparr>held := handle_opt h, ptr := Some d\<rparr>"
| "ex_reader_view (X_Release h) = no_view\<lparr>held := handle_opt h\<rparr>"
| "ex_reader_view _ = no_view"

fun ex_writer_knows :: "ex_writer \<Rightarrow> snap_data option \<Rightarrow> snap_data option \<Rightarrow> bool" where
  "ex_writer_knows (E_Get ov) dh dn \<longleftrightarrow> ov \<noteq> HANDLE_NULL"
| "ex_writer_knows (E_Value1 ov od) dh dn \<longleftrightarrow> ov \<noteq> HANDLE_NULL"
| "ex_writer_knows (E_Value2 ov od v0) dh dn \<longleftrightarrow> ov \<noteq> HANDLE_NULL \<and>
     (\<forall>d. dh = Some d \<longrightarrow> map_option (\<lambda>x. to_int32 (x + 1)) (value1 d) = Some v0)"
| "ex_writer_knows (E_Make ov v0 v1) dh dn \<longleftrightarrow> v1 = v0"
| "ex_writer_knows (E_New ov v0 v1 nv) dh dn \<longleftrightarrow> v1 = v0"
| "ex_writer_knows (E_Set ov nv nd) dh dn \<longleftrightarrow> (\<forall>d. dn = Some d \<longrightarrow> good_data d)"
| "ex_writer_knows (E_Exchange ov nv nd) dh dn \<longleftrightarrow> (\<forall>d. dn = Some d \<longrightarrow> good_data d)"
| "ex_writer_knows _ dh dn \<longleftrightarrow> True"

fun ex_reader_knows :: "ex_reader \<Rightarrow> snap_data option \<Rightarrow> bool" where
  "ex_reader_knows (X_Get h) dh \<longleftrightarrow> h \<noteq> HANDLE_NULL"
| "ex_reader_knows (X_Value1 h d) dh \<longleftrightarrow> h \<noteq> HANDLE_NULL"
| "ex_reader_knows (X_Value2 h d x) dh \<longleftrightarrow> h \<noteq> HANDLE_NULL \<and> (\<forall>d. dh = Some d \<longrightarrow> value1 d = Some x)"
| "ex_reader_knows _ dh \<longleftrightarrow> True"

definition ex_view :: "ex_thread \<Rightarrow> client_view" where
  "ex_view p = (case p of Ex_Writer w \<Rightarrow> ex_writer_view w | Ex_Reader r \<Rightarrow> ex_reader_view r)"

definition ex_knows :: "ex_thread \<Rightarrow> snap_data option \<Rightarrow> snap_data option \<Rightarrow> bool" where
  "ex_knows p dh dn \<longleftrightarrow> (case p of Ex_Writer w \<Rightarrow> ex_writer_knows w dh dn | Ex_Reader r \<Rightarrow> ex_reader_knows r dh)"

definition ex_failed :: "ex_thread \<Rightarrow> bool" where
  "ex_failed p \<longleftrightarrow> p \<in> {Ex_Writer E_Fault, Ex_Reader X_Fault, Ex_Reader X_Invalid_Data}"

lemmas ex_call_defs = ex_call_def ex_writer_call_def ex_reader_call_def
lemmas ex_splits = rc_label.splits ex_writer.splits ex_reader.splits ex_thread.splits option.splits if_splits

lemma ex_call_view: "ex_call p l = Some p' \<Longrightarrow> view_call {0} (ex_view p) l (ex_view p')"
  by (auto simp: ex_call_defs ex_view_def no_view_def handle_opt_def split: ex_splits)

lemma ex_call_failed: "ex_call p l = Some p' \<Longrightarrow> \<not> ex_failed p \<Longrightarrow> \<not> ex_failed p'"
  by (auto simp: ex_call_defs ex_failed_def split: ex_splits)

lemma ex_exchange_ok: "ex_call p (L_Exchange c n) = Some p' \<Longrightarrow> ex_knows p dh (Some d) \<Longrightarrow> good_data d"
  by (auto simp: ex_call_defs ex_knows_def split: ex_splits)

lemma ex_no_cx: "ex_call p L_Cx_True \<noteq> Some p'"
  by (auto simp: ex_call_defs split: ex_splits)

lemma ex_call_knows:
  assumes "ex_call p l = Some p'" "ex_knows p dh dn"
    "\<forall>c h. l = L_Acquire c h \<longrightarrow> h \<noteq> HANDLE_NULL"
    "(\<forall>c h. l \<noteq> L_Acquire c h) \<and> (\<forall>h. l \<noteq> L_Release h) \<longrightarrow> dh' = dh"
    "if (\<exists>c n. l = L_Exchange c n) \<or> l = L_Cx_True then dn2 = None else dn2 = dn"
  shows "ex_knows p' dh' dn2"
proof -
  have "ex_writer_knows w' dh' dn2" if "ex_writer_call w l = Some w'" "ex_writer_knows w dh dn" for w w'
    using that assms(3-5) by (cases l) (auto simp: ex_writer_call_def split: ex_writer.splits if_splits)
  moreover have "ex_reader_knows r' dh'" if "ex_reader_call r l = Some r'" "ex_reader_knows r dh" for r r'
    using that assms(3,4) by (cases l) (auto simp: ex_reader_call_def split: ex_reader.splits if_splits)
  ultimately show ?thesis
    using assms(1,2) by (auto simp: ex_call_def ex_knows_def split: ex_thread.splits)
qed

lemma ex_writer_local_ok:
  assumes step: "ex_writer_local stop a ob p hp = (p', hp')" and p: "p \<noteq> E_Fault"
    and k: "ex_writer_knows p (held_data ob (ex_writer_view p) hp) (own_data (ex_writer_view p) hp)"
    and fresh: "hp a = None"
    and held: "\<And>h. held (ex_writer_view p) = Some h \<Longrightarrow> \<exists>d. hp (ob h) = Some d \<and> good_data d"
    and ptr: "\<And>q. ptr (ex_writer_view p) = Some q \<Longrightarrow> \<exists>h. held (ex_writer_view p) = Some h \<and> q = ob h"
  shows "view_local a ob (ex_writer_view p) hp (ex_writer_view p') hp' \<and>
    ex_writer_knows p' (held_data ob (ex_writer_view p') hp') (own_data (ex_writer_view p') hp') \<and> p' \<noteq> E_Fault"
proof (cases "\<exists>ov od v0. p \<in> {E_Value1 ov od, E_Value2 ov od v0}")
  case True
  then obtain ov od v0 where p': "p \<in> {E_Value1 ov od, E_Value2 ov od v0}" by blast
  with k have ov: "ov \<noteq> HANDLE_NULL" "held (ex_writer_view p) = Some ov" by (auto simp: handle_opt_def no_view_def)
  from p' ptr [of od] ov(2) have od: "od = ob ov" by (auto simp: no_view_def)
  obtain d where d: "hp (ob ov) = Some d" "good_data d" using held [OF ov(2)] by blast
  then obtain x where "value1 d = Some x" "value2 d = Some x" by (auto simp: good_data_def)
  with p' step k ov od d show ?thesis
    by (auto simp: ex_writer_local_def cmp_local_defs split: if_splits)
next
  case False
  with step p k fresh ptr show ?thesis
    by (cases p) (auto simp: ex_writer_local_def cmp_local_defs good_data_def split: if_splits)
qed

lemma ex_reader_local_ok:
  assumes step: "ex_reader_local stop a ob p hp = (p', hp')" and p: "p \<notin> {X_Fault, X_Invalid_Data}"
    and k: "ex_reader_knows p (held_data ob (ex_reader_view p) hp)"
    and held: "\<And>h. held (ex_reader_view p) = Some h \<Longrightarrow> \<exists>d. hp (ob h) = Some d \<and> good_data d"
    and ptr: "\<And>q. ptr (ex_reader_view p) = Some q \<Longrightarrow> \<exists>h. held (ex_reader_view p) = Some h \<and> q = ob h"
  shows "view_local a ob (ex_reader_view p) hp (ex_reader_view p') hp' \<and>
    ex_reader_knows p' (held_data ob (ex_reader_view p') hp') \<and> p' \<notin> {X_Fault, X_Invalid_Data}"
proof (cases "\<exists>h d x. p \<in> {X_Value1 h d, X_Value2 h d x}")
  case True
  then obtain h q x where p': "p \<in> {X_Value1 h q, X_Value2 h q x}" by blast
  with k have h: "h \<noteq> HANDLE_NULL" "held (ex_reader_view p) = Some h" by (auto simp: handle_opt_def no_view_def)
  from p' ptr [of q] h(2) have q: "q = ob h" by (auto simp: no_view_def)
  obtain d where d: "hp (ob h) = Some d" "good_data d" using held [OF h(2)] by blast
  then obtain y where "value1 d = Some y" "value2 d = Some y" by (auto simp: good_data_def)
  with p' step k h q d show ?thesis
    by (auto simp: ex_reader_local_def cmp_local_defs split: if_splits)
next
  case False
  with step p k ptr show ?thesis
    by (cases p) (auto simp: ex_reader_local_def cmp_local_defs split: if_splits)
qed

lemma ex_start_simps [simp]:
  "ex_view (Ex_Writer E_Loop) = no_view" "ex_view (Ex_Reader X_Loop) = no_view"
  "\<not> ex_failed (Ex_Writer E_Loop)" "\<not> ex_failed (Ex_Reader X_Loop)"
  "ex_knows (Ex_Writer E_Loop) dh dn" "ex_knows (Ex_Reader X_Loop) dh dn"
  by (simp_all add: ex_view_def ex_failed_def ex_knows_def)

interpretation ex_program: snapshot_client ex_call ex_local "{0}" ex_view ex_knows good_data "\<lambda>_. 0" "\<lambda>_. 0"
  ex_failed initial_data "{Ex_Writer E_Loop, Ex_Reader X_Loop}"
proof
  fix stop a ob p hp p' hp'
  assume "ex_local stop a ob p hp = (p', hp')" "\<not> ex_failed p" "hp a = None"
    "ex_knows p (held_data ob (ex_view p) hp) (own_data (ex_view p) hp)"
    "\<And>h. held (ex_view p) = Some h \<Longrightarrow> \<exists>d. hp (ob h) = Some d \<and> good_data d \<and> (0 :: int) \<le> 0"
    "\<And>q. ptr (ex_view p) = Some q \<Longrightarrow> \<exists>h. held (ex_view p) = Some h \<and> q = ob h"
  note a = this
  show "view_local a ob (ex_view p) hp (ex_view p') hp' \<and>
      ex_knows p' (held_data ob (ex_view p') hp') (own_data (ex_view p') hp') \<and> \<not> ex_failed p' \<and>
      ((0 :: int) \<le> 0 \<or> (\<exists>d. held_data ob (ex_view p) hp = Some d \<and> (0 :: int) \<le> 0))"
  proof (cases p)
    case (Ex_Writer w)
    with a(1) obtain w' where w: "p' = Ex_Writer w'" "ex_writer_local stop a ob w hp = (w', hp')"
      by (cases "ex_writer_local stop a ob w hp") (auto simp: ex_local_def)
    from ex_writer_local_ok [OF w(2)] a(2-) Ex_Writer w(1) show ?thesis
      by (auto simp: ex_view_def ex_knows_def ex_failed_def)
  next
    case (Ex_Reader r)
    with a(1) obtain r' where r: "p' = Ex_Reader r'" "ex_reader_local stop a ob r hp = (r', hp')"
      by (cases "ex_reader_local stop a ob r hp") (auto simp: ex_local_def)
    from ex_reader_local_ok [OF r(2)] a(2-) Ex_Reader r(1) show ?thesis
      by (auto simp: ex_view_def ex_knows_def ex_failed_def)
  qed
next
  fix p l p' dh dn dh' dn2
  assume "ex_call p l = Some p'" "ex_knows p dh dn"
    "\<forall>c h. l = L_Acquire c h \<longrightarrow> h \<noteq> HANDLE_NULL \<and> dh = None \<and> (\<exists>d. dh' = Some d \<and> good_data d)"
    "(\<forall>c h. l \<noteq> L_Acquire c h) \<and> (\<forall>h. l \<noteq> L_Release h) \<longrightarrow> dh' = dh"
    "if (\<exists>c n. l = L_Exchange c n) \<or> l = L_Cx_True then dn2 = None else dn2 = dn"
  then show "ex_knows p' dh' dn2" using ex_call_knows by blast
qed (use ex_call_view ex_call_failed ex_exchange_ok ex_no_cx in \<open>auto simp: initial_data_def good_data_def\<close>)

section \<open>Correctness\<close>

definition ex_resting :: "ex_thread \<Rightarrow> bool" where
  "ex_resting p \<longleftrightarrow> p \<in> {Ex_Writer E_Loop, Ex_Writer E_Exit, Ex_Reader X_Loop, Ex_Reader X_Exit}"

lemma ex_resting_view: "ex_resting p \<Longrightarrow> ex_view p = no_view"
  by (auto simp: ex_resting_def ex_view_def)

text \<open>
  Claim C13. In every execution of the exchange program no reader finds two counters that differ,
  and no thread reads an object that was deleted, although exchanges by concurrent writers may
  overwrite each other. Whenever no call is under way and every thread is between two rounds of
  its loop or has left it, all objects but the published one have been deleted.
\<close>

theorem exchange_example_correct:
  assumes "reach ex_start ex_step s"
  shows "loc s t \<notin> {Ex_Writer E_Fault, Ex_Reader X_Fault, Ex_Reader X_Invalid_Data} \<and>
    ((\<forall>u. pc (lib s) u = Idle \<and> ex_resting (loc s u)) \<longrightarrow>
       {q. heap s q \<noteq> None} = {obj (lib s) (cb_handle (cbs (lib s) 0))})"
proof -
  have "ex_start = client_start {0} initial_data {Ex_Writer E_Loop, Ex_Reader X_Loop}"
    "ex_step = client_step ex_call ex_local rc_limit"
    by (intro ext; simp add: ex_start_def ex_step_def)+
  with assms have run: "reach (client_start {0} initial_data {Ex_Writer E_Loop, Ex_Reader X_Loop})
      (client_step ex_call ex_local rc_limit) s" by simp
  have "{q. heap s q \<noteq> None} = {obj (lib s) (cb_handle (cbs (lib s) 0))}"
    if "\<forall>u. pc (lib s) u = Idle \<and> ex_resting (loc s u)"
    using ex_program.rest_heap [OF run] ex_resting_view that by (simp add: no_view_def data_def del: cb_handle_lo)
  with ex_program.never_fails [OF run, of t] show ?thesis by (auto simp: ex_failed_def)
qed

definition ex_state0 :: "(snap_data, ex_thread) client_state" where
  "ex_state0 = \<lparr>lib = main_lib, heap = (\<lambda>_. None)(5 := Some \<lparr>value1 = Some 0, value2 = Some 0\<rparr>),
     loc = (\<lambda>t. if t = 0 then Ex_Reader X_Loop else Ex_Writer E_Loop)\<rparr>"

definition ex_state1 :: "(snap_data, ex_thread) client_state" where
  "ex_state1 = ex_state0\<lparr>heap := heap ex_state0, loc := (loc ex_state0)(1 := Ex_Writer E_Acquire)\<rparr>"

definition ex_state2 :: "(snap_data, ex_thread) client_state" where
  "ex_state2 = ex_state1\<lparr>lib := read_lib, heap := heap ex_state1, loc := (loc ex_state1)(1 := Ex_Writer (E_Get 1))\<rparr>"

lemma ex_state0_start: "ex_start ex_state0"
  using main_lib_reach
  by (auto simp: ex_start_def client_start_def ex_state0_def main_lib_fields initial_data_def
      run_words inj_on_def split: if_splits)

lemma ex_state2_reach: "reach ex_start ex_step ex_state2"
proof -
  note ex_state0_start
  moreover have "ex_step ex_state0 ex_state1"
    unfolding ex_step_def ex_state1_def
    by (rule client_step.Local [where a = 9 and stop = False])
      (simp_all add: ex_state0_def main_lib_fields ex_local_def ex_writer_local_def)
  moreover have "ex_step ex_state1 ex_state2"
    using client_step.Call [of rc_limit 1 "L_Acquire 0 1" ex_state1 read_lib ex_call "Ex_Writer (E_Get 1)" ex_local]
      read_lib_act
    by (simp add: ex_step_def ex_state2_def ex_state1_def ex_state0_def ex_call_def ex_writer_call_def)
  ultimately show ?thesis by (meson reach_init reach_step)
qed

theorem exchange_example_correct_witness:
  "loc ex_state2 1 = Ex_Writer (E_Get 1) \<and> loc ex_state2 1 \<noteq> Ex_Writer E_Fault \<and> {q. heap ex_state0 q \<noteq> None} = {5}"
proof -
  have "\<forall>u. pc (lib ex_state0) u = Idle \<and> ex_resting (loc ex_state0 u)"
    by (simp add: ex_state0_def main_lib_fields ex_resting_def)
  with exchange_example_correct [OF reach_init [where init = ex_start, OF ex_state0_start]]
  have "{q. heap ex_state0 q \<noteq> None} = {obj (lib ex_state0) (cb_handle (cbs (lib ex_state0) 0))}" by blast
  also have "\<dots> = {5}" by (simp add: ex_state0_def main_lib_fields)
  finally show ?thesis using exchange_example_correct [OF ex_state2_reach, of 1] by (simp add: ex_state2_def)
qed

end
