(* ===== verification/Bench_Config.thy ===== *)
theory Bench_Config
  imports Prelude
begin

text \<open>
  The command line of \<open>microbench/bench2/bench_all.cpp\<close>: \<open>Config\<close>, the number parsers and
  \<open>parse_args\<close>. Strings are C strings without their terminating NUL, so that reading the
  character after the end yields one that is different from \<open>'='\<close>. The library functions
  \<open>strtoull\<close> and \<open>atoi\<close> are written out for base 10 and 64-bit \<open>long\<close>.
\<close>

section \<open>Numbers\<close>

definition is_space :: "char \<Rightarrow> bool" where
  "is_space c \<longleftrightarrow> of_char c = (32 :: nat) \<or> of_char c \<in> {9 :: nat .. 13}"

definition is_digit :: "char \<Rightarrow> bool" where
  "is_digit c \<longleftrightarrow> of_char c \<in> {48 :: nat .. 57}"

definition digits_value :: "string \<Rightarrow> nat" where
  "digits_value ds = foldl (\<lambda>n c. n * 10 + (of_char c - 48)) 0 ds"

text \<open>White space, an optional sign and the longest run of digits: the sign and the magnitude.\<close>

definition scan_int :: "string \<Rightarrow> bool \<times> nat" where
  "scan_int v =
     (let s = dropWhile is_space v;
          neg = (s \<noteq> [] \<and> hd s = CHR ''-'');
          body = (if s \<noteq> [] \<and> (hd s = CHR ''-'' \<or> hd s = CHR ''+'') then tl s else s)
      in (neg, digits_value (takeWhile is_digit body)))"

definition strtoull :: "string \<Rightarrow> u64" where
  "strtoull v = (let (neg, n) = scan_int v in
     if n \<ge> 2 ^ 64 then - 1 else if neg then - of_nat n else of_nat n)"

definition strtol :: "string \<Rightarrow> int" where
  "strtol v = (let (neg, n) = scan_int v in
     if neg then max (- (2 ^ 63)) (- int n) else min (2 ^ 63 - 1) (int n))"

definition parse_u64 :: "string \<Rightarrow> u64" where
  "parse_u64 v = strtoull v"

definition parse_sz :: "string \<Rightarrow> u64" where
  "parse_sz v = strtoull v"

text \<open>\<open>atoi\<close> converts the result of \<open>strtol\<close> to \<open>int\<close>, which keeps the low 32 bits.\<close>

definition parse_i :: "string \<Rightarrow> int" where
  "parse_i v = signed_take_bit 31 (strtol v)"

section \<open>Configurations\<close>

record Config =
  backend :: string
  reclaim :: string
  cfg_readers :: int
  cfg_writers :: int
  duration_sec :: int
  shards :: int
  pin :: bool
  pin_base :: int
  cs_ns :: u64
  payload_bytes :: u64
  updates_per_sec :: u64
  sync_batch :: u32
  sample_pow2 :: u32
  csv :: bool

definition default_Config :: Config where
  "default_Config =
     \<lparr>backend = ''urcu'', reclaim = ''async'', cfg_readers = 1, cfg_writers = 1, duration_sec = 5,
      shards = 1, pin = False, pin_base = 0, cs_ns = 0, payload_bytes = 0, updates_per_sec = 0,
      sync_batch = 1024, sample_pow2 = 0, csv = False\<rparr>"

definition starts_with :: "string \<Rightarrow> string \<Rightarrow> bool" where
  "starts_with s p \<longleftrightarrow> take (length p) s = p"

definition getv :: "string \<Rightarrow> string \<Rightarrow> string option" where
  "getv a k =
     (let n = length k in
      if \<not> starts_with a k then None
      else if \<not> (n < length a \<and> a ! n = CHR ''='') then None
      else Some (drop (n + 1) a))"

text \<open>The options in the order in which they are tried, with what each does to the configuration.\<close>

definition options :: "(string \<times> (string \<Rightarrow> Config \<Rightarrow> Config)) list" where
  "options =
     [(''--backend'', \<lambda>v c. c\<lparr>backend := v\<rparr>),
      (''--reclaim'', \<lambda>v c. c\<lparr>reclaim := v\<rparr>),
      (''--readers'', \<lambda>v c. c\<lparr>cfg_readers := parse_i v\<rparr>),
      (''--writers'', \<lambda>v c. c\<lparr>cfg_writers := parse_i v\<rparr>),
      (''--duration'', \<lambda>v c. c\<lparr>duration_sec := parse_i v\<rparr>),
      (''--cs-ns'', \<lambda>v c. c\<lparr>cs_ns := parse_u64 v\<rparr>),
      (''--payload'', \<lambda>v c. c\<lparr>payload_bytes := parse_sz v\<rparr>),
      (''--updates-per-sec'', \<lambda>v c. c\<lparr>updates_per_sec := parse_u64 v\<rparr>),
      (''--sync-batch'', \<lambda>v c. c\<lparr>sync_batch := ucast (parse_u64 v)\<rparr>),
      (''--shards'', \<lambda>v c. c\<lparr>shards := parse_i v\<rparr>),
      (''--pin'', \<lambda>v c. c\<lparr>pin := (parse_i v \<noteq> 0)\<rparr>),
      (''--pin-base-cpu'', \<lambda>v c. c\<lparr>pin_base := parse_i v\<rparr>),
      (''--sample-pow2'', \<lambda>v c. c\<lparr>sample_pow2 := ucast (parse_u64 v)\<rparr>),
      (''--csv'', \<lambda>v c. c\<lparr>csv := (parse_i v \<noteq> 0)\<rparr>)]"

fun try_options :: "(string \<times> (string \<Rightarrow> Config \<Rightarrow> Config)) list \<Rightarrow> string \<Rightarrow> Config \<Rightarrow> Config option" where
  "try_options [] a c = None"
| "try_options ((k, f) # os) a c =
     (case getv a k of Some v \<Rightarrow> Some (f v c) | None \<Rightarrow> try_options os a c)"

definition config_ok :: "Config \<Rightarrow> bool" where
  "config_ok c \<longleftrightarrow>
     (if cfg_readers c \<le> 0 \<or> cfg_writers c \<le> 0 \<or> duration_sec c \<le> 0 then False
      else if shards c \<le> 0 then False
      else if backend c \<noteq> ''urcu'' \<and> backend c \<noteq> ''atomsnap'' then False
      else if backend c = ''urcu'' \<and> reclaim c \<noteq> ''async'' \<and> reclaim c \<noteq> ''sync-batch'' then False
      else True)"

text \<open>\<open>parse_args\<close> on the arguments after the program's name: the answer and the configuration.\<close>

fun parse_args :: "string list \<Rightarrow> Config \<Rightarrow> bool \<times> Config" where
  "parse_args [] c = (config_ok c, c)"
| "parse_args (a # as) c =
     (case try_options options a c of None \<Rightarrow> (False, c) | Some c' \<Rightarrow> parse_args as c')"

section \<open>Printing a configuration\<close>

text \<open>The arguments that describe a configuration, in the form \<open>usage\<close> documents.\<close>

fun show_nat :: "nat \<Rightarrow> string" where
  "show_nat n = (if n < 10 then [char_of (48 + n)] else show_nat (n div 10) @ [char_of (48 + n mod 10)])"

declare show_nat.simps [simp del]

definition show_int :: "int \<Rightarrow> string" where
  "show_int i = (if i < 0 then CHR ''-'' # show_nat (nat (- i)) else show_nat (nat i))"

definition show_args :: "Config \<Rightarrow> string list" where
  "show_args c =
     [''--backend='' @ backend c, ''--reclaim='' @ reclaim c,
      ''--readers='' @ show_int (cfg_readers c), ''--writers='' @ show_int (cfg_writers c),
      ''--duration='' @ show_int (duration_sec c), ''--cs-ns='' @ show_nat (unat (cs_ns c)),
      ''--payload='' @ show_nat (unat (payload_bytes c)),
      ''--updates-per-sec='' @ show_nat (unat (updates_per_sec c)),
      ''--shards='' @ show_int (shards c),
      ''--sync-batch='' @ show_nat (unat (sync_batch c)),
      ''--pin='' @ show_nat (if pin c then 1 else 0), ''--pin-base-cpu='' @ show_int (pin_base c),
      ''--sample-pow2='' @ show_nat (unat (sample_pow2 c)), ''--csv='' @ show_nat (if csv c then 1 else 0)]"

section \<open>Lemmas\<close>

lemma of_char_digit: "n < 10 \<Longrightarrow> of_char (char_of (48 + n :: nat)) = (48 + n :: nat)"
  by (simp add: of_char_of)

lemma show_nat_digits: "\<forall>c \<in> set (show_nat n). is_digit c"
  by (induction n rule: show_nat.induct) (subst show_nat.simps, auto simp: is_digit_def of_char_digit)

lemma show_nat_Nil: "show_nat n \<noteq> []"
  by (subst show_nat.simps) simp

lemma digits_value_snoc: "digits_value (ds @ [c]) = digits_value ds * 10 + (of_char c - 48)"
  by (simp add: digits_value_def)

lemma digits_value_show_nat: "digits_value (show_nat n) = n"
proof (induction n rule: show_nat.induct)
  case (1 n)
  then show ?case
    by (cases "n < 10") (subst show_nat.simps, simp add: digits_value_snoc of_char_digit digits_value_def)+
qed

lemma digit_not_space: "is_digit c \<Longrightarrow> \<not> is_space c"
  by (auto simp: is_digit_def is_space_def)

lemma digit_not_sign: "is_digit c \<Longrightarrow> c \<noteq> CHR ''-'' \<and> c \<noteq> CHR ''+''"
  by (auto simp: is_digit_def)

lemma takeWhile_show_nat: "takeWhile is_digit (show_nat n) = show_nat n"
  using show_nat_digits by (simp add: takeWhile_eq_all_conv)

lemma scan_show_nat: "scan_int (show_nat n) = (False, n)"
proof -
  obtain c s where cs: "show_nat n = c # s" using show_nat_Nil [of n] by (cases "show_nat n") auto
  then have d: "is_digit c" using show_nat_digits [of n] by simp
  then have "dropWhile is_space (show_nat n) = show_nat n" "hd (show_nat n) = c"
    using cs digit_not_space by simp_all
  then show ?thesis
    using digit_not_sign [OF d]
    by (simp add: scan_int_def show_nat_Nil takeWhile_show_nat digits_value_show_nat)
qed

lemma scan_show_int: "scan_int (show_int i) = (i < 0, nat \<bar>i\<bar>)"
  by (auto simp: show_int_def scan_show_nat)
    (simp add: scan_int_def is_space_def takeWhile_show_nat digits_value_show_nat)

lemma parse_u64_show: "parse_u64 (show_nat (unat w)) = w"
proof -
  have "unat w < 2 ^ 64" using unsigned_less [of w] by simp
  then show ?thesis by (simp add: parse_u64_def strtoull_def scan_show_nat)
qed

lemma parse_sz_show: "parse_sz (show_nat (unat w)) = w"
  using parse_u64_show by (simp add: parse_u64_def parse_sz_def)

lemma ucast_ucast_u32: "ucast (ucast w :: u64) = (w :: u32)"
  by (rule bit_eqI) (auto simp: bit_simps)

lemma parse_u64_show_u32: "ucast (parse_u64 (show_nat (unat (w :: u32)))) = w"
proof -
  have "unat w < 2 ^ 32" using unsigned_less [of w] by simp
  then show ?thesis by (simp add: parse_u64_def strtoull_def scan_show_nat unsigned_of_nat take_bit_nat_eq_self ucast_ucast_u32)
qed

definition int32_range :: "int \<Rightarrow> bool" where
  "int32_range i \<longleftrightarrow> - (2 ^ 31) \<le> i \<and> i < 2 ^ 31"

lemma parse_i_show: "int32_range i \<Longrightarrow> parse_i (show_int i) = i"
  by (auto simp: parse_i_def strtol_def scan_show_int int32_range_def signed_take_bit_int_eq_self)

lemma parse_i_flag: "(parse_i (show_nat (if b then 1 else 0)) \<noteq> 0) = b"
  by (auto simp: parse_i_def strtol_def scan_show_nat)

lemma getv_iff: "getv a k = Some v \<longleftrightarrow> a = k @ ''='' @ v"
proof
  assume "getv a k = Some v"
  then have "take (length k) a = k" "length k < length a" "a ! length k = CHR ''=''" "v = drop (length k + 1) a"
    by (auto simp: getv_def starts_with_def Let_def split: if_splits)
  then show "a = k @ ''='' @ v"
    by (metis append_Cons append_Nil append_take_drop_id id_take_nth_drop Suc_eq_plus1 append_assoc)
next
  assume "a = k @ ''='' @ v"
  then show "getv a k = Some v" by (simp add: getv_def starts_with_def Let_def)
qed

lemma getv_None: "getv a k = None \<longleftrightarrow> (\<forall>v. a \<noteq> k @ ''='' @ v)"
  by (metis getv_iff not_Some_eq)

lemma try_options_iff:
  "try_options os a c \<noteq> None \<longleftrightarrow> (\<exists>k v. k \<in> fst ` set os \<and> a = k @ ''='' @ v)"
proof (induction os)
  case (Cons x os)
  obtain k f where x: "x = (k, f)" by (cases x)
  show ?case
    using Cons getv_iff [of a k] getv_None [of a k] by (auto simp: x split: option.splits)
qed simp

lemma try_options_show:
  "try_options options (''--backend='' @ v) c = Some (c\<lparr>backend := v\<rparr>)"
  "try_options options (''--reclaim='' @ v) c = Some (c\<lparr>reclaim := v\<rparr>)"
  "try_options options (''--readers='' @ v) c = Some (c\<lparr>cfg_readers := parse_i v\<rparr>)"
  "try_options options (''--writers='' @ v) c = Some (c\<lparr>cfg_writers := parse_i v\<rparr>)"
  "try_options options (''--duration='' @ v) c = Some (c\<lparr>duration_sec := parse_i v\<rparr>)"
  "try_options options (''--cs-ns='' @ v) c = Some (c\<lparr>cs_ns := parse_u64 v\<rparr>)"
  "try_options options (''--payload='' @ v) c = Some (c\<lparr>payload_bytes := parse_sz v\<rparr>)"
  "try_options options (''--updates-per-sec='' @ v) c = Some (c\<lparr>updates_per_sec := parse_u64 v\<rparr>)"
  "try_options options (''--sync-batch='' @ v) c = Some (c\<lparr>sync_batch := ucast (parse_u64 v)\<rparr>)"
  "try_options options (''--shards='' @ v) c = Some (c\<lparr>shards := parse_i v\<rparr>)"
  "try_options options (''--pin='' @ v) c = Some (c\<lparr>pin := (parse_i v \<noteq> 0)\<rparr>)"
  "try_options options (''--pin-base-cpu='' @ v) c = Some (c\<lparr>pin_base := parse_i v\<rparr>)"
  "try_options options (''--sample-pow2='' @ v) c = Some (c\<lparr>sample_pow2 := ucast (parse_u64 v)\<rparr>)"
  "try_options options (''--csv='' @ v) c = Some (c\<lparr>csv := (parse_i v \<noteq> 0)\<rparr>)"
  by (simp_all add: options_def getv_def starts_with_def)

section \<open>Properties\<close>

text \<open>
  Claim C35. Every valid configuration can be given on the command line: printed in the documented
  form and parsed over any configuration, it comes back unchanged and is accepted.
\<close>

theorem parse_args_roundtrip:
  assumes "config_ok c" "int32_range (cfg_readers c)" "int32_range (cfg_writers c)" "int32_range (duration_sec c)"
    "int32_range (shards c)" "int32_range (pin_base c)"
  shows "parse_args (show_args c) c0 = (True, c)"
proof -
  have all: "c0\<lparr>backend := backend c, reclaim := reclaim c, cfg_readers := cfg_readers c, cfg_writers := cfg_writers c,
      duration_sec := duration_sec c, cs_ns := cs_ns c, payload_bytes := payload_bytes c,
      updates_per_sec := updates_per_sec c, shards := shards c, sync_batch := sync_batch c, pin := pin c,
      pin_base := pin_base c, sample_pow2 := sample_pow2 c, csv := csv c\<rparr> = c" by simp
  show ?thesis
    using assms
    by (simp only: show_args_def parse_args.simps try_options_show option.case parse_i_show parse_u64_show parse_sz_show
        parse_u64_show_u32 parse_i_flag all)
qed

definition sample_Config :: Config where
  "sample_Config = default_Config\<lparr>backend := ''atomsnap'', cfg_readers := 16, pin := True, pin_base := - 1,
     payload_bytes := 4096\<rparr>"

theorem parse_args_roundtrip_witness: "parse_args (show_args sample_Config) default_Config = (True, sample_Config)"
  by (rule parse_args_roundtrip) (simp_all add: sample_Config_def default_Config_def config_ok_def int32_range_def)

text \<open>The members of type \<open>int\<close> hold values of that type; the others are words of their width.\<close>

definition config_typed :: "Config \<Rightarrow> bool" where
  "config_typed c \<longleftrightarrow> int32_range (cfg_readers c) \<and> int32_range (cfg_writers c) \<and> int32_range (duration_sec c) \<and>
     int32_range (shards c) \<and> int32_range (pin_base c)"

lemma parse_i_range: "int32_range (parse_i v)"
  using signed_take_bit_int_greater_eq_minus_exp [of 31 "strtol v"] signed_take_bit_int_less_exp [of 31 "strtol v"]
  by (simp add: parse_i_def int32_range_def)

lemma options_typed: "(k, f) \<in> set options \<Longrightarrow> config_typed c \<Longrightarrow> config_typed (f v c)"
  by (auto simp: options_def config_typed_def parse_i_range)

lemma try_options_typed:
  "try_options os a c = Some c' \<Longrightarrow> set os \<subseteq> set options \<Longrightarrow> config_typed c \<Longrightarrow> config_typed c'"
  by (induction os a c rule: try_options.induct) (auto split: option.splits intro: options_typed)

text \<open>
  Claim C38. Whatever the arguments, \<open>parse_args\<close> leaves values of type \<open>int\<close> in the members of that
  type, and in a configuration it accepts the counts of readers, writers and shards and the
  duration are between 1 and 2^31 - 1.
\<close>

theorem parse_args_typed:
  "config_typed (snd (parse_args args default_Config)) \<and>
   (fst (parse_args args default_Config) \<longrightarrow>
      (\<forall>f\<in>{cfg_readers, cfg_writers, duration_sec, shards}. f (snd (parse_args args default_Config)) \<in> {1..2 ^ 31 - 1}))"
proof -
  have typed: "config_typed (snd (parse_args args c))" if "config_typed c" for c
    using that by (induction args arbitrary: c) (auto split: option.splits dest: try_options_typed)
  have ok: "config_ok (snd (parse_args args c))" if "fst (parse_args args c)" for c
    using that by (induction args arbitrary: c) (auto split: option.splits)
  have "config_typed default_Config"
    by (simp add: config_typed_def default_Config_def int32_range_def)
  note t = typed [OF this]
  have "f (snd (parse_args args default_Config)) \<in> {1..2 ^ 31 - 1}"
    if "fst (parse_args args default_Config)" "f \<in> {cfg_readers, cfg_writers, duration_sec, shards}" for f
    using ok [OF that(1)] that(2) t by (auto simp: config_ok_def config_typed_def int32_range_def split: if_splits)
  with t show ?thesis by blast
qed

theorem parse_args_typed_witness:
  "fst (parse_args [''--readers=4294967299''] default_Config) \<and>
   cfg_readers (snd (parse_args [''--readers=4294967299''] default_Config)) \<in> {1..2 ^ 31 - 1}"
proof -
  have "fst (parse_args [''--readers=4294967299''] default_Config)"
    using try_options_show(3) [of "''4294967299''"]
    by (simp add: parse_i_def strtol_def scan_int_def is_space_def is_digit_def digits_value_def config_ok_def default_Config_def)
  with parse_args_typed [of "[''--readers=4294967299'']"] show ?thesis by blast
qed

text \<open>
  \<open>parse_args\<close> accepts exactly the command lines all of whose arguments have the form
  of a known option with a value and whose resulting configuration is valid.
\<close>

theorem parse_args_accepts:
  "fst (parse_args args c) \<longleftrightarrow>
     (\<forall>a \<in> set args. \<exists>k v. k \<in> fst ` set options \<and> a = k @ ''='' @ v) \<and> config_ok (snd (parse_args args c))"
proof (induction args arbitrary: c)
  case (Cons a as)
  show ?case
  proof (cases "try_options options a c")
    case None
    with try_options_iff [of options a c] show ?thesis by auto
  next
    case (Some c')
    with try_options_iff [of options a c] Cons [of c'] show ?thesis by auto
  qed
qed simp

end
