(* ===== verification/Bench_Stats.thy ===== *)
theory Bench_Stats
  imports Prelude Complex_Main
begin

text \<open>
  The measuring parts of the second benchmark: \<open>LatencyStats\<close>, the sampling of readers, the
  pacing of writers and \<open>payload_touch\<close> of \<open>bench_all.cpp\<close>, and \<open>CsBurner\<close> of
  \<open>bench_common.hpp\<close>. Clocks are inputs of the definitions.
\<close>

section \<open>Latency statistics\<close>

text \<open>
  \<open>LatencyStats\<close> is shared by all readers, so \<open>add\<close> is modelled by its atomic operations:
  \<open>A_Sum\<close>, \<open>A_Load\<close> and \<open>A_Cas\<close> are the points before the addition to \<open>sum_ns\<close>, before the
  load of \<open>max_ns\<close> and in the loop with the value last seen. The history variable \<open>added\<close> lists
  the values for which \<open>add\<close> was called.
\<close>

datatype add_pc = A_Idle | A_Sum u64 | A_Load u64 | A_Cas u64 u64

record latency_stats =
  samples :: u64
  sum_ns :: u64
  max_ns :: u64
  apc :: "nat \<Rightarrow> add_pc"
  added :: "u64 list"

definition LatencyStats :: latency_stats where
  "LatencyStats = \<lparr>samples = 0, sum_ns = 0, max_ns = 0, apc = (\<lambda>_. A_Idle), added = []\<rparr>"

inductive add_step :: "nat \<Rightarrow> latency_stats \<Rightarrow> latency_stats \<Rightarrow> bool" for threads :: nat where
  Begin:
    "t < threads \<Longrightarrow> apc s t = A_Idle \<Longrightarrow>
     add_step threads s (s\<lparr>samples := samples s + 1, apc := (apc s)(t := A_Sum ns), added := ns # added s\<rparr>)"
| Sum:
    "t < threads \<Longrightarrow> apc s t = A_Sum ns \<Longrightarrow>
     add_step threads s (s\<lparr>sum_ns := sum_ns s + ns, apc := (apc s)(t := A_Load ns)\<rparr>)"
| Load:
    "t < threads \<Longrightarrow> apc s t = A_Load ns \<Longrightarrow>
     add_step threads s (s\<lparr>apc := (apc s)(t := A_Cas ns (max_ns s))\<rparr>)"
| Not_Greater:
    "t < threads \<Longrightarrow> apc s t = A_Cas ns cur \<Longrightarrow> \<not> ns > cur \<Longrightarrow>
     add_step threads s (s\<lparr>apc := (apc s)(t := A_Idle)\<rparr>)"
| Cas_Fail:
    "t < threads \<Longrightarrow> apc s t = A_Cas ns cur \<Longrightarrow> ns > cur \<Longrightarrow>
     add_step threads s (s\<lparr>apc := (apc s)(t := A_Cas ns (max_ns s))\<rparr>)"
| Cas_Ok:
    "t < threads \<Longrightarrow> apc s t = A_Cas ns cur \<Longrightarrow> ns > cur \<Longrightarrow> max_ns s = cur \<Longrightarrow>
     add_step threads s (s\<lparr>max_ns := ns, apc := (apc s)(t := A_Idle)\<rparr>)"

fun unsummed :: "add_pc \<Rightarrow> u64" where
  "unsummed (A_Sum ns) = ns"
| "unsummed _ = 0"

fun adding :: "u64 \<Rightarrow> add_pc \<Rightarrow> bool" where
  "adding v A_Idle \<longleftrightarrow> False"
| "adding v (A_Sum ns) \<longleftrightarrow> ns = v"
| "adding v (A_Load ns) \<longleftrightarrow> ns = v"
| "adding v (A_Cas ns cur) \<longleftrightarrow> ns = v"

definition stats_inv :: "nat \<Rightarrow> latency_stats \<Rightarrow> bool" where
  "stats_inv threads s \<longleftrightarrow>
     samples s = of_nat (length (added s)) \<and>
     sum_list (added s) = sum_ns s + (\<Sum>t<threads. unsummed (apc s t)) \<and>
     (\<forall>v \<in> set (added s). v \<le> max_ns s \<or> (\<exists>t<threads. adding v (apc s t))) \<and>
     (\<forall>t v. adding v (apc s t) \<longrightarrow> v \<in> set (added s)) \<and>
     (\<forall>t ns cur. apc s t = A_Cas ns cur \<longrightarrow> cur \<le> max_ns s) \<and>
     (max_ns s = 0 \<or> max_ns s \<in> set (added s))"

lemma sum_unsummed_upd:
  fixes t threads :: nat
  assumes "t < threads"
  shows "(\<Sum>u<threads. unsummed ((f(t := x)) u)) = (\<Sum>u<threads. unsummed (f u)) - unsummed (f t) + unsummed x"
proof -
  have split: "sum g {..<threads} = g t + sum g ({..<threads} - {t})" for g :: "nat \<Rightarrow> u64"
    using assms by (simp add: sum.remove)
  have "(\<Sum>u\<in>{..<threads} - {t}. unsummed ((f(t := x)) u)) = (\<Sum>u\<in>{..<threads} - {t}. unsummed (f u))"
    by (rule sum.cong) auto
  then show ?thesis
    using split [of "\<lambda>u. unsummed ((f(t := x)) u)"] split [of "\<lambda>u. unsummed (f u)"] by simp
qed

text \<open>A step of thread \<open>t\<close> to the point \<open>x\<close> that adds the values \<open>vs\<close> to the history.\<close>

lemma stats_inv_move:
  assumes inv: "stats_inv threads s" and t: "t < threads"
    and s': "apc s' = (apc s)(t := x)" "added s' = vs @ added s" "samples s' = samples s + of_nat (length vs)"
    and sum: "sum_ns s' + unsummed x + sum_ns s = sum_ns s + sum_ns s + sum_list vs + unsummed (apc s t)"
    and mx: "max_ns s \<le> max_ns s'" "max_ns s' = max_ns s \<or> max_ns s' \<in> set (added s')"
    and cover: "\<And>v. adding v (apc s t) \<Longrightarrow> v \<le> max_ns s' \<or> adding v x"
    and new: "\<And>v. v \<in> set vs \<Longrightarrow> adding v x"
    and mem: "\<And>v. adding v x \<Longrightarrow> v \<in> set (added s')"
    and cas: "\<And>ns cur. x = A_Cas ns cur \<Longrightarrow> cur \<le> max_ns s'"
  shows "stats_inv threads s'"
proof -
  note i = inv [unfolded stats_inv_def]
  have "sum_list (added s') = sum_ns s' + (\<Sum>u<threads. unsummed (apc s' u))"
    using i sum by (simp add: s' sum_unsummed_upd [OF t] algebra_simps del: fun_upd_apply)
  moreover have "v \<le> max_ns s' \<or> (\<exists>u<threads. adding v (apc s' u))" if "v \<in> set (added s')" for v
  proof (cases "v \<in> set vs")
    case True
    then show ?thesis using new t s'(1) by auto
  next
    case False
    with that s'(2) i consider "v \<le> max_ns s" | u where "u < threads" "adding v (apc s u)" by auto
    then show ?thesis
    proof cases
      case 1
      then show ?thesis using mx(1) by (blast intro: order_trans)
    next
      case (2 u)
      then show ?thesis using cover [of v] t s'(1) by (cases "u = t") auto
    qed
  qed
  moreover have "v \<in> set (added s')" if "adding v (apc s' u)" for u v
    using that i mem s'(1,2) by (cases "u = t") auto
  moreover have "cur \<le> max_ns s'" if "apc s' u = A_Cas ns cur" for u ns cur
  proof (cases "u = t")
    case False
    then have "cur \<le> max_ns s" using that i s'(1) by auto
    then show ?thesis using mx(1) by (rule order_trans)
  qed (use that cas s'(1) in auto)
  moreover have "max_ns s' = 0 \<or> max_ns s' \<in> set (added s')"
    using mx(2) i s'(2) by auto
  ultimately show ?thesis using i s' by (simp add: stats_inv_def add.commute)
qed

interpretation latency: inductive_invariant "\<lambda>s. s = LatencyStats" "add_step threads" "stats_inv threads"
proof
  show "stats_inv threads s" if "s = LatencyStats" for s
    using that by (simp add: stats_inv_def LatencyStats_def)
  show "stats_inv threads s'" if inv: "stats_inv threads s" and step: "add_step threads s s'" for s s'
  proof -
    have mem: "v \<in> set (added s)" if "adding v (apc s t)" for v t using inv that by (auto simp: stats_inv_def)
    have cas: "cur \<le> max_ns s" if "apc s t = A_Cas ns cur" for t ns cur using inv that by (auto simp: stats_inv_def)
    from step show ?thesis
    proof cases
      case (Begin t ns)
      then show ?thesis by (intro stats_inv_move [OF inv Begin(2), of s' "A_Sum ns" "[ns]"]) auto
    next
      case (Sum t ns)
      then show ?thesis using mem [of ns t]
        by (intro stats_inv_move [OF inv Sum(2), of s' "A_Load ns" "[]"]) (auto simp: algebra_simps)
    next
      case (Load t ns)
      then show ?thesis using mem [of ns t]
        by (intro stats_inv_move [OF inv Load(2), of s' "A_Cas ns (max_ns s)" "[]"]) auto
    next
      case (Not_Greater t ns cur)
      then show ?thesis using cas [of t ns cur]
        by (intro stats_inv_move [OF inv Not_Greater(2), of s' A_Idle "[]"]) auto
    next
      case (Cas_Fail t ns cur)
      then show ?thesis using mem [of ns t]
        by (intro stats_inv_move [OF inv Cas_Fail(2), of s' "A_Cas ns (max_ns s)" "[]"]) auto
    next
      case (Cas_Ok t ns cur)
      then show ?thesis using mem [of ns t]
        by (intro stats_inv_move [OF inv Cas_Ok(2), of s' A_Idle "[]"]) auto
    qed
  qed
qed

lemma latency_stats_values:
  assumes "reach (\<lambda>s. s = LatencyStats) (add_step threads) s" "\<forall>t. apc s t = A_Idle"
  shows "samples s = of_nat (length (added s))" "sum_ns s = sum_list (added s)" "max_ns s = fold max (added s) 0"
    "v \<in> set (added s) \<Longrightarrow> v \<le> max_ns s"
proof -
  note i = latency.inv_reach [OF assms(1), unfolded stats_inv_def]
  have "max_ns s = Max (set (0 # added s))"
    using i assms(2) by (intro Max_eqI [symmetric]) auto
  also have "\<dots> = fold max (added s) 0" by (rule Max.set_eq_fold)
  finally show "max_ns s = fold max (added s) 0" .
  show "samples s = of_nat (length (added s))" "sum_ns s = sum_list (added s)" "v \<in> set (added s) \<Longrightarrow> v \<le> max_ns s"
    using i assms(2) by auto
qed

text \<open>
  When all calls of \<open>add\<close> have returned, the statistics are those of the values added,
  however the calls interleaved: their number and sum (in 64 bits) and their maximum.
\<close>

theorem latency_stats_correct:
  assumes "reach (\<lambda>s. s = LatencyStats) (add_step threads) s" "\<forall>t. apc s t = A_Idle"
  shows "samples s = of_nat (length (added s)) \<and> sum_ns s = sum_list (added s) \<and>
    max_ns s = fold max (added s) 0"
  using latency_stats_values [OF assms] by blast

text \<open>A call that no other call overlaps runs to its end.\<close>

lemma add_alone:
  assumes "t < threads" "\<forall>u. apc s u = A_Idle"
  shows "\<exists>s'. (add_step threads)\<^sup>*\<^sup>* s s' \<and> (\<forall>u. apc s' u = A_Idle) \<and> added s' = ns # added s"
proof -
  let ?a = "s\<lparr>samples := samples s + 1, apc := (apc s)(t := A_Sum ns), added := ns # added s\<rparr>"
  let ?b = "?a\<lparr>sum_ns := sum_ns ?a + ns, apc := (apc ?a)(t := A_Load ns)\<rparr>"
  let ?c = "?b\<lparr>apc := (apc ?b)(t := A_Cas ns (max_ns ?b))\<rparr>"
  let ?d = "if ns > max_ns ?c then ?c\<lparr>max_ns := ns, apc := (apc ?c)(t := A_Idle)\<rparr> else ?c\<lparr>apc := (apc ?c)(t := A_Idle)\<rparr>"
  have "add_step threads s ?a" using assms by (intro add_step.Begin) auto
  moreover have "add_step threads ?a ?b" using assms by (intro add_step.Sum) auto
  moreover have "add_step threads ?b ?c" using assms by (intro add_step.Load) auto
  ultimately have "(add_step threads)\<^sup>*\<^sup>* s ?c" by (rule rtranclp_steps3)
  moreover have "add_step threads ?c ?d"
  proof (cases "ns > max_ns ?c")
    case True
    then show ?thesis using assms(1) add_step.Cas_Ok [of t threads ?c ns "max_ns ?c"] by simp
  next
    case False
    then show ?thesis using assms(1) add_step.Not_Greater [of t threads ?c ns "max_ns ?c"] by simp
  qed
  ultimately have "(add_step threads)\<^sup>*\<^sup>* s ?d" by (rule rtranclp.rtrancl_into_rtrancl)
  moreover have "\<forall>u. apc ?d u = A_Idle" "added ?d = ns # added s" using assms(2) by auto
  ultimately show ?thesis by blast
qed

theorem latency_stats_correct_witness:
  "\<exists>s :: latency_stats. added s = [3, 7] \<and> samples s = 2 \<and> sum_ns s = 10 \<and> max_ns s = 7"
proof -
  have r0: "reach (\<lambda>s. s = LatencyStats) (add_step 2) LatencyStats" by (rule reach_init) simp
  have "\<forall>u. apc LatencyStats u = A_Idle" by (simp add: LatencyStats_def)
  from add_alone [of 0 2, OF _ this, of 7] obtain s1 where s1: "(add_step 2)\<^sup>*\<^sup>* LatencyStats s1"
    "\<forall>u. apc s1 u = A_Idle" "added s1 = [7]" by (auto simp: LatencyStats_def)
  from add_alone [of 1 2, OF _ s1(2), of 3] obtain s2 where s2: "(add_step 2)\<^sup>*\<^sup>* s1 s2"
    "\<forall>u. apc s2 u = A_Idle" "added s2 = [3, 7]" using s1(3) by auto
  have "reach (\<lambda>s. s = LatencyStats) (add_step 2) s2"
    using reach_rtranclp [OF reach_rtranclp [OF r0 s1(1)] s2(1)] .
  from latency_stats_correct [OF this s2(2)] s2(3) have "samples s2 = 2 \<and> sum_ns s2 = 10 \<and> max_ns s2 = 7"
    by simp
  with s2(3) show ?thesis by blast
qed

section \<open>Sampling and pacing\<close>

text \<open>
  A reader measures an iteration when the low \<open>k\<close> bits of its counter are 0. \<open>sample_mask\<close> is
  defined for shifts by less than the width of \<open>unsigned\<close>; larger ones are undefined.
\<close>

definition sample_mask :: "u32 \<Rightarrow> u32 option" where
  "sample_mask k = (if k = 0 then Some 0 else if k \<ge> 32 then None else Some (push_bit (unat k) 1 - 1))"

definition sample_now :: "u32 \<Rightarrow> u32 \<Rightarrow> bool \<times> u32" where
  "sample_now m ctr = (if m \<noteq> 0 then (ctr AND m = 0, ctr + 1) else (False, ctr))"

lemma sample_mask_mask: "0 < k \<Longrightarrow> k < 32 \<Longrightarrow> sample_mask k = Some (mask (unat k))"
  by (auto simp: sample_mask_def mask_eq_exp_minus_1 push_bit_eq_mult not_le)

text \<open>
  A writer with a limit on its rate performs an update when the clock has reached \<open>next_tick\<close>,
  which then moves on by \<open>interval\<close>.
\<close>

definition update_interval :: "u64 \<Rightarrow> u64" where
  "update_interval ups = (if ups \<noteq> 0 then 1000000000 div ups else 0)"

definition pace :: "u64 \<Rightarrow> u64 \<Rightarrow> u64 \<Rightarrow> bool \<times> u64" where
  "pace interval next_tick t =
     (if interval \<noteq> 0 then if t < next_tick then (False, next_tick) else (True, next_tick + interval)
      else (True, next_tick))"

text \<open>The number of updates in a run of the loop that reads the clock values \<open>ts\<close>.\<close>

fun updates :: "u64 \<Rightarrow> u64 \<Rightarrow> u64 list \<Rightarrow> nat" where
  "updates interval tick [] = 0"
| "updates interval tick (t # ts) =
     (case pace interval tick t of (go, tick') \<Rightarrow> (if go then 1 else 0) + updates interval tick' ts)"

text \<open>
  Claim C39. A writer keeps its rate: as long as the 64-bit clock does not wrap, a run of the loop
  that starts with the next update due at \<open>tick\<close> and reads no clock value above \<open>T\<close> makes no
  more than one update per interval, beginning with the one due at \<open>tick\<close>.
\<close>

theorem writer_rate_bound:
  assumes "interval \<noteq> 0" "\<forall>t \<in> set ts. unat t \<le> T" "T + unat interval < 2 ^ 64" "0 < updates interval tick ts"
  shows "unat tick + updates interval tick ts * unat interval \<le> T + unat interval"
  using assms
proof (induction ts arbitrary: tick)
  case (Cons t ts)
  show ?case
  proof (cases "t < tick")
    case True
    with Cons show ?thesis by (simp add: pace_def)
  next
    case False
    then have le: "unat tick \<le> T" using Cons.prems(2) by (auto simp: word_less_nat_alt)
    then have next_tick: "unat (tick + interval) = unat tick + unat interval"
      using Cons.prems(3) by (simp add: unat_word_ariths)
    have n: "updates interval tick (t # ts) = Suc (updates interval (tick + interval) ts)"
      using False Cons.prems(1) by (simp add: pace_def)
    show ?thesis
    proof (cases "updates interval (tick + interval) ts = 0")
      case True
      with n le show ?thesis by simp
    next
      case False
      with Cons.IH [of "tick + interval"] Cons.prems next_tick
      have "unat tick + unat interval + updates interval (tick + interval) ts * unat interval \<le> T + unat interval"
        by simp
      with n show ?thesis by simp
    qed
  qed
qed simp

theorem writer_rate_bound_witness:
  "updates (update_interval 1000) 5 [5, 6, 1000005, 1500000] = 2 \<and>
   5 + updates (update_interval 1000) 5 [5, 6, 1000005, 1500000] * 1000000 \<le> 2500000"
proof -
  have i: "update_interval 1000 = 1000000" by (simp add: update_interval_def)
  have "updates 1000000 5 [5, 6, 1000005, 1500000] = 2" by (simp add: pace_def)
  with writer_rate_bound [of 1000000 "[5, 6, 1000005, 1500000]" 1500000 5] show ?thesis
    unfolding i by simp
qed

section \<open>Calibration\<close>

text \<open>
  \<open>CsBurner::calibrate\<close> doubles the number of iterations until a round takes at least
  \<open>target_ns\<close>; \<open>elapsed i\<close> is what the clock shows for round \<open>i\<close>. The result is the number of
  rounds and \<open>iters_per_ns\<close>, a \<open>double\<close>, which is represented by an exact quotient.
\<close>

partial_function (option) calibrate_loop :: "(nat \<Rightarrow> u64) \<Rightarrow> u64 \<Rightarrow> nat \<Rightarrow> u64 \<Rightarrow> (nat \<times> rat) option" where
  "calibrate_loop elapsed target_ns i iters =
     (let ns = elapsed i in
      if ns \<ge> target_ns then Some (Suc i, of_nat (unat iters) / of_nat (unat ns))
      else let iters2 = push_bit 1 iters in
        if iters2 > push_bit 36 1 then Some (Suc i, 1)
        else calibrate_loop elapsed target_ns (Suc i) iters2)"

definition calibrate :: "(nat \<Rightarrow> u64) \<Rightarrow> u64 \<Rightarrow> (nat \<times> rat) option" where
  "calibrate elapsed target_ns =
     map_option (\<lambda>(n, r). (n, if r \<le> 0 then 1 else r)) (calibrate_loop elapsed target_ns 0 (push_bit 16 1))"

definition burn_ns :: "rat \<Rightarrow> u64 \<Rightarrow> nat" where
  "burn_ns iters_per_ns ns =
     (if ns = 0 then 0 else max 8 (nat \<lfloor>of_nat (unat ns) * iters_per_ns\<rfloor>))"

lemma unat_power_u64: "n < 64 \<Longrightarrow> unat (2 ^ n :: u64) = 2 ^ n"
proof -
  assume "n < 64"
  then have "(2 :: nat) ^ n < 2 ^ 64" by (intro power_strict_increasing) auto
  then have "unat (of_nat (2 ^ n) :: u64) = 2 ^ n" by (simp only: unat_of_nat) (simp add: take_bit_nat_eq_self)
  then show ?thesis by simp
qed

lemma calibrate_loop_ends:
  assumes "i \<le> 20"
  shows "\<exists>n r. calibrate_loop elapsed target_ns i (2 ^ (16 + i)) = Some (n, r) \<and> n \<le> 21"
  using assms
proof (induction "20 - i" arbitrary: i)
  case 0
  then have i: "i = 20" by simp
  show ?case
    by (subst calibrate_loop.simps) (simp add: i Let_def push_bit_eq_mult)
next
  case (Suc k)
  then have i: "Suc i \<le> 20" by simp
  have dbl: "push_bit 1 (2 ^ (16 + i)) = (2 ^ (16 + Suc i) :: u64)" by (simp add: push_bit_eq_mult power_add)
  have "unat (2 ^ (16 + Suc i) :: u64) = 2 ^ (16 + Suc i)" by (rule unat_power_u64) (use i in simp)
  moreover have "(2 :: nat) ^ (16 + Suc i) \<le> 2 ^ 36" using i by (intro power_increasing) auto
  ultimately have le: "\<not> (2 ^ (16 + Suc i) :: u64) > push_bit 36 1"
    by (simp add: word_less_nat_alt not_less)
  define w where "w = (2 ^ (16 + i) :: u64)"
  define w2 where "w2 = (2 ^ (16 + Suc i) :: u64)"
  have "\<exists>n r. calibrate_loop elapsed target_ns (Suc i) w2 = Some (n, r) \<and> n \<le> 21"
    unfolding w2_def by (rule Suc.hyps(1)) (use Suc.hyps(2) i in auto)
  moreover have "push_bit 1 w = w2" "\<not> w2 > push_bit 36 1"
    unfolding w_def w2_def by (rule dbl, rule le)
  ultimately show ?case
    unfolding w_def [symmetric] calibrate_loop.simps [of elapsed target_ns i w] Let_def using Suc.prems by auto
qed


section \<open>Touching the payload\<close>

text \<open>
  \<open>payload_touch\<close> reads every 64th byte and the last one; \<^term>\<open>None\<close> is a read outside the
  payload.
\<close>

definition byte_at :: "u8 list \<Rightarrow> nat \<Rightarrow> u8 option" where
  "byte_at p i = (if i < length p then Some (p ! i) else None)"

function touch_loop :: "u8 list \<Rightarrow> nat \<Rightarrow> nat \<Rightarrow> u8 \<Rightarrow> u8 option" where
  "touch_loop p n i acc =
     (if i < n then Option.bind (byte_at p i) (\<lambda>b. touch_loop p n (i + 64) (acc XOR b)) else Some acc)"
  by pat_completeness auto
termination by (relation "measure (\<lambda>(p, n, i, acc). n - i)") auto

declare touch_loop.simps [simp del]

definition payload_touch :: "u8 list \<Rightarrow> nat \<Rightarrow> u8 option" where
  "payload_touch p n =
     Option.bind (touch_loop p n 0 0) (\<lambda>acc.
       if n \<noteq> 0 then map_option (\<lambda>b. acc XOR b) (byte_at p (n - 1)) else Some acc)"

lemma touch_loop_in_bounds: "n \<le> length p \<Longrightarrow> touch_loop p n i acc \<noteq> None"
proof (induction p n i acc rule: touch_loop.induct)
  case (1 p n i acc)
  then show ?case by (subst touch_loop.simps) (auto simp: byte_at_def)
qed

lemma payload_touch_in_bounds: "payload_touch p n \<noteq> None \<longleftrightarrow> n \<le> length p"
proof (cases "n \<le> length p")
  case True
  then show ?thesis
    using touch_loop_in_bounds [OF True, of 0 0] by (auto simp: payload_touch_def byte_at_def)
next
  case False
  then show ?thesis by (auto simp: payload_touch_def byte_at_def bind_eq_Some_conv)
qed

end
