(* ===== verification/Bench_Backend.thy ===== *)
theory Bench_Backend
  imports Example_Exchange Bench_Stats
begin

text \<open>
  \<open>AtomSnapBackend\<close> of \<open>microbench/bench2/bench_all.cpp\<close>: one gate per shard, writers that go
  round the shards and put a new object in place with \<open>atomsnap_exchange_version_slot\<close>, readers
  that check the object of their shard and walk through its payload. The objects come from a
  \<open>TaggedFreeList\<close> and go back to it in the callback; what the program relies on is that the pool
  does not hand out a block that is in use, which \<open>client_step\<close> states of every allocation. The
  theory shows that no reader aborts, that no thread touches an object that is back in the pool,
  and that all accesses to the payload and to the vector of gates are within bounds.
\<close>

section \<open>The program\<close>

text \<open>
  \<open>struct AtomObj\<close> with the payload behind it. A counter that was not written yet is
  \<^term>\<open>None\<close>; the bytes of a block from the pool are whatever \<open>junk\<close> says.
\<close>

record atom_obj =
  v1 :: "u64 option"
  v2 :: "u64 option"
  payload :: "u8 list"

definition block_from_pool :: "nat \<Rightarrow> (nat \<Rightarrow> u8) \<Rightarrow> nat \<Rightarrow> atom_obj" where
  "block_from_pool payload_bytes junk a =
     \<lparr>v1 = None, v2 = None, payload = map (\<lambda>i. junk (a + i)) [0..<payload_bytes]\<rparr>"

text \<open>The first and the last byte of the payload; \<^term>\<open>None\<close> is a write outside it.\<close>

definition write_payload :: "nat \<Rightarrow> u64 \<Rightarrow> u8 list \<Rightarrow> u8 list option" where
  "write_payload payload_bytes seq pl =
     (if payload_bytes = 0 then Some pl
      else if payload_bytes \<le> length pl then
        Some (pl[0 := ucast seq, payload_bytes - 1 := ucast (drop_bit 8 seq)])
      else None)"

definition next_shard :: "nat \<Rightarrow> nat \<Rightarrow> nat" where
  "next_shard shards shard = (let shard' = shard + 1 in if shard' \<ge> shards then 0 else shard')"

text \<open>Program points of \<open>writer_loop\<close>, with \<open>shard\<close>, \<open>seq\<close>, \<open>ver\<close> and \<open>obj\<close> where they are live.\<close>

datatype be_writer =
    B_Loop nat u64
  | B_Pace nat u64
  | B_Gate nat u64
  | B_Make nat u64
  | B_Alloc nat u64 u32
  | B_Value1 nat u64 u32 nat
  | B_Value2 nat u64 u32 nat
  | B_Payload nat u64 u32 nat
  | B_Set nat u64 u32 nat
  | B_Exchange nat u64 u32 nat
  | B_Created nat u64
  | B_Wops nat u64
  | B_Exit
  | B_Fault

definition be_writer_call :: "nat \<Rightarrow> be_writer \<Rightarrow> rc_label \<Rightarrow> be_writer option" where
  "be_writer_call shards p l = (case l of
     L_Make h \<Rightarrow> (case p of B_Make sh seq \<Rightarrow> Some (B_Alloc sh seq h) | _ \<Rightarrow> None)
   | L_Set h q \<Rightarrow> (case p of
        B_Set sh seq nv nd \<Rightarrow> if h = nv \<and> q = nd then Some (B_Exchange sh seq nv nd) else None
      | _ \<Rightarrow> None)
   | L_Exchange c n \<Rightarrow> (case p of
        B_Exchange sh seq nv nd \<Rightarrow>
          if c = sh \<and> n = nv \<and> sh < shards then Some (B_Created sh seq) else None
      | _ \<Rightarrow> None)
   | L_Callback h \<Rightarrow> Some p
   | L_Tau \<Rightarrow> Some p
   | _ \<Rightarrow> None)"

text \<open>
  \<open>stop\<close> is the answer of \<open>running\<close> at the head of the loop, negated, and of the test of the
  clock against \<open>next_tick\<close> at \<open>B_Pace\<close>.
\<close>

definition be_writer_local ::
  "nat \<Rightarrow> nat \<Rightarrow> u64 \<Rightarrow> (nat \<Rightarrow> u8) \<Rightarrow> bool \<Rightarrow> nat \<Rightarrow> be_writer \<Rightarrow> (nat \<Rightarrow> atom_obj option) \<Rightarrow>
   be_writer \<times> (nat \<Rightarrow> atom_obj option)" where
  "be_writer_local shards payload_bytes interval junk stop a p hp = (case p of
     B_Loop sh seq \<Rightarrow> (if stop then B_Exit else if interval \<noteq> 0 then B_Pace sh seq else B_Gate sh seq, hp)
   | B_Pace sh seq \<Rightarrow> (if stop then B_Loop sh seq else B_Gate sh seq, hp)
   | B_Gate sh seq \<Rightarrow> (if sh < shards then B_Make sh seq else B_Fault, hp)
   | B_Alloc sh seq nv \<Rightarrow> (B_Value1 sh (seq + 1) nv a, hp(a := Some (block_from_pool payload_bytes junk a)))
   | B_Value1 sh seq nv nd \<Rightarrow>
       (case hp nd of Some d \<Rightarrow> (B_Value2 sh seq nv nd, hp(nd := Some (d\<lparr>v1 := Some seq\<rparr>))) | None \<Rightarrow> (B_Fault, hp))
   | B_Value2 sh seq nv nd \<Rightarrow>
       (case hp nd of Some d \<Rightarrow> (B_Payload sh seq nv nd, hp(nd := Some (d\<lparr>v2 := Some seq\<rparr>))) | None \<Rightarrow> (B_Fault, hp))
   | B_Payload sh seq nv nd \<Rightarrow>
       (case hp nd of
          Some d \<Rightarrow> (case write_payload payload_bytes seq (payload d) of
              Some pl \<Rightarrow> (B_Set sh seq nv nd, hp(nd := Some (d\<lparr>payload := pl\<rparr>)))
            | None \<Rightarrow> (B_Fault, hp))
        | None \<Rightarrow> (B_Fault, hp))
   | B_Created sh seq \<Rightarrow> (B_Wops (next_shard shards sh) seq, hp)
   | B_Wops sh seq \<Rightarrow> (B_Loop sh seq, hp)
   | _ \<Rightarrow> (p, hp))"

text \<open>Program points of \<open>reader_loop\<close>, with \<open>shard\<close>, \<open>ver\<close>, \<open>obj\<close> and the first counter.\<close>

datatype be_reader =
    D_Loop nat
  | D_Gate nat
  | D_Acquire nat
  | D_Get nat u32
  | D_Value1 nat u32 nat
  | D_Value2 nat u32 nat u64
  | D_Touch nat u32 nat
  | D_Release nat u32
  | D_Rops nat
  | D_Exit
  | D_Mismatch
  | D_Fault

definition be_reader_call :: "nat \<Rightarrow> be_reader \<Rightarrow> rc_label \<Rightarrow> be_reader option" where
  "be_reader_call shards p l = (case l of
     L_Acquire c h \<Rightarrow> (case p of
        D_Acquire sh \<Rightarrow>
          if c = sh \<and> sh < shards then Some (if h \<noteq> HANDLE_NULL then D_Get sh h else D_Rops sh) else None
      | _ \<Rightarrow> None)
   | L_Release h \<Rightarrow> (case p of D_Release sh h' \<Rightarrow> if h = h' then Some (D_Rops sh) else None | _ \<Rightarrow> None)
   | L_Callback h \<Rightarrow> Some p
   | L_Tau \<Rightarrow> Some p
   | _ \<Rightarrow> None)"

definition be_reader_local ::
  "nat \<Rightarrow> nat \<Rightarrow> bool \<Rightarrow> (u32 \<Rightarrow> nat) \<Rightarrow> be_reader \<Rightarrow> (nat \<Rightarrow> atom_obj option) \<Rightarrow> be_reader" where
  "be_reader_local shards payload_bytes stop ob p hp = (case p of
     D_Loop sh \<Rightarrow> if stop then D_Exit else D_Gate sh
   | D_Gate sh \<Rightarrow> if sh < shards then D_Acquire sh else D_Fault
   | D_Get sh h \<Rightarrow> (let q = get_object ob h in if q \<noteq> 0 then D_Value1 sh h q else D_Release sh h)
   | D_Value1 sh h q \<Rightarrow> (case Option.bind (hp q) v1 of Some x \<Rightarrow> D_Value2 sh h q x | None \<Rightarrow> D_Fault)
   | D_Value2 sh h q x \<Rightarrow>
       (case Option.bind (hp q) v2 of Some y \<Rightarrow> if x \<noteq> y then D_Mismatch else D_Touch sh h q | None \<Rightarrow> D_Fault)
   | D_Touch sh h q \<Rightarrow>
       (case Option.bind (hp q) (\<lambda>d. payload_touch (payload d) payload_bytes) of
          Some acc \<Rightarrow> D_Release sh h | None \<Rightarrow> D_Fault)
   | D_Rops sh \<Rightarrow> D_Loop sh
   | _ \<Rightarrow> p)"

datatype be_thread = Be_Writer be_writer | Be_Reader be_reader

definition be_call :: "nat \<Rightarrow> be_thread \<Rightarrow> rc_label \<Rightarrow> be_thread option" where
  "be_call shards p l = (case p of
     Be_Writer w \<Rightarrow> map_option Be_Writer (be_writer_call shards w l)
   | Be_Reader r \<Rightarrow> map_option Be_Reader (be_reader_call shards r l))"

definition be_local ::
  "nat \<Rightarrow> nat \<Rightarrow> u64 \<Rightarrow> (nat \<Rightarrow> u8) \<Rightarrow> bool \<Rightarrow> nat \<Rightarrow> (u32 \<Rightarrow> nat) \<Rightarrow> be_thread \<Rightarrow> (nat \<Rightarrow> atom_obj option) \<Rightarrow>
   be_thread \<times> (nat \<Rightarrow> atom_obj option)" where
  "be_local shards payload_bytes interval junk stop a ob p hp = (case p of
     Be_Writer w \<Rightarrow> apfst Be_Writer (be_writer_local shards payload_bytes interval junk stop a w hp)
   | Be_Reader r \<Rightarrow> (Be_Reader (be_reader_local shards payload_bytes stop ob r hp), hp))"

text \<open>
  \<open>init\<close> has published an object with counters 0 in every shard; the threads start in the
  shard \<open>rid % shards\<close> or \<open>wid % shards\<close>.
\<close>

definition be_initial :: "nat \<Rightarrow> atom_obj \<Rightarrow> bool" where
  "be_initial payload_bytes d \<longleftrightarrow>
     v1 d = Some 0 \<and> v2 d = Some 0 \<and> length (payload d) = payload_bytes \<and>
     (payload_bytes \<noteq> 0 \<longrightarrow> payload d ! 0 = 0 \<and> payload d ! (payload_bytes - 1) = 0)"

definition be_start :: "nat \<Rightarrow> nat \<Rightarrow> (atom_obj, be_thread) client_state \<Rightarrow> bool" where
  "be_start shards payload_bytes s \<longleftrightarrow> 0 < shards \<and>
     client_start {..<shards} (be_initial payload_bytes)
       (range (\<lambda>wid. Be_Writer (B_Loop (wid mod shards) 0)) \<union> range (\<lambda>rid. Be_Reader (D_Loop (rid mod shards)))) s"

definition be_step ::
  "nat \<Rightarrow> nat \<Rightarrow> u64 \<Rightarrow> (nat \<Rightarrow> u8) \<Rightarrow> (atom_obj, be_thread) client_state \<Rightarrow> (atom_obj, be_thread) client_state \<Rightarrow> bool" where
  "be_step shards payload_bytes interval junk s s' \<longleftrightarrow>
     client_step (be_call shards) (be_local shards payload_bytes interval junk) rc_limit s s'"

section \<open>The program keeps the discipline\<close>

fun be_writer_view :: "be_writer \<Rightarrow> client_view" where
  "be_writer_view (B_Alloc sh seq nv) = no_view\<lparr>made := Some nv\<rparr>"
| "be_writer_view (B_Value1 sh seq nv nd) = no_view\<lparr>made := Some nv, raw := Some nd\<rparr>"
| "be_writer_view (B_Value2 sh seq nv nd) = no_view\<lparr>made := Some nv, raw := Some nd\<rparr>"
| "be_writer_view (B_Payload sh seq nv nd) = no_view\<lparr>made := Some nv, raw := Some nd\<rparr>"
| "be_writer_view (B_Set sh seq nv nd) = no_view\<lparr>made := Some nv, raw := Some nd\<rparr>"
| "be_writer_view (B_Exchange sh seq nv nd) = no_view\<lparr>made := Some nv, mine := Some nd\<rparr>"
| "be_writer_view _ = no_view"

fun be_reader_view :: "be_reader \<Rightarrow> client_view" where
  "be_reader_view (D_Get sh h) = no_view\<lparr>held := Some h\<rparr>"
| "be_reader_view (D_Value1 sh h q) = no_view\<lparr>held := Some h, ptr := Some q\<rparr>"
| "be_reader_view (D_Value2 sh h q x) = no_view\<lparr>held := Some h, ptr := Some q\<rparr>"
| "be_reader_view (D_Touch sh h q) = no_view\<lparr>held := Some h, ptr := Some q\<rparr>"
| "be_reader_view (D_Release sh h) = no_view\<lparr>held := Some h\<rparr>"
| "be_reader_view _ = no_view"

definition good_obj :: "nat \<Rightarrow> atom_obj \<Rightarrow> bool" where
  "good_obj payload_bytes d \<longleftrightarrow> v1 d \<noteq> None \<and> v2 d = v1 d \<and> length (payload d) = payload_bytes"

fun be_writer_knows :: "nat \<Rightarrow> nat \<Rightarrow> be_writer \<Rightarrow> atom_obj option \<Rightarrow> bool" where
  "be_writer_knows sn n (B_Loop sh seq) dn \<longleftrightarrow> sh < sn"
| "be_writer_knows sn n (B_Pace sh seq) dn \<longleftrightarrow> sh < sn"
| "be_writer_knows sn n (B_Gate sh seq) dn \<longleftrightarrow> sh < sn"
| "be_writer_knows sn n (B_Make sh seq) dn \<longleftrightarrow> sh < sn"
| "be_writer_knows sn n (B_Alloc sh seq nv) dn \<longleftrightarrow> sh < sn"
| "be_writer_knows sn n (B_Value1 sh seq nv nd) dn \<longleftrightarrow> sh < sn \<and> (\<forall>d. dn = Some d \<longrightarrow> length (payload d) = n)"
| "be_writer_knows sn n (B_Value2 sh seq nv nd) dn \<longleftrightarrow>
     sh < sn \<and> (\<forall>d. dn = Some d \<longrightarrow> length (payload d) = n \<and> v1 d = Some seq)"
| "be_writer_knows sn n (B_Payload sh seq nv nd) dn \<longleftrightarrow> sh < sn \<and> (\<forall>d. dn = Some d \<longrightarrow> good_obj n d)"
| "be_writer_knows sn n (B_Set sh seq nv nd) dn \<longleftrightarrow> sh < sn \<and> (\<forall>d. dn = Some d \<longrightarrow> good_obj n d)"
| "be_writer_knows sn n (B_Exchange sh seq nv nd) dn \<longleftrightarrow> sh < sn \<and> (\<forall>d. dn = Some d \<longrightarrow> good_obj n d)"
| "be_writer_knows sn n (B_Created sh seq) dn \<longleftrightarrow> sh < sn"
| "be_writer_knows sn n (B_Wops sh seq) dn \<longleftrightarrow> sh < sn"
| "be_writer_knows sn n _ dn \<longleftrightarrow> True"

fun be_reader_knows :: "nat \<Rightarrow> be_reader \<Rightarrow> atom_obj option \<Rightarrow> bool" where
  "be_reader_knows sn (D_Loop sh) dh \<longleftrightarrow> sh < sn"
| "be_reader_knows sn (D_Gate sh) dh \<longleftrightarrow> sh < sn"
| "be_reader_knows sn (D_Acquire sh) dh \<longleftrightarrow> sh < sn"
| "be_reader_knows sn (D_Get sh h) dh \<longleftrightarrow> sh < sn"
| "be_reader_knows sn (D_Value1 sh h q) dh \<longleftrightarrow> sh < sn"
| "be_reader_knows sn (D_Value2 sh h q x) dh \<longleftrightarrow> sh < sn \<and> (\<forall>d. dh = Some d \<longrightarrow> v1 d = Some x)"
| "be_reader_knows sn (D_Touch sh h q) dh \<longleftrightarrow> sh < sn"
| "be_reader_knows sn (D_Release sh h) dh \<longleftrightarrow> sh < sn"
| "be_reader_knows sn (D_Rops sh) dh \<longleftrightarrow> sh < sn"
| "be_reader_knows sn _ dh \<longleftrightarrow> True"

definition be_view :: "be_thread \<Rightarrow> client_view" where
  "be_view p = (case p of Be_Writer w \<Rightarrow> be_writer_view w | Be_Reader r \<Rightarrow> be_reader_view r)"

definition be_knows :: "nat \<Rightarrow> nat \<Rightarrow> be_thread \<Rightarrow> atom_obj option \<Rightarrow> atom_obj option \<Rightarrow> bool" where
  "be_knows sn n p dh dn \<longleftrightarrow>
     (case p of Be_Writer w \<Rightarrow> be_writer_knows sn n w dn | Be_Reader r \<Rightarrow> be_reader_knows sn r dh)"

definition be_failed :: "be_thread \<Rightarrow> bool" where
  "be_failed p \<longleftrightarrow> p \<in> {Be_Writer B_Fault, Be_Reader D_Fault, Be_Reader D_Mismatch}"

lemmas be_call_defs = be_call_def be_writer_call_def be_reader_call_def
lemmas be_splits = rc_label.splits be_writer.splits be_reader.splits be_thread.splits option.splits if_splits

lemma next_shard_less: "sh < sn \<Longrightarrow> next_shard sn sh < sn"
  by (auto simp: next_shard_def Let_def)

lemma be_call_view: "be_call sn p l = Some p' \<Longrightarrow> view_call {..<sn} (be_view p) l (be_view p')"
  by (auto simp: be_call_defs be_view_def no_view_def handle_opt_def split: be_splits)

lemma be_call_failed: "be_call sn p l = Some p' \<Longrightarrow> \<not> be_failed p \<Longrightarrow> \<not> be_failed p'"
  by (auto simp: be_call_defs be_failed_def split: be_splits)

lemma be_exchange_ok: "be_call sn p (L_Exchange c m) = Some p' \<Longrightarrow> be_knows sn n p dh (Some d) \<Longrightarrow> good_obj n d"
  by (auto simp: be_call_defs be_knows_def split: be_splits)

lemma be_no_cx: "be_call sn p L_Cx_True \<noteq> Some p'"
  by (auto simp: be_call_defs split: be_splits)

lemma be_call_knows:
  assumes "be_call sn p l = Some p'" "be_knows sn n p dh dn"
    "(\<forall>c h. l \<noteq> L_Acquire c h) \<and> (\<forall>h. l \<noteq> L_Release h) \<longrightarrow> dh' = dh"
    "if (\<exists>c n. l = L_Exchange c n) \<or> l = L_Cx_True then dn2 = None else dn2 = dn"
  shows "be_knows sn n p' dh' dn2"
proof -
  have "be_writer_knows sn n w' dn2" if "be_writer_call sn w l = Some w'" "be_writer_knows sn n w dn" for w w'
    using that assms(4)
    by (cases l) (auto simp: be_writer_call_def next_shard_less split: be_writer.splits if_splits)
  moreover have "be_reader_knows sn r' dh'" if "be_reader_call sn r l = Some r'" "be_reader_knows sn r dh" for r r'
    using that assms(3) by (cases l) (auto simp: be_reader_call_def split: be_reader.splits if_splits)
  ultimately show ?thesis
    using assms(1,2) by (auto simp: be_call_def be_knows_def split: be_thread.splits)
qed

lemmas be_local_defs = view_local_def held_data_def own_data_def data_def no_view_def handle_opt_def get_object_def

lemma write_payload_some:
  "length pl = n \<Longrightarrow> \<exists>pl'. write_payload n seq pl = Some pl' \<and> length pl' = n"
  by (auto simp: write_payload_def)

lemma be_writer_local_ok:
  assumes step: "be_writer_local sn n interval junk stop a p hp = (p', hp')" and p: "p \<noteq> B_Fault"
    and k: "be_writer_knows sn n p (own_data (be_writer_view p) hp)"
    and own: "\<And>q. data (be_writer_view p) = Some q \<Longrightarrow> hp q \<noteq> None"
  shows "view_local a ob (be_writer_view p) hp (be_writer_view p') hp' \<and>
    be_writer_knows sn n p' (own_data (be_writer_view p') hp') \<and> p' \<noteq> B_Fault"
proof (cases "\<exists>sh seq nv nd. p \<in> {B_Value1 sh seq nv nd, B_Value2 sh seq nv nd, B_Payload sh seq nv nd}")
  case True
  then obtain sh seq nv nd where p': "p \<in> {B_Value1 sh seq nv nd, B_Value2 sh seq nv nd, B_Payload sh seq nv nd}" by blast
  with own [of nd] obtain d where d: "hp nd = Some d" by (auto simp: data_def no_view_def)
  obtain pl where pl: "length (payload d) = n \<Longrightarrow> write_payload n seq (payload d) = Some pl \<and> length pl = n"
    using write_payload_some [of "payload d" n seq] by blast
  from p' d pl step k show ?thesis
    by (auto simp: be_writer_local_def be_local_defs good_obj_def)
next
  case False
  with step p k show ?thesis
    by (cases p) (auto simp: be_writer_local_def be_local_defs block_from_pool_def next_shard_less split: if_splits)
qed

lemma be_reader_local_ok:
  assumes step: "be_reader_local sn n stop ob p hp = p'" and p: "p \<notin> {D_Fault, D_Mismatch}"
    and k: "be_reader_knows sn p (held_data ob (be_reader_view p) hp)"
    and held: "\<And>h. held (be_reader_view p) = Some h \<Longrightarrow> \<exists>d. hp (ob h) = Some d \<and> good_obj n d"
    and ptr: "\<And>q. ptr (be_reader_view p) = Some q \<Longrightarrow> \<exists>h. held (be_reader_view p) = Some h \<and> q = ob h"
  shows "view_local a ob (be_reader_view p) hp (be_reader_view p') hp \<and>
    be_reader_knows sn p' (held_data ob (be_reader_view p') hp) \<and> p' \<notin> {D_Fault, D_Mismatch}"
proof (cases "\<exists>sh h q x. p \<in> {D_Value1 sh h q, D_Value2 sh h q x, D_Touch sh h q}")
  case True
  then obtain sh h q x where p': "p \<in> {D_Value1 sh h q, D_Value2 sh h q x, D_Touch sh h q}" by blast
  then have h: "held (be_reader_view p) = Some h" by (auto simp: no_view_def)
  from p' ptr [of q] h have q: "q = ob h" by (auto simp: no_view_def)
  obtain d where d: "hp (ob h) = Some d" "good_obj n d" using held [OF h] by blast
  then obtain y where y: "v1 d = Some y" "v2 d = Some y" "length (payload d) = n" by (auto simp: good_obj_def)
  then obtain acc where "payload_touch (payload d) n = Some acc" using payload_touch_in_bounds [of "payload d" n] by auto
  with p' step k h q d y show ?thesis
    by (auto simp: be_reader_local_def be_local_defs)
next
  case False
  with step p k ptr show ?thesis
    by (cases p) (auto simp: be_reader_local_def be_local_defs Let_def split: if_splits)
qed

definition be_starts :: "nat \<Rightarrow> be_thread set" where
  "be_starts sn = {p. \<exists>sh < sn. p = Be_Writer (B_Loop sh 0) \<or> p = Be_Reader (D_Loop sh)}"

lemma be_starts_ok: "p \<in> be_starts sn \<Longrightarrow> be_view p = no_view \<and> \<not> be_failed p \<and> be_knows sn n p dh dn"
  by (auto simp: be_starts_def be_view_def be_failed_def be_knows_def)

interpretation backend: snapshot_client "be_call sn" "be_local sn n interval junk" "{..<sn}" be_view "be_knows sn n"
  "good_obj n" "\<lambda>_. 0" "\<lambda>_. 0" be_failed "be_initial n" "be_starts sn"
proof
  fix stop a ob p hp p' hp'
  assume "be_local sn n interval junk stop a ob p hp = (p', hp')" "\<not> be_failed p"
    "be_knows sn n p (held_data ob (be_view p) hp) (own_data (be_view p) hp)"
    "\<And>h. held (be_view p) = Some h \<Longrightarrow> \<exists>d. hp (ob h) = Some d \<and> good_obj n d \<and> (0 :: int) \<le> 0"
    "\<And>q. data (be_view p) = Some q \<Longrightarrow> hp q \<noteq> None"
    "\<And>q. ptr (be_view p) = Some q \<Longrightarrow> \<exists>h. held (be_view p) = Some h \<and> q = ob h"
  note a = this
  show "view_local a ob (be_view p) hp (be_view p') hp' \<and>
      be_knows sn n p' (held_data ob (be_view p') hp') (own_data (be_view p') hp') \<and> \<not> be_failed p' \<and>
      ((0 :: int) \<le> 0 \<or> (\<exists>d. held_data ob (be_view p) hp = Some d \<and> (0 :: int) \<le> 0))"
  proof (cases p)
    case (Be_Writer w)
    with a(1) obtain w' where w: "p' = Be_Writer w'" "be_writer_local sn n interval junk stop a w hp = (w', hp')"
      by (cases "be_writer_local sn n interval junk stop a w hp") (auto simp: be_local_def)
    have v: "be_view p = be_writer_view w" "be_view p' = be_writer_view w'" by (simp_all add: be_view_def Be_Writer w(1))
    have "w \<noteq> B_Fault" "be_writer_knows sn n w (own_data (be_writer_view w) hp)"
      using a(2,3) by (simp_all add: be_failed_def be_knows_def be_view_def Be_Writer)
    from be_writer_local_ok [OF w(2) this a(5) [unfolded v(1)], of ob] show ?thesis
      unfolding v by (simp add: be_knows_def be_failed_def w(1))
  next
    case (Be_Reader r)
    define r' where "r' = be_reader_local sn n stop ob r hp"
    then have "be_local sn n interval junk stop a ob p hp = (Be_Reader r', hp)" by (simp add: be_local_def Be_Reader)
    with a(1) have "(p', hp') = (Be_Reader r', hp)" by metis
    with r'_def have r: "p' = Be_Reader r'" "be_reader_local sn n stop ob r hp = r'" "hp' = hp" by blast+
    have v: "be_view p = be_reader_view r" "be_view p' = be_reader_view r'" by (simp_all add: be_view_def Be_Reader r(1))
    have "r \<notin> {D_Fault, D_Mismatch}" "be_reader_knows sn r (held_data ob (be_reader_view r) hp)"
      using a(2,3) by (simp_all add: be_failed_def be_knows_def be_view_def Be_Reader)
    have "\<exists>d. hp (ob h) = Some d \<and> good_obj n d" if "held (be_reader_view r) = Some h" for h
      using a(4) [unfolded v(1), OF that] by blast
    from be_reader_local_ok [OF r(2) \<open>r \<notin> _\<close> \<open>be_reader_knows _ _ _\<close> this a(6) [unfolded v(1)], of a] show ?thesis
      unfolding v r(3) by (simp add: be_knows_def be_failed_def r(1))
  qed
next
  fix p l p' dh dn dh' dn2
  assume "be_call sn p l = Some p'" "be_knows sn n p dh dn"
    "(\<forall>c h. l \<noteq> L_Acquire c h) \<and> (\<forall>h. l \<noteq> L_Release h) \<longrightarrow> dh' = dh"
    "if (\<exists>c n. l = L_Exchange c n) \<or> l = L_Cx_True then dn2 = None else dn2 = dn"
  then show "be_knows sn n p' dh' dn2" using be_call_knows by blast
qed (use be_call_view be_call_failed be_exchange_ok be_no_cx be_starts_ok in \<open>auto simp: be_initial_def good_obj_def\<close>)

section \<open>Correctness\<close>

text \<open>A thread between two rounds of its loop, or past it.\<close>

fun be_resting :: "be_thread \<Rightarrow> bool" where
  "be_resting (Be_Writer (B_Loop sh seq)) \<longleftrightarrow> True"
| "be_resting (Be_Writer B_Exit) \<longleftrightarrow> True"
| "be_resting (Be_Reader (D_Loop sh)) \<longleftrightarrow> True"
| "be_resting (Be_Reader D_Exit) \<longleftrightarrow> True"
| "be_resting _ \<longleftrightarrow> False"

lemma be_resting_view: "be_resting p \<Longrightarrow> be_view p = no_view"
  by (cases p rule: be_resting.cases) (auto simp: be_view_def)

lemma be_reach:
  assumes "reach (be_start shards payload_bytes) (be_step shards payload_bytes interval junk) s"
  shows "reach (client_start {..<shards} (be_initial payload_bytes) (be_starts shards))
    (client_step (be_call shards) (be_local shards payload_bytes interval junk) rc_limit) s"
proof -
  have init: "client_start {..<shards} (be_initial payload_bytes) (be_starts shards) s"
    if "be_start shards payload_bytes s" for s
  proof -
    have "range (\<lambda>wid. Be_Writer (B_Loop (wid mod shards) 0)) \<union> range (\<lambda>rid. Be_Reader (D_Loop (rid mod shards)))
      \<subseteq> be_starts shards" using that by (auto simp: be_starts_def be_start_def)
    with that show ?thesis unfolding be_start_def by (blast intro: client_start_mono)
  qed
  have step: "be_step shards payload_bytes interval junk =
      client_step (be_call shards) (be_local shards payload_bytes interval junk) rc_limit"
    by (intro ext) (simp add: be_step_def)
  show ?thesis
    using assms unfolding step by (induction rule: reach.induct) (auto intro: reach.intros init)
qed


text \<open>One shard and a payload of two bytes: thread 1 acquires the object that \<open>init\<close> published.\<close>

definition be_state0 :: "(atom_obj, be_thread) client_state" where
  "be_state0 = \<lparr>lib = main_lib, heap = (\<lambda>_. None)(5 := Some \<lparr>v1 = Some 0, v2 = Some 0, payload = [0, 0]\<rparr>),
     loc = (\<lambda>t. if t = 0 then Be_Writer (B_Loop 0 0) else Be_Reader (D_Loop 0))\<rparr>"

definition be_state1 :: "(atom_obj, be_thread) client_state" where
  "be_state1 = be_state0\<lparr>heap := heap be_state0, loc := (loc be_state0)(1 := Be_Reader (D_Gate 0))\<rparr>"

definition be_state2 :: "(atom_obj, be_thread) client_state" where
  "be_state2 = be_state1\<lparr>heap := heap be_state1, loc := (loc be_state1)(1 := Be_Reader (D_Acquire 0))\<rparr>"

definition be_state3 :: "(atom_obj, be_thread) client_state" where
  "be_state3 = be_state2\<lparr>lib := read_lib, heap := heap be_state2, loc := (loc be_state2)(1 := Be_Reader (D_Get 0 1))\<rparr>"

lemma be_state0_start: "be_start 1 2 be_state0"
  using main_lib_reach
  by (auto simp: be_start_def client_start_def be_state0_def main_lib_fields be_initial_def
      run_words inj_on_def numeral_2_eq_2 split: if_splits)

lemma be_state3_reach: "reach (be_start 1 2) (be_step 1 2 0 (\<lambda>_. 0)) be_state3"
proof -
  note be_state0_start
  moreover have "be_step 1 2 0 (\<lambda>_. 0) be_state0 be_state1"
    unfolding be_step_def be_state1_def
    by (rule client_step.Local [where a = 9 and stop = False])
      (simp_all add: be_state0_def main_lib_fields be_local_def be_reader_local_def)
  moreover have "be_step 1 2 0 (\<lambda>_. 0) be_state1 be_state2"
    unfolding be_step_def be_state2_def
    by (rule client_step.Local [where a = 9 and stop = False])
      (simp_all add: be_state1_def be_state0_def main_lib_fields be_local_def be_reader_local_def)
  moreover have "be_step 1 2 0 (\<lambda>_. 0) be_state2 be_state3"
    using client_step.Call [of rc_limit 1 "L_Acquire 0 1" be_state2 read_lib "be_call 1" "Be_Reader (D_Get 0 1)"
        "be_local 1 2 0 (\<lambda>_. 0)"] read_lib_act
    by (simp add: be_step_def be_state3_def be_state2_def be_state1_def be_state0_def be_call_def be_reader_call_def run_words)
  ultimately show ?thesis by (meson reach_init reach_step)
qed


end
