(* ===== verification/Backend_Counts.thy ===== *)
theory Backend_Counts
  imports Bench_Backend
begin

text \<open>
  The counters of \<open>AtomSnapBackend\<close>: \<open>created\<close>, the operations of readers and writers, and
  \<open>g_atomsnap_freed\<close>, which the callback counts up. The steps are those of \<open>Bench_Backend\<close> with
  the atomic additions made where the code makes them, and the callback as \<open>atomsnap_free_cb\<close> is
  written. Whenever the threads rest, the objects freed are as many as were created, so the
  \<open>pending = 0\<close> that \<open>finalize\<close> reports without counting is right; \<open>stop\<close> then destroys the
  gates, and the objects they still hold are never freed.
\<close>

section \<open>Steps with counters\<close>

record be_counters =
  created :: u64
  rops :: u64
  wops :: u64
  g_atomsnap_freed :: u64

definition no_counts :: be_counters where
  "no_counts = \<lparr>created = 0, rops = 0, wops = 0, g_atomsnap_freed = 0\<rparr>"

text \<open>\<open>ctx\<close> is the pool: the block goes back to it.\<close>

definition atomsnap_free_cb ::
  "nat \<Rightarrow> (nat \<Rightarrow> atom_obj option) \<Rightarrow> be_counters \<Rightarrow> (nat \<Rightarrow> atom_obj option) \<times> be_counters" where
  "atomsnap_free_cb ob hp n =
     (if ob \<noteq> 0 then (hp(ob := None), n\<lparr>g_atomsnap_freed := g_atomsnap_freed n + 1\<rparr>) else (hp, n))"

fun be_label :: "rc_label \<Rightarrow> rc_state \<Rightarrow> (nat \<Rightarrow> atom_obj option) \<Rightarrow> be_counters \<Rightarrow> (nat \<Rightarrow> atom_obj option) \<times> be_counters" where
  "be_label (L_Callback h) r hp n = atomsnap_free_cb (obj r h) hp n"
| "be_label _ r hp n = (hp, n)"

text \<open>The additions of the two loops.\<close>

fun be_count :: "be_thread \<Rightarrow> be_counters \<Rightarrow> be_counters" where
  "be_count (Be_Writer (B_Created sh seq)) n = n\<lparr>created := created n + 1\<rparr>"
| "be_count (Be_Writer (B_Wops sh seq)) n = n\<lparr>wops := wops n + 1\<rparr>"
| "be_count (Be_Reader (D_Rops sh)) n = n\<lparr>rops := rops n + 1\<rparr>"
| "be_count _ n = n"

type_synonym be_state = "(atom_obj, be_thread) client_state \<times> be_counters"

inductive be_counted_step :: "nat \<Rightarrow> nat \<Rightarrow> u64 \<Rightarrow> (nat \<Rightarrow> u8) \<Rightarrow> be_state \<Rightarrow> be_state \<Rightarrow> bool"
  for shards payload_bytes interval junk where
  Call:
    "rc_act rc_limit t l (lib s) r \<Longrightarrow> be_call shards (loc s t) l = Some p \<Longrightarrow>
     be_label l (lib s) (heap s) n = (hp, n') \<Longrightarrow>
     be_counted_step shards payload_bytes interval junk (s, n)
       (s\<lparr>lib := r, heap := hp, loc := (loc s)(t := p)\<rparr>, n')"
| Local:
    "pc (lib s) t = Idle \<Longrightarrow> a \<noteq> 0 \<Longrightarrow> heap s a = None \<Longrightarrow>
     be_local shards payload_bytes interval junk stop a (obj (lib s)) (loc s t) (heap s) = (p, hp) \<Longrightarrow>
     be_counted_step shards payload_bytes interval junk (s, n)
       (s\<lparr>heap := hp, loc := (loc s)(t := p)\<rparr>, be_count (loc s t) n)"

definition be_counted_start :: "nat \<Rightarrow> nat \<Rightarrow> be_state \<Rightarrow> bool" where
  "be_counted_start shards payload_bytes x \<longleftrightarrow> be_start shards payload_bytes (fst x) \<and> snd x = no_counts"

text \<open>
  \<open>stop\<close>: the gates are destroyed in order, the vector is cleared and the pool deleted, whose
  destructor does nothing.
\<close>

fun destroy_gates :: "ptr list \<Rightarrow> gstate \<Rightarrow> gstate result" where
  "destroy_gates [] s = Inr s"
| "destroy_gates (g # gs) s = bindE (atomsnap_destroy_gate g s) (destroy_gates gs)"

definition atomsnap_backend_stop :: "ptr list \<Rightarrow> gstate \<Rightarrow> (ptr list \<times> ptr \<times> gstate) result" where
  "atomsnap_backend_stop gates s = bindE (destroy_gates gates s) (\<lambda>s'. Inr ([], 0, s'))"

section \<open>Accounts\<close>

text \<open>A writer between \<open>atomsnap_make_version\<close> and the addition to \<open>created\<close>.\<close>

fun in_round :: "be_thread \<Rightarrow> bool" where
  "in_round (Be_Writer (B_Alloc sh seq nv)) \<longleftrightarrow> True"
| "in_round (Be_Writer (B_Value1 sh seq nv nd)) \<longleftrightarrow> True"
| "in_round (Be_Writer (B_Value2 sh seq nv nd)) \<longleftrightarrow> True"
| "in_round (Be_Writer (B_Payload sh seq nv nd)) \<longleftrightarrow> True"
| "in_round (Be_Writer (B_Set sh seq nv nd)) \<longleftrightarrow> True"
| "in_round (Be_Writer (B_Exchange sh seq nv nd)) \<longleftrightarrow> True"
| "in_round (Be_Writer (B_Created sh seq)) \<longleftrightarrow> True"
| "in_round _ \<longleftrightarrow> False"

fun at_wops :: "be_thread \<Rightarrow> bool" where
  "at_wops (Be_Writer (B_Wops sh seq)) \<longleftrightarrow> True"
| "at_wops _ \<longleftrightarrow> False"

text \<open>How many threads satisfy \<open>P\<close>.\<close>

definition threads_at :: "(be_thread \<Rightarrow> bool) \<Rightarrow> (nat \<Rightarrow> be_thread) \<Rightarrow> nat set" where
  "threads_at P l = {t. P (l t)}"

lemma threads_at_move:
  assumes "finite (threads_at P l)"
  shows "finite (threads_at P (l(t := p)))"
    "card (threads_at P (l(t := p))) + (if P (l t) then 1 else 0) = card (threads_at P l) + (if P p then 1 else 0)"
proof -
  have eq: "threads_at P (l(t := p)) = (if P p then insert t (threads_at P l - {t}) else threads_at P l - {t})"
    by (auto simp: threads_at_def)
  show "finite (threads_at P (l(t := p)))" unfolding eq using assms by simp
  have "card (threads_at P l) = card (threads_at P l - {t}) + (if P (l t) then 1 else 0)"
  proof (cases "P (l t)")
    case True
    then have "t \<in> threads_at P l" by (simp add: threads_at_def)
    with True card_Suc_Diff1 [OF assms] show ?thesis by simp
  next
    case False
    then have "threads_at P l - {t} = threads_at P l" by (auto simp: threads_at_def)
    with False show ?thesis by simp
  qed
  then show "card (threads_at P (l(t := p))) + (if P (l t) then 1 else 0) = card (threads_at P l) + (if P p then 1 else 0)"
    unfolding eq using assms by (simp add: card_insert_disjoint del: insert_Diff_single)
qed

lemma in_round_call:
  "be_call sn p l = Some p' \<Longrightarrow>
   (case l of L_Make h \<Rightarrow> in_round p' \<and> \<not> in_round p | _ \<Rightarrow> in_round p' = in_round p) \<and> at_wops p' = at_wops p"
  by (auto simp: be_call_defs split: be_splits)

lemma in_round_local:
  assumes "be_local sn k interval junk stop a ob p hp = (p', hp')" "\<not> be_failed p'"
  shows "in_round p' \<longleftrightarrow> in_round p \<and> (\<forall>sh seq. p \<noteq> Be_Writer (B_Created sh seq))"
    "at_wops p' \<longleftrightarrow> (\<exists>sh seq. p = Be_Writer (B_Created sh seq))"
  using assms
  by (auto simp: be_local_def be_writer_local_def be_reader_local_def be_failed_def Let_def split: be_splits)

lemma be_count_fields:
  "created (be_count p n) = created n + (if \<exists>sh seq. p = Be_Writer (B_Created sh seq) then 1 else 0)"
  "wops (be_count p n) = wops n + (if at_wops p then 1 else 0)"
  "g_atomsnap_freed (be_count p n) = g_atomsnap_freed n"
  by (cases "(p, n)" rule: be_count.cases; simp)+

text \<open>
  The accounts: what was made and not yet given to the callback is in the gates, or was created
  and not yet freed, or is in the hands of a writer.
\<close>

definition be_accounts :: "nat \<Rightarrow> nat \<Rightarrow> u64 \<Rightarrow> (nat \<Rightarrow> u8) \<Rightarrow> be_state \<Rightarrow> bool" where
  "be_accounts shards payload_bytes interval junk x \<longleftrightarrow> (case x of (s, n) \<Rightarrow>
     reach (be_start shards payload_bytes) (be_step shards payload_bytes interval junk) s \<and>
     finite (threads_at in_round (loc s)) \<and> finite (threads_at at_wops (loc s)) \<and>
     of_nat (made_total (lib s)) + g_atomsnap_freed n =
       of_nat (called_total (lib s)) + of_nat shards + created n + of_nat (card (threads_at in_round (loc s))) \<and>
     created n = wops n + of_nat (card (threads_at at_wops (loc s))))"

lemma accounts_start:
  assumes "be_counted_start shards payload_bytes (s, n)"
  shows "be_accounts shards payload_bytes interval junk (s, n)"
proof -
  from assms have start: "be_start shards payload_bytes s" and n: "n = no_counts" by (simp_all add: be_counted_start_def)
  have run: "reach (be_start shards payload_bytes) (be_step shards payload_bytes interval junk) s"
    using start by (rule reach_init)
  have l: "be_resting (loc s t)" "\<not> in_round (loc s t)" "\<not> at_wops (loc s t)" "pc (lib s) t = Idle" for t
  proof -
    have "loc s t \<in> range (\<lambda>wid. Be_Writer (B_Loop (wid mod shards) 0)) \<union> range (\<lambda>rid. Be_Reader (D_Loop (rid mod shards)))"
      "pc (lib s) t = Idle" using start unfolding be_start_def client_start_def by blast+
    then show "be_resting (loc s t)" "\<not> in_round (loc s t)" "\<not> at_wops (loc s t)" "pc (lib s) t = Idle" by auto
  qed
  have "made_total (lib s) = called_total (lib s) + shards"
    using backend.rest_totals [OF be_reach [OF run] l(4) be_resting_view [OF l(1)]] by simp
  with run l show ?thesis by (simp add: be_accounts_def threads_at_def n no_counts_def)
qed

lemma callback_frees:
  assumes run: "reach (be_start shards payload_bytes) (be_step shards payload_bytes interval junk) s"
    and act: "rc_act rc_limit t l (lib s) r" and lab: "be_label l (lib s) (heap s) n = (hp, n')"
  shows "hp = label_heap l (lib s) (heap s)"
    "n' = n\<lparr>g_atomsnap_freed := g_atomsnap_freed n + (case l of L_Callback h \<Rightarrow> 1 | _ \<Rightarrow> 0)\<rparr>"
proof -
  have "obj (lib s) h \<noteq> 0" if "l = L_Callback h" for h
    using backend.callback_object [OF be_reach [OF run] act [unfolded that]] by simp
  with lab show "hp = label_heap l (lib s) (heap s)"
    "n' = n\<lparr>g_atomsnap_freed := g_atomsnap_freed n + (case l of L_Callback h \<Rightarrow> 1 | _ \<Rightarrow> 0)\<rparr>"
    by (cases l; auto simp: atomsnap_free_cb_def)+
qed

lemma accounts_call:
  assumes acc: "be_accounts shards payload_bytes interval junk (s, n)"
    and act: "rc_act rc_limit t l (lib s) r" and call: "be_call shards (loc s t) l = Some p"
    and lab: "be_label l (lib s) (heap s) n = (hp, n')"
  shows "be_accounts shards payload_bytes interval junk (s\<lparr>lib := r, heap := hp, loc := (loc s)(t := p)\<rparr>, n')"
proof -
  note a = acc [unfolded be_accounts_def prod.case]
  note n' = callback_frees [OF a [THEN conjunct1] act lab]
  have step: "be_step shards payload_bytes interval junk s (s\<lparr>lib := r, heap := hp, loc := (loc s)(t := p)\<rparr>)"
    unfolding be_step_def n'(1) by (rule client_step.Call) (rule act call)+
  note move = threads_at_move [of _ "loc s" t p]
  note tot = act_totals [OF act] and rd = in_round_call [OF call]
  have w: "card (threads_at at_wops ((loc s)(t := p))) = card (threads_at at_wops (loc s))"
    using move(2) [of at_wops] a rd by simp
  have "of_nat (made_total r) + g_atomsnap_freed n' = of_nat (called_total r) + of_nat shards + created n' +
      of_nat (card (threads_at in_round ((loc s)(t := p))))"
  proof (cases "\<exists>h. l = L_Make h")
    case True
    then obtain h where "l = L_Make h" by blast
    with rd move(2) [of in_round] a tot n'(2) show ?thesis by simp
  next
    case False
    with rd have "in_round p = in_round (loc s t)" by (auto split: rc_label.splits)
    then have "card (threads_at in_round ((loc s)(t := p))) = card (threads_at in_round (loc s))"
      using move(2) [of in_round] a by simp
    with a tot n'(2) False show ?thesis by (cases l) simp_all
  qed
  moreover have "created n' = created n" "wops n' = wops n" by (simp_all add: n'(2))
  ultimately show ?thesis
    using a w move(1) reach_step [OF a [THEN conjunct1] step] by (simp add: be_accounts_def)
qed

lemma accounts_local:
  assumes acc: "be_accounts shards payload_bytes interval junk (s, n)"
    and idle: "pc (lib s) t = Idle" and addr: "a \<noteq> 0" "heap s a = None"
    and step: "be_local shards payload_bytes interval junk stop a (obj (lib s)) (loc s t) (heap s) = (p, hp)"
  shows "be_accounts shards payload_bytes interval junk (s\<lparr>heap := hp, loc := (loc s)(t := p)\<rparr>, be_count (loc s t) n)"
    (is "be_accounts _ _ _ _ (?s', _)")
proof -
  note a = acc [unfolded be_accounts_def prod.case]
  have "be_step shards payload_bytes interval junk s ?s'"
    unfolding be_step_def by (rule client_step.Local) (rule idle addr step)+
  then have run: "reach (be_start shards payload_bytes) (be_step shards payload_bytes interval junk) ?s'"
    by (rule reach_step [OF a [THEN conjunct1]])
  have "\<not> be_failed p" using backend.never_fails [OF be_reach [OF run], of t] by simp
  note rd = in_round_local [OF step this]
  note move = threads_at_move [of _ "loc s" t p]
  show ?thesis
  proof (cases "\<exists>sh seq. loc s t = Be_Writer (B_Created sh seq)")
    case True
    then have at: "in_round (loc s t)" "\<not> at_wops (loc s t)" "\<not> in_round p" "at_wops p" using rd by auto
    then have "card (threads_at in_round (loc s)) = Suc (card (threads_at in_round ((loc s)(t := p))))"
      "card (threads_at at_wops ((loc s)(t := p))) = Suc (card (threads_at at_wops (loc s)))"
      using a move(2) [of in_round] move(2) [of at_wops] by simp_all
    with True at(2) a run move(1) [of in_round] move(1) [of at_wops] show ?thesis
      by (simp add: be_accounts_def be_count_fields)
  next
    case False
    then have "in_round p = in_round (loc s t)" "\<not> at_wops p" using rd by auto
    then have "card (threads_at in_round ((loc s)(t := p))) = card (threads_at in_round (loc s))"
      "card (threads_at at_wops (loc s)) = card (threads_at at_wops ((loc s)(t := p))) + (if at_wops (loc s t) then 1 else 0)"
      using a move(2) [of in_round] move(2) [of at_wops] by simp_all
    with False a run move(1) [of in_round] move(1) [of at_wops] show ?thesis
      by (cases "at_wops (loc s t)") (simp_all add: be_accounts_def be_count_fields)
  qed
qed

interpretation accounts: inductive_invariant "be_counted_start shards payload_bytes"
  "be_counted_step shards payload_bytes interval junk" "be_accounts shards payload_bytes interval junk"
proof
  show "be_accounts shards payload_bytes interval junk x" if "be_counted_start shards payload_bytes x" for x
    using that accounts_start by (cases x) simp
  show "be_accounts shards payload_bytes interval junk y"
    if inv: "be_accounts shards payload_bytes interval junk x"
      and step: "be_counted_step shards payload_bytes interval junk x y" for x y
    using step
  proof cases
    case (Call t l s r p n hp n')
    with inv show ?thesis using accounts_call by blast
  next
    case (Local s t a stop p hp n)
    with inv show ?thesis using accounts_local by blast
  qed
qed

text \<open>
  Claim C11. Whenever no call is under way and every thread of the atomsnap back end is between
  two rounds of its loop or past it, the callback has freed as many objects as were created, which
  are as many as the writers' operations, in the code's 64-bit counters: the \<open>pending = 0\<close> that
  the results give without counting is the difference of the two.
\<close>

theorem backend_accounts:
  assumes "reach (be_counted_start shards payload_bytes) (be_counted_step shards payload_bytes interval junk) (s, n)"
    "\<forall>u. pc (lib s) u = Idle \<and> be_resting (loc s u)"
  shows "g_atomsnap_freed n = created n \<and> created n = wops n"
proof -
  have acc: "be_accounts shards payload_bytes interval junk (s, n)" by (rule accounts.inv_reach [OF assms(1)])
  have "\<not> in_round p \<and> \<not> at_wops p" if "be_resting p" for p using that by (cases p rule: be_resting.cases) auto
  then have none: "threads_at in_round (loc s) = {}" "threads_at at_wops (loc s) = {}"
    using assms(2) by (auto simp: threads_at_def)
  have "made_total (lib s) = called_total (lib s) + shards"
    using backend.rest_totals [OF be_reach, of shards payload_bytes interval junk s] acc be_resting_view assms(2)
    by (simp add: be_accounts_def)
  with acc show ?thesis by (simp add: be_accounts_def none)
qed

section \<open>Stopping\<close>

lemma destroy_gates_spec:
  assumes "distinct gs" "\<And>g. g \<in> set gs \<Longrightarrow> g \<noteq> 0 \<and> gate_heap s g \<noteq> None"
  shows "destroy_gates gs s = Inr (s\<lparr>gate_heap := (\<lambda>g. if g \<in> set gs then None else gate_heap s g)\<rparr>)"
  using assms
proof (induction gs arbitrary: s)
  case (Cons g gs)
  let ?s1 = "s\<lparr>gate_heap := (gate_heap s)(g := None)\<rparr>"
  obtain x where "g \<noteq> 0" "gate_heap s g = Some x" using Cons.prems(2) [of g] by auto
  then have "atomsnap_destroy_gate g s = Inr ?s1" by (simp add: atomsnap_destroy_gate_def gate_read_def)
  moreover have "destroy_gates gs ?s1 = Inr (?s1\<lparr>gate_heap := (\<lambda>h. if h \<in> set gs then None else gate_heap ?s1 h)\<rparr>)"
    by (rule Cons.IH) (use Cons.prems in auto)
  moreover have "(\<lambda>h. if h \<in> set gs then None else gate_heap ?s1 h) = (\<lambda>h. if h \<in> set (g # gs) then None else gate_heap s h)"
    by auto
  ultimately show ?case by simp
qed simp

text \<open>
  \<open>stop\<close> returns with every gate gone; the callback is not called and the versions in the gates
  keep their slots.
\<close>

lemma backend_stop_leaks:
  assumes "distinct gates" "\<And>g. g \<in> set gates \<Longrightarrow> g \<noteq> 0 \<and> gate_heap s g \<noteq> None"
  obtains s' where "atomsnap_backend_stop gates s = Inr ([], 0, s')" "\<And>g. g \<in> set gates \<Longrightarrow> gate_heap s' g = None"
    "free_log s' = free_log s" "arena_heap s' = arena_heap s" "in_use ctx s' = in_use ctx s"
proof -
  let ?s' = "s\<lparr>gate_heap := (\<lambda>g. if g \<in> set gates then None else gate_heap s g)\<rparr>"
  have "atomsnap_backend_stop gates s = Inr ([], 0, ?s')"
    using destroy_gates_spec [OF assms] by (simp add: atomsnap_backend_stop_def)
  moreover have "in_use ctx ?s' = in_use ctx s" by (simp add: in_use_def arena_at_def local_stack_def)
  ultimately show thesis by (intro that [of ?s']) simp_all
qed

section \<open>A round of a writer\<close>

text \<open>
  One shard and a payload of two bytes: thread 0 makes version 2 with an object at address 9 and
  exchanges it for version 1, whose object the callback frees.
\<close>

definition demo :: "rc_state \<Rightarrow> (nat \<Rightarrow> atom_obj option) \<Rightarrow> be_writer \<Rightarrow> be_counters \<Rightarrow> bool" where
  "demo r hp w n \<longleftrightarrow> reach (be_counted_start 1 2) (be_counted_step 1 2 0 (\<lambda>_. 0))
     (\<lparr>lib = r, heap = hp, loc = (loc be_state0)(0 := Be_Writer w)\<rparr>, n)"

lemma demo_local:
  assumes "demo r hp w n" "a \<noteq> 0" "pc r 0 = Idle" "hp a = None"
    "be_writer_local 1 2 0 (\<lambda>_. 0) False a w hp = (w', hp')" "be_count (Be_Writer w) n = n'"
  shows "demo r hp' w' n'"
proof -
  let ?s = "\<lparr>lib = r, heap = hp, loc = (loc be_state0)(0 := Be_Writer w)\<rparr>"
  have "be_counted_step 1 2 0 (\<lambda>_. 0) (?s, n) (?s\<lparr>heap := hp', loc := (loc ?s)(0 := Be_Writer w')\<rparr>, be_count (loc ?s 0) n)"
    by (rule be_counted_step.Local [where a = a and stop = False]) (use assms(2-5) in \<open>simp_all add: be_local_def\<close>)
  with assms(1,6) reach_step show ?thesis unfolding demo_def by fastforce
qed

lemma demo_call:
  assumes "demo r hp w n" "rc_act rc_limit 0 l r r'" "be_writer_call 1 w l = Some w'" "be_label l r hp n = (hp', n')"
  shows "demo r' hp' w' n'"
proof -
  let ?s = "\<lparr>lib = r, heap = hp, loc = (loc be_state0)(0 := Be_Writer w)\<rparr>"
  have "be_counted_step 1 2 0 (\<lambda>_. 0) (?s, n) (?s\<lparr>lib := r', heap := hp', loc := (loc ?s)(0 := Be_Writer w')\<rparr>, n')"
    by (rule be_counted_step.Call) (use assms(2-4) in \<open>simp_all add: be_call_def\<close>)
  with assms(1) reach_step show ?thesis unfolding demo_def by fastforce
qed

definition demo_made :: rc_state where
  "demo_made = main_lib\<lparr>status := (status main_lib)(2 := Private 0), inner := (inner main_lib)(2 := 0),
     obj := (obj main_lib)(2 := 9), allocs := (allocs main_lib)(2 := Suc (allocs main_lib 2))\<rparr>"

lemma demo_start: "demo main_lib (heap be_state0) (B_Loop 0 0) no_counts"
proof -
  note be_state0_start
  moreover have "be_state0 = \<lparr>lib = main_lib, heap = heap be_state0, loc = (loc be_state0)(0 := Be_Writer (B_Loop 0 0))\<rparr>"
    by (simp add: be_state0_def fun_eq_iff)
  ultimately show ?thesis unfolding demo_def by (intro reach_init) (simp add: be_counted_start_def)
qed

lemma demo_written:
  "demo demo_made ((heap be_state0)(9 := Some \<lparr>v1 = Some 1, v2 = Some 1, payload = [1, 0]\<rparr>)) (B_Exchange 0 1 2 9) no_counts"
proof -
  let ?hp = "heap be_state0"
  let ?r = "main_lib\<lparr>status := (status main_lib)(2 := Private 0), inner := (inner main_lib)(2 := 0),
     obj := (obj main_lib)(2 := 0), allocs := (allocs main_lib)(2 := Suc (allocs main_lib 2))\<rparr>"
  note sim = be_writer_local_def be_state0_def main_lib_fields block_from_pool_def write_payload_def numeral_2_eq_2
  have "demo main_lib ?hp (B_Gate 0 0) no_counts"
    by (rule demo_local [OF demo_start, of 10]) (simp_all add: sim)
  then have "demo main_lib ?hp (B_Make 0 0) no_counts"
    by (rule demo_local [of _ _ _ _ 10]) (simp_all add: sim)
  then have "demo ?r ?hp (B_Alloc 0 0 2) no_counts"
    by (rule demo_call [OF _ rc_act.Make]) (simp_all add: be_writer_call_def main_lib_fields HANDLE_NULL_def)
  then have "demo ?r (?hp(9 := Some \<lparr>v1 = None, v2 = None, payload = [0, 0]\<rparr>)) (B_Value1 0 1 2 9) no_counts"
    by (rule demo_local [of _ _ _ _ 9]) (simp_all add: sim)
  then have "demo ?r (?hp(9 := Some \<lparr>v1 = Some 1, v2 = None, payload = [0, 0]\<rparr>)) (B_Value2 0 1 2 9) no_counts"
    by (rule demo_local [of _ _ _ _ 10]) (simp_all add: sim)
  then have "demo ?r (?hp(9 := Some \<lparr>v1 = Some 1, v2 = Some 1, payload = [0, 0]\<rparr>)) (B_Payload 0 1 2 9) no_counts"
    by (rule demo_local [of _ _ _ _ 10]) (simp_all add: sim)
  then have d: "demo ?r (?hp(9 := Some \<lparr>v1 = Some 1, v2 = Some 1, payload = [1, 0]\<rparr>)) (B_Set 0 1 2 9) no_counts"
    by (rule demo_local [of _ _ _ _ 10]) (simp_all add: sim)
  have "rc_act rc_limit 0 (L_Set 2 9) ?r (?r\<lparr>obj := (obj ?r)(2 := 9)\<rparr>)"
    by (rule rc_act.Set_Object) (simp_all add: main_lib_fields)
  moreover have "?r\<lparr>obj := (obj ?r)(2 := 9)\<rparr> = demo_made" by (simp add: demo_made_def)
  ultimately have "rc_act rc_limit 0 (L_Set 2 9) ?r demo_made" by (simp only:)
  with d show ?thesis by (rule demo_call) (simp_all add: be_writer_call_def)
qed

lemma demo_exchanged:
  obtains r where "demo r ((heap be_state0)(9 := Some \<lparr>v1 = Some 1, v2 = Some 1, payload = [1, 0]\<rparr>, 5 := None))
      (B_Created 0 1) (no_counts\<lparr>g_atomsnap_freed := 1\<rparr>)" "pc r = (\<lambda>_. Idle)"
proof -
  let ?hp = "(heap be_state0)(9 := Some \<lparr>v1 = Some 1, v2 = Some 1, payload = [1, 0]\<rparr>)"
  let ?w = "pack32 0 INNER_F_DETACHED"
  define r1 where "r1 = demo_made\<lparr>cbs := (cbs demo_made)(0 := ucast (2 :: u32)),
    status := put_in 0 2 (take_out 0 (cbs demo_made 0) (status demo_made)),
    pc := (pc demo_made)(0 := after_exchange (cbs demo_made 0))\<rparr>"
  define r2 where "r2 = r1\<lparr>pc := (pc r1)(0 := Det_Cas 1 0 (inner r1 1))\<rparr>"
  define r3 where "r3 = r2\<lparr>inner := (inner r2)(1 := ?w), status := (status r2)(1 := if finalize_due ?w then Finalizing 0 else Detached),
    pc := (pc r2)(0 := after_adjust 1 ?w)\<rparr>"
  define r4 where "r4 = r3\<lparr>inner := (inner r3)(1 := inner r3 1 OR ucast INNER_F_FINALIZED),
    pc := (pc r3)(0 := if inner_flags (inner r3 1) AND INNER_F_FINALIZED \<noteq> 0 then Aborted else Fin_Call 1)\<rparr>"
  define r5 where "r5 = r4\<lparr>calls := (calls r4)(1 := obj r4 1 # calls r4 1), pc := (pc r4)(0 := Fin_Free 1)\<rparr>"
  define r6 where "r6 = r5\<lparr>status := (status r5)(1 := Unused), pc := (pc r5)(0 := Idle)\<rparr>"
  have made: "pc demo_made = (\<lambda>_. Idle)" "cbs demo_made 0 = pack32 0 1" "inner demo_made 1 = 0" "obj demo_made 1 = 5"
    "status demo_made 2 = Private 0"
    by (simp_all add: demo_made_def main_lib_def run2_fields)
  have due: "finalize_due ?w" by (simp add: finalize_due_pack const_defs)
  have r1: "pc r1 0 = Det_Load 1 0" "inner r1 1 = 0" by (simp_all add: r1_def made after_exchange_def HANDLE_NULL_def)
  have r3: "pc r3 0 = Fin_Or 1" "inner r3 1 = ?w" by (simp_all add: r3_def r2_def due after_adjust_def)
  have "INNER_F_DETACHED AND INNER_F_FINALIZED = 0" by (simp add: const_defs)
  then have r4: "pc r4 0 = Fin_Call 1" "obj r4 1 = 5"
    by (simp_all add: r4_def r3) (simp add: r3_def r2_def r1_def made)
  have "rc_act rc_limit 0 (L_Exchange 0 2) demo_made r1"
    unfolding r1_def by (rule rc_act.Exchange) (simp_all add: made may_install_def)
  from demo_call [OF demo_written this] have "demo r1 ?hp (B_Created 0 1) no_counts" by (simp add: be_writer_call_def)
  moreover have "rc_act rc_limit 0 L_Tau r1 r2" unfolding r2_def by (rule rc_act.Detach_Load [OF r1(1)])
  ultimately have "demo r2 ?hp (B_Created 0 1) no_counts" by (rule demo_call) (simp_all add: be_writer_call_def)
  moreover have "rc_act rc_limit 0 L_Tau r2 r3"
    unfolding r3_def by (rule rc_act.Detach_Ok [of _ _ _ 0 "inner r1 1"])
      (use r1(2) detach_next_pack [of 0 0 0] in \<open>simp_all add: r2_def\<close>)
  ultimately have "demo r3 ?hp (B_Created 0 1) no_counts" by (rule demo_call) (simp_all add: be_writer_call_def)
  moreover have "rc_act rc_limit 0 L_Tau r3 r4" unfolding r4_def by (rule rc_act.Claim [OF r3(1)]) simp
  ultimately have "demo r4 ?hp (B_Created 0 1) no_counts" by (rule demo_call) (simp_all add: be_writer_call_def)
  moreover have "rc_act rc_limit 0 (L_Callback 1) r4 r5" unfolding r5_def by (rule rc_act.Callback [OF r4(1)])
  ultimately have "demo r5 (?hp(5 := None)) (B_Created 0 1) (no_counts\<lparr>g_atomsnap_freed := 1\<rparr>)"
    by (rule demo_call) (simp_all add: be_writer_call_def atomsnap_free_cb_def r4(2) no_counts_def)
  moreover have "rc_act rc_limit 0 L_Tau r5 r6" unfolding r6_def by (rule rc_act.Free_Slot) (simp add: r5_def)
  ultimately have "demo r6 (?hp(5 := None)) (B_Created 0 1) (no_counts\<lparr>g_atomsnap_freed := 1\<rparr>)"
    by (rule demo_call) (simp_all add: be_writer_call_def)
  moreover have "pc r6 = (\<lambda>_. Idle)" by (auto simp: r6_def r5_def r4_def r3_def r2_def r1_def made)
  ultimately show thesis by (rule that)
qed

theorem backend_accounts_witness:
  "\<exists>s n. reach (be_counted_start 1 2) (be_counted_step 1 2 0 (\<lambda>_. 0)) (s, n) \<and> loc s 0 = Be_Writer (B_Loop 0 1) \<and>
     heap s 5 = None \<and> created n = 1 \<and> g_atomsnap_freed n = created n \<and> created n = wops n"
proof -
  let ?hp = "(heap be_state0)(9 := Some \<lparr>v1 = Some 1, v2 = Some 1, payload = [1, 0]\<rparr>, 5 := None)"
  let ?n = "no_counts\<lparr>g_atomsnap_freed := 1, created := 1\<rparr>"
  obtain r where r: "demo r ?hp (B_Created 0 1) (no_counts\<lparr>g_atomsnap_freed := 1\<rparr>)" "pc r = (\<lambda>_. Idle)"
    by (rule demo_exchanged)
  have "demo r ?hp (B_Wops 0 1) ?n"
    by (rule demo_local [OF r(1), of 10])
      (simp_all add: r(2) be_writer_local_def next_shard_def be_state0_def no_counts_def)
  then have "demo r ?hp (B_Loop 0 1) (?n\<lparr>wops := 1\<rparr>)"
    by (rule demo_local [of _ _ _ _ 10]) (simp_all add: r(2) be_writer_local_def be_state0_def no_counts_def)
  then have run: "reach (be_counted_start 1 2) (be_counted_step 1 2 0 (\<lambda>_. 0))
      (\<lparr>lib = r, heap = ?hp, loc = (loc be_state0)(0 := Be_Writer (B_Loop 0 1))\<rparr>, ?n\<lparr>wops := 1\<rparr>)"
    by (simp add: demo_def)
  moreover from backend_accounts [OF run] have "g_atomsnap_freed (?n\<lparr>wops := 1\<rparr>) = created (?n\<lparr>wops := 1\<rparr>) \<and>
      created (?n\<lparr>wops := 1\<rparr>) = wops (?n\<lparr>wops := 1\<rparr>)" by (simp add: r(2) be_state0_def)
  ultimately show ?thesis by (intro exI conjI) auto
qed

end
