(* ===== verification/Pool_Allocator.thy ===== *)
theory Pool_Allocator
  imports Prelude
begin

text \<open>
  The block allocator that the programs \<open>shared_ptr_example.cpp\<close> of the first benchmark put under
  \<open>std::shared_ptr\<close>: every thread owns an arena with a private list and a shared list, a block
  goes back to the shared list of the thread that first allocated it, and the owner takes that
  list over as a whole. The theory models \<open>GlobalArenaPool\<close>, \<open>allocate\<close> and \<open>deallocate\<close> with one
  step per access to shared memory, and shows that a block is never handed out twice, that it
  always belongs to the thread that gets it, and that none is lost.
\<close>

section \<open>State and steps\<close>

text \<open>\<open>struct PoolBlock\<close> and \<open>struct ThreadArena\<close>; pointers are numbers, 0 is \<open>nullptr\<close>.\<close>

record pool_block =
  next_block :: nat
  owner_tid :: u32

record thread_arena =
  shared_head :: nat
  local_head :: nat

definition kMaxThreads :: nat where
  "kMaxThreads = 128"

text \<open>The pointer the caller sees is behind the header: \<open>block + 1\<close>, and back.\<close>

definition user_ptr :: "nat \<Rightarrow> nat" where
  "user_ptr b = b + 16"

definition block_of :: "nat \<Rightarrow> nat" where
  "block_of p = p - 16"

text \<open>
  Where a thread is: in \<open>allocate\<close> with its thread id, before the test of the local list, between
  reading its head and moving it on, before the exchange, after it with the list it got, before
  \<open>operator new\<close>; in \<open>deallocate\<close> with block, owner and expected head, before storing the link
  and before the compare-and-swap. \<open>P_Out_Of_Bounds\<close> is an access to \<open>arenas\<close> behind its end,
  \<open>P_Fault\<close> one to a block that does not exist.
\<close>

datatype pool_pc =
    P_Idle
  | P_Local u32
  | P_Pop u32 nat
  | P_Exchange u32
  | P_Stolen u32 nat
  | P_New u32
  | P_Link nat u32 nat
  | P_Cas nat u32 nat
  | P_Out_Of_Bounds
  | P_Fault

text \<open>
  \<open>my_tid\<close> joins the thread-local variables \<open>tid_initialized\<close> and \<open>my_tid\<close>. \<open>used\<close> are the
  pointers the program got for one element and has not given back, \<open>plain\<close> those for several,
  which bypass the pool.
\<close>

record pool_state =
  blocks :: "nat \<Rightarrow> pool_block option"
  arenas :: "u32 \<Rightarrow> thread_arena"
  tid_counter :: u32
  my_tid :: "nat \<Rightarrow> u32 option"
  ppc :: "nat \<Rightarrow> pool_pc"
  used :: "nat set"
  plain :: "nat set"

datatype pool_event = Returns nat nat | Gives nat nat | Internal

definition get_tid :: "nat \<Rightarrow> pool_state \<Rightarrow> u32 \<times> pool_state" where
  "get_tid t s = (case my_tid s t of
     Some i \<Rightarrow> (i, s)
   | None \<Rightarrow> (tid_counter s, s\<lparr>tid_counter := tid_counter s + 1, my_tid := (my_tid s)(t \<mapsto> tid_counter s)\<rparr>))"

definition in_arenas :: "u32 \<Rightarrow> pool_pc \<Rightarrow> pool_pc" where
  "in_arenas i q = (if unat i < kMaxThreads then q else P_Out_Of_Bounds)"

text \<open>
  Steps of thread \<open>t\<close>; \<open>N\<close> is the number of threads of the program. \<open>allocate (1)\<close> is
  \<open>Get_Tid\<close> to \<open>New\<close>, \<open>deallocate (p, 1)\<close> is \<open>Dealloc\<close> to \<open>Cas_Ok\<close>; the rules \<open>Plain\<close>,
  \<open>Delete\<close> and \<open>Null\<close> are their other branches. The compare-and-swap may fail without cause, and
  a block from \<open>operator new\<close> has an arbitrary link.
\<close>

inductive pool_act :: "nat \<Rightarrow> nat \<Rightarrow> pool_event \<Rightarrow> pool_state \<Rightarrow> pool_state \<Rightarrow> bool" for N :: nat where
  Plain:
    "t < N \<Longrightarrow> ppc s t = P_Idle \<Longrightarrow> n > 1 \<Longrightarrow> p \<noteq> 0 \<Longrightarrow> p \<notin> plain s \<Longrightarrow> p \<notin> user_ptr ` dom (blocks s) \<Longrightarrow>
     pool_act N t (Returns n p) s (s\<lparr>plain := insert p (plain s)\<rparr>)"
| Get_Tid:
    "t < N \<Longrightarrow> ppc s t = P_Idle \<Longrightarrow> get_tid t s = (i, s1) \<Longrightarrow>
     pool_act N t Internal s (s1\<lparr>ppc := (ppc s)(t := in_arenas i (P_Local i))\<rparr>)"
| Local:
    "t < N \<Longrightarrow> ppc s t = P_Local i \<Longrightarrow> b = local_head (arenas s i) \<Longrightarrow>
     pool_act N t Internal s (s\<lparr>ppc := (ppc s)(t := if b \<noteq> 0 then P_Pop i b else P_Exchange i)\<rparr>)"
| Pop:
    "t < N \<Longrightarrow> ppc s t = P_Pop i b \<Longrightarrow> blocks s b = Some k \<Longrightarrow>
     pool_act N t (Returns 1 (user_ptr b)) s
       (s\<lparr>arenas := (arenas s)(i := (arenas s i)\<lparr>local_head := next_block k\<rparr>),
          used := insert (user_ptr b) (used s), ppc := (ppc s)(t := P_Idle)\<rparr>)"
| Pop_Fault:
    "t < N \<Longrightarrow> ppc s t = P_Pop i b \<Longrightarrow> blocks s b = None \<Longrightarrow>
     pool_act N t Internal s (s\<lparr>ppc := (ppc s)(t := P_Fault)\<rparr>)"
| Exchange:
    "t < N \<Longrightarrow> ppc s t = P_Exchange i \<Longrightarrow> stolen = shared_head (arenas s i) \<Longrightarrow>
     pool_act N t Internal s
       (s\<lparr>arenas := (arenas s)(i := (arenas s i)\<lparr>shared_head := 0\<rparr>),
          ppc := (ppc s)(t := if stolen \<noteq> 0 then P_Stolen i stolen else P_New i)\<rparr>)"
| Stolen:
    "t < N \<Longrightarrow> ppc s t = P_Stolen i b \<Longrightarrow> blocks s b = Some k \<Longrightarrow>
     pool_act N t (Returns 1 (user_ptr b)) s
       (s\<lparr>arenas := (arenas s)(i := (arenas s i)\<lparr>local_head := next_block k\<rparr>),
          used := insert (user_ptr b) (used s), ppc := (ppc s)(t := P_Idle)\<rparr>)"
| Stolen_Fault:
    "t < N \<Longrightarrow> ppc s t = P_Stolen i b \<Longrightarrow> blocks s b = None \<Longrightarrow>
     pool_act N t Internal s (s\<lparr>ppc := (ppc s)(t := P_Fault)\<rparr>)"
| New:
    "t < N \<Longrightarrow> ppc s t = P_New i \<Longrightarrow> b \<noteq> 0 \<Longrightarrow> blocks s b = None \<Longrightarrow> user_ptr b \<notin> plain s \<Longrightarrow>
     pool_act N t (Returns 1 (user_ptr b)) s
       (s\<lparr>blocks := (blocks s)(b \<mapsto> \<lparr>next_block = junk, owner_tid = i\<rparr>),
          used := insert (user_ptr b) (used s), ppc := (ppc s)(t := P_Idle)\<rparr>)"
| Null:
    "t < N \<Longrightarrow> ppc s t = P_Idle \<Longrightarrow> pool_act N t (Gives 0 n) s s"
| Delete:
    "t < N \<Longrightarrow> ppc s t = P_Idle \<Longrightarrow> n > 1 \<Longrightarrow> p \<in> plain s \<Longrightarrow>
     pool_act N t (Gives p n) s (s\<lparr>plain := plain s - {p}\<rparr>)"
| Dealloc:
    "t < N \<Longrightarrow> ppc s t = P_Idle \<Longrightarrow> p \<in> used s \<Longrightarrow> b = block_of p \<Longrightarrow> blocks s b = Some k \<Longrightarrow> i = owner_tid k \<Longrightarrow>
     pool_act N t (Gives p 1) s
       (s\<lparr>used := used s - {p},
          ppc := (ppc s)(t := in_arenas i (P_Link b i (shared_head (arenas s i))))\<rparr>)"
| Dealloc_Fault:
    "t < N \<Longrightarrow> ppc s t = P_Idle \<Longrightarrow> p \<in> used s \<Longrightarrow> blocks s (block_of p) = None \<Longrightarrow>
     pool_act N t (Gives p 1) s (s\<lparr>ppc := (ppc s)(t := P_Fault)\<rparr>)"
| Link:
    "t < N \<Longrightarrow> ppc s t = P_Link b i h \<Longrightarrow> blocks s b = Some k \<Longrightarrow>
     pool_act N t Internal s
       (s\<lparr>blocks := (blocks s)(b \<mapsto> k\<lparr>next_block := h\<rparr>), ppc := (ppc s)(t := P_Cas b i h)\<rparr>)"
| Cas_Fail:
    "t < N \<Longrightarrow> ppc s t = P_Cas b i h \<Longrightarrow>
     pool_act N t Internal s (s\<lparr>ppc := (ppc s)(t := P_Link b i (shared_head (arenas s i)))\<rparr>)"
| Cas_Ok:
    "t < N \<Longrightarrow> ppc s t = P_Cas b i h \<Longrightarrow> shared_head (arenas s i) = h \<Longrightarrow>
     pool_act N t Internal s
       (s\<lparr>arenas := (arenas s)(i := (arenas s i)\<lparr>shared_head := b\<rparr>), ppc := (ppc s)(t := P_Idle)\<rparr>)"

definition pools_step :: "nat \<Rightarrow> pool_state \<Rightarrow> pool_state \<Rightarrow> bool" where
  "pools_step N s s' \<longleftrightarrow> (\<exists>t e. pool_act N t e s s')"

definition pools_init :: "pool_state \<Rightarrow> bool" where
  "pools_init s \<longleftrightarrow>
     blocks s = Map.empty \<and> (\<forall>i. arenas s i = \<lparr>shared_head = 0, local_head = 0\<rparr>) \<and> tid_counter s = 0 \<and>
     my_tid s = Map.empty \<and> (\<forall>t. ppc s t = P_Idle) \<and> used s = {} \<and> plain s = {}"

section \<open>Lists of blocks\<close>

text \<open>
  \<open>place\<close> says where each block is; a list of the allocator is well formed if it runs through
  exactly the blocks that are in its place, each of them once.
\<close>

datatype place = Nowhere | In_Use | Freeing nat | In_Local u32 | In_Shared u32 | In_Stolen u32

fun block_chain :: "(nat \<Rightarrow> pool_block option) \<Rightarrow> nat \<Rightarrow> nat list \<Rightarrow> bool" where
  "block_chain bl p [] \<longleftrightarrow> p = 0"
| "block_chain bl p (x # xs) \<longleftrightarrow>
     p = x \<and> x \<noteq> 0 \<and> (case bl x of None \<Rightarrow> False | Some k \<Rightarrow> block_chain bl (next_block k) xs)"

definition listed :: "(nat \<Rightarrow> pool_block option) \<Rightarrow> (nat \<Rightarrow> place) \<Rightarrow> place \<Rightarrow> nat \<Rightarrow> bool" where
  "listed bl pl q p \<longleftrightarrow> (\<exists>xs. block_chain bl p xs \<and> distinct xs \<and> set xs = {b. pl b = q})"

lemma block_chain_frame: "(\<And>b. b \<in> set xs \<Longrightarrow> bl' b = bl b) \<Longrightarrow> block_chain bl' p xs = block_chain bl p xs"
  by (induction xs arbitrary: p) (auto split: option.splits)

lemma listed_frame:
  assumes "listed bl pl q p" "\<And>b. pl' b = q' \<longleftrightarrow> pl b = q" "\<And>b. pl b = q \<Longrightarrow> bl' b = bl b"
  shows "listed bl' pl' q' p"
proof -
  obtain xs where "block_chain bl p xs" "distinct xs" "set xs = {b. pl b = q}"
    using assms(1) by (auto simp: listed_def)
  with assms(2,3) block_chain_frame [of xs bl' bl p] show ?thesis by (auto simp: listed_def)
qed

lemma listed_empty: "\<forall>b. pl b \<noteq> q \<Longrightarrow> listed bl pl q 0"
  by (auto simp: listed_def intro: exI [of _ "[]"])

lemma listedE:
  assumes "listed bl pl q p"
  obtains xs where "block_chain bl p xs" "distinct xs" "\<And>b. b \<in> set xs \<longleftrightarrow> pl b = q"
  using assms by (auto simp: listed_def)

lemma listedI: "block_chain bl p xs \<Longrightarrow> distinct xs \<Longrightarrow> (\<And>b. b \<in> set xs \<longleftrightarrow> pl b = q) \<Longrightarrow> listed bl pl q p"
  by (auto simp: listed_def)

lemma listed_nil:
  assumes "listed bl pl q 0"
  shows "pl b \<noteq> q"
proof -
  obtain xs where "block_chain bl 0 xs" "distinct xs" "\<And>b. b \<in> set xs \<longleftrightarrow> pl b = q" using listedE [OF assms] by metis
  then show ?thesis by (cases xs) auto
qed

lemma listed_head:
  assumes "listed bl pl q b" "b \<noteq> 0"
  shows "pl b = q" "\<exists>k. bl b = Some k"
proof -
  obtain xs where "block_chain bl b xs" "distinct xs" "\<And>b. b \<in> set xs \<longleftrightarrow> pl b = q" using listedE [OF assms(1)] by metis
  with assms(2) show "pl b = q" "\<exists>k. bl b = Some k" by (cases xs; auto split: option.splits)+
qed

lemma listed_pop:
  assumes "listed bl pl q b" "b \<noteq> 0" "bl b = Some k" "\<And>c. pl' c = q' \<longleftrightarrow> pl c = q \<and> c \<noteq> b"
  shows "listed bl pl' q' (next_block k)"
proof -
  obtain xs where xs: "block_chain bl b xs" "distinct xs" "\<And>c. c \<in> set xs \<longleftrightarrow> pl c = q"
    using listedE [OF assms(1)] by metis
  with assms(2) obtain ys where ys: "xs = b # ys" by (cases xs) auto
  with xs assms(3) have "block_chain bl (next_block k) ys" "distinct ys" by auto
  then show ?thesis by (rule listedI) (metis assms(4) distinct.simps(2) set_ConsD list.set_intros(2) xs(2,3) ys)
qed

lemma listed_push:
  assumes "listed bl pl q (next_block k)" "pl b \<noteq> q" "b \<noteq> 0" "bl b = Some k"
    "\<And>c. pl' c = q \<longleftrightarrow> pl c = q \<or> c = b"
  shows "listed bl pl' q b"
proof -
  obtain xs where xs: "block_chain bl (next_block k) xs" "distinct xs" "\<And>c. c \<in> set xs \<longleftrightarrow> pl c = q"
    using listedE [OF assms(1)] by metis
  show ?thesis
  proof (rule listedI)
    show "block_chain bl b (b # xs)" using assms(3,4) xs(1) by simp
    show "distinct (b # xs)" using xs(2,3) assms(2) by simp
    show "c \<in> set (b # xs) \<longleftrightarrow> pl' c = q" for c using xs(3) [of c] assms(5) [of c] by auto
  qed
qed

section \<open>Invariant\<close>

definition heap_ok :: "(nat \<Rightarrow> place) \<Rightarrow> pool_state \<Rightarrow> bool" where
  "heap_ok pl s \<longleftrightarrow>
     (\<forall>b. pl b = Nowhere \<longleftrightarrow> blocks s b = None) \<and> blocks s 0 = None \<and> used s = user_ptr ` {b. pl b = In_Use}"

text \<open>Every block belongs to a registered thread, and lies only in lists of that thread.\<close>

definition owners_ok :: "(nat \<Rightarrow> place) \<Rightarrow> pool_state \<Rightarrow> bool" where
  "owners_ok pl s \<longleftrightarrow> (\<forall>b k. blocks s b = Some k \<longrightarrow> owner_tid k \<in> ran (my_tid s) \<and>
     (\<forall>i. pl b \<in> {In_Local i, In_Shared i, In_Stolen i} \<longrightarrow> owner_tid k = i))"

definition lists_ok :: "(nat \<Rightarrow> place) \<Rightarrow> pool_state \<Rightarrow> bool" where
  "lists_ok pl s \<longleftrightarrow> (\<forall>i.
     listed (blocks s) pl (In_Local i) (local_head (arenas s i)) \<and>
     listed (blocks s) pl (In_Shared i) (shared_head (arenas s i)))"

definition tids_ok :: "nat \<Rightarrow> pool_state \<Rightarrow> bool" where
  "tids_ok N s \<longleftrightarrow>
     dom (my_tid s) \<subseteq> {..<N} \<and> card (dom (my_tid s)) = unat (tid_counter s) \<and> inj_on (my_tid s) (dom (my_tid s)) \<and>
     (\<forall>i \<in> ran (my_tid s). i < tid_counter s)"

fun pc_at :: "(nat \<Rightarrow> place) \<Rightarrow> pool_state \<Rightarrow> nat \<Rightarrow> pool_pc \<Rightarrow> bool" where
  "pc_at pl s t P_Idle \<longleftrightarrow> True"
| "pc_at pl s t (P_Local i) \<longleftrightarrow> my_tid s t = Some i"
| "pc_at pl s t (P_Pop i b) \<longleftrightarrow> my_tid s t = Some i \<and> local_head (arenas s i) = b \<and> b \<noteq> 0"
| "pc_at pl s t (P_Exchange i) \<longleftrightarrow> my_tid s t = Some i \<and> local_head (arenas s i) = 0"
| "pc_at pl s t (P_Stolen i b) \<longleftrightarrow>
     my_tid s t = Some i \<and> local_head (arenas s i) = 0 \<and> b \<noteq> 0 \<and> listed (blocks s) pl (In_Stolen i) b"
| "pc_at pl s t (P_New i) \<longleftrightarrow> my_tid s t = Some i"
| "pc_at pl s t (P_Link b i h) \<longleftrightarrow> pl b = Freeing t \<and> (\<exists>k. blocks s b = Some k \<and> owner_tid k = i)"
| "pc_at pl s t (P_Cas b i h) \<longleftrightarrow>
     pl b = Freeing t \<and> (\<exists>k. blocks s b = Some k \<and> owner_tid k = i \<and> next_block k = h)"
| "pc_at pl s t P_Out_Of_Bounds \<longleftrightarrow> False"
| "pc_at pl s t P_Fault \<longleftrightarrow> False"

text \<open>A block between two lists is in the hands of a thread that is moving it.\<close>

definition moves :: "(nat \<Rightarrow> place) \<Rightarrow> pool_state \<Rightarrow> nat \<Rightarrow> pool_pc \<Rightarrow> bool" where
  "moves pl s t q \<longleftrightarrow>
     (\<forall>b. pl b = Freeing t \<longrightarrow> (\<exists>i h. q \<in> {P_Link b i h, P_Cas b i h})) \<and>
     (\<forall>i. my_tid s t = Some i \<longrightarrow> (\<exists>x. q = P_Stolen i x) \<or> (\<forall>b. pl b \<noteq> In_Stolen i))"

definition pool_at :: "nat \<Rightarrow> (nat \<Rightarrow> place) \<Rightarrow> pool_state \<Rightarrow> bool" where
  "pool_at N pl s \<longleftrightarrow>
     heap_ok pl s \<and> owners_ok pl s \<and> lists_ok pl s \<and> tids_ok N s \<and>
     (\<forall>t. pc_at pl s t (ppc s t) \<and> moves pl s t (ppc s t))"

definition pool_inv :: "nat \<Rightarrow> pool_state \<Rightarrow> bool" where
  "pool_inv N s \<longleftrightarrow> (\<exists>pl. pool_at N pl s)"

lemma tids_inj: "tids_ok N s \<Longrightarrow> my_tid s t = Some i \<Longrightarrow> my_tid s u = Some i \<Longrightarrow> t = u"
  unfolding tids_ok_def inj_on_def by (metis domI)

text \<open>
  A step of thread \<open>t\<close> that does not register it may move blocks that are in use, in lists, or
  in its own hands.
\<close>

fun mine :: "pool_state \<Rightarrow> nat \<Rightarrow> place \<Rightarrow> bool" where
  "mine s t (Freeing u) \<longleftrightarrow> u = t"
| "mine s t (In_Stolen i) \<longleftrightarrow> my_tid s t = Some i"
| "mine s t _ \<longleftrightarrow> True"

lemma pool_at_step:
  assumes at: "pool_at N pl s" and s': "ppc s' = (ppc s)(t := q)" "my_tid s' = my_tid s" "tid_counter s' = tid_counter s"
    and keep: "\<And>b. pl' b = pl b \<and> blocks s' b = blocks s b \<or> mine s t (pl b) \<and> mine s t (pl' b)"
    and loc: "\<And>i. local_head (arenas s' i) = local_head (arenas s i) \<or> my_tid s t = Some i"
    and new: "heap_ok pl' s'" "owners_ok pl' s'" "lists_ok pl' s'" "pc_at pl' s' t q" "moves pl' s' t q"
  shows "pool_at N pl' s'"
proof -
  have tids: "tids_ok N s" using at by (simp add: pool_at_def)
  have "pc_at pl' s' u (ppc s u) \<and> moves pl' s' u (ppc s u)" if u: "u \<noteq> t" for u
  proof -
    have ok: "pc_at pl s u (ppc s u)" "moves pl s u (ppc s u)" using at by (simp_all add: pool_at_def)
    have fr: "pl' b = Freeing u \<longleftrightarrow> pl b = Freeing u" "pl b = Freeing u \<Longrightarrow> blocks s' b = blocks s b" for b
      using keep [of b] u by auto
    have st: "pl' b = In_Stolen i \<longleftrightarrow> pl b = In_Stolen i" "pl b = In_Stolen i \<Longrightarrow> blocks s' b = blocks s b"
      if "my_tid s u = Some i" for b i
      using keep [of b] u tids_inj [OF tids that, of t] by auto
    have lo: "local_head (arenas s' i) = local_head (arenas s i)" if "my_tid s u = Some i" for i
      using loc [of i] u tids_inj [OF tids that, of t] by auto
    have "listed (blocks s') pl' (In_Stolen i) b" if "my_tid s u = Some i" "listed (blocks s) pl (In_Stolen i) b" for i b
      using that(2) st [OF that(1)] by (rule listed_frame) auto
    then have "pc_at pl' s' u (ppc s u)" using ok(1) fr lo by (cases "ppc s u") (auto simp: s')
    moreover have "moves pl' s' u (ppc s u)" using ok(2) fr(1) st(1) by (auto simp: moves_def s')
    ultimately show ?thesis by simp
  qed
  with new tids show ?thesis by (auto simp: pool_at_def tids_ok_def s')
qed

lemma pool_at_D:
  assumes "pool_at N pl s"
  shows "heap_ok pl s" "owners_ok pl s" "lists_ok pl s" "tids_ok N s" "pc_at pl s t (ppc s t)" "moves pl s t (ppc s t)"
  using assms by (simp_all add: pool_at_def)

lemma user_ptr_inj [simp]: "user_ptr a = user_ptr b \<longleftrightarrow> a = b" "block_of (user_ptr b) = b"
  by (simp_all add: user_ptr_def block_of_def)

lemma in_use_iff: "heap_ok pl s \<Longrightarrow> user_ptr b \<in> used s \<longleftrightarrow> pl b = In_Use"
  by (auto simp: heap_ok_def)

lemma pool_simps [simp]:
  "pc_at pl (s\<lparr>ppc := x\<rparr>) t q = pc_at pl s t q" "moves pl (s\<lparr>ppc := x\<rparr>) t q = moves pl s t q"
  "heap_ok pl (s\<lparr>ppc := x\<rparr>) = heap_ok pl s" "owners_ok pl (s\<lparr>ppc := x\<rparr>) = owners_ok pl s"
  "lists_ok pl (s\<lparr>ppc := x\<rparr>) = lists_ok pl s" "tids_ok N (s\<lparr>ppc := x\<rparr>) = tids_ok N s"
  "pc_at pl (s\<lparr>plain := y\<rparr>) t q = pc_at pl s t q" "moves pl (s\<lparr>plain := y\<rparr>) t q = moves pl s t q"
  "heap_ok pl (s\<lparr>plain := y\<rparr>) = heap_ok pl s" "owners_ok pl (s\<lparr>plain := y\<rparr>) = owners_ok pl s"
  "lists_ok pl (s\<lparr>plain := y\<rparr>) = lists_ok pl s" "tids_ok N (s\<lparr>plain := y\<rparr>) = tids_ok N s"
  by (cases q; simp add: moves_def heap_ok_def owners_ok_def lists_ok_def tids_ok_def)+

lemma pool_at_pc:
  "pool_at N pl s \<Longrightarrow> pc_at pl s t q \<Longrightarrow> moves pl s t q \<Longrightarrow> pool_at N pl (s\<lparr>ppc := (ppc s)(t := q)\<rparr>)"
  by (simp add: pool_at_def)

lemma lists_frame:
  assumes "lists_ok pl s" "arenas s' = arenas s" "\<And>b i. pl b \<in> {In_Local i, In_Shared i} \<Longrightarrow> blocks s' b = blocks s b"
    "\<And>b i. pl' b = In_Local i \<longleftrightarrow> pl b = In_Local i" "\<And>b i. pl' b = In_Shared i \<longleftrightarrow> pl b = In_Shared i"
  shows "lists_ok pl' s'"
  unfolding lists_ok_def assms(2)
proof (intro allI conjI)
  fix i
  show "listed (blocks s') pl' (In_Local i) (local_head (arenas s i))"
    by (rule listed_frame [of "blocks s" pl "In_Local i"]) (use assms in \<open>auto simp: lists_ok_def\<close>)
  show "listed (blocks s') pl' (In_Shared i) (shared_head (arenas s i))"
    by (rule listed_frame [of "blocks s" pl "In_Shared i"]) (use assms in \<open>auto simp: lists_ok_def\<close>)
qed

lemma lists_arena:
  assumes "lists_ok pl s" "blocks s' = blocks s" "arenas s' = (arenas s)(i := A)"
    "listed (blocks s) pl' (In_Local i) (local_head A)" "listed (blocks s) pl' (In_Shared i) (shared_head A)"
    "\<And>b j. j \<noteq> i \<Longrightarrow> pl' b = In_Local j \<longleftrightarrow> pl b = In_Local j"
    "\<And>b j. j \<noteq> i \<Longrightarrow> pl' b = In_Shared j \<longleftrightarrow> pl b = In_Shared j"
  shows "lists_ok pl' s'"
  unfolding lists_ok_def
proof
  fix j
  show "listed (blocks s') pl' (In_Local j) (local_head (arenas s' j)) \<and>
    listed (blocks s') pl' (In_Shared j) (shared_head (arenas s' j))"
  proof (cases "j = i")
    case False
    have "listed (blocks s) pl (In_Local j) (local_head (arenas s j))" "listed (blocks s) pl (In_Shared j) (shared_head (arenas s j))"
      using assms(1) by (auto simp: lists_ok_def)
    from this [THEN listed_frame, of pl'] False assms(2,3,6,7) show ?thesis by auto
  qed (use assms in auto)
qed

lemma owner_listed:
  assumes "owners_ok pl s" "blocks s b = Some k"
  shows "owner_tid k \<in> ran (my_tid s)" "pl b = In_Stolen i \<Longrightarrow> owner_tid k = i" "pl b = In_Local i \<Longrightarrow> owner_tid k = i"
  using assms by (simp_all add: owners_ok_def)

lemma heap_frame:
  "heap_ok pl s \<Longrightarrow> blocks s' = blocks s \<Longrightarrow> (\<And>b. pl' b = Nowhere \<longleftrightarrow> pl b = Nowhere) \<Longrightarrow>
   used s' = user_ptr ` {b. pl' b = In_Use} \<Longrightarrow> heap_ok pl' s'"
  by (simp add: heap_ok_def)

lemma used_in_use: "heap_ok pl s \<Longrightarrow> used s = user_ptr ` {b. pl b = In_Use}"
  by (simp add: heap_ok_def)

lemma block_placed: "heap_ok pl s \<Longrightarrow> blocks s b = Some k \<Longrightarrow> b \<noteq> 0 \<and> pl b \<noteq> Nowhere"
  by (cases b) (auto simp: heap_ok_def)

lemma pool_Get_Tid:
  assumes at: "pool_at N pl s" and N: "N \<le> kMaxThreads" and t: "t < N" "ppc s t = P_Idle" "get_tid t s = (i, s1)"
  shows "pool_at N pl (s1\<lparr>ppc := (ppc s)(t := in_arenas i (P_Local i))\<rparr>)" "unat i < kMaxThreads"
proof -
  note D = pool_at_D [OF at]
  let ?c = "tid_counter s"
  have ids: "dom (my_tid s) \<subseteq> {..<N}" "card (dom (my_tid s)) = unat ?c" "inj_on (my_tid s) (dom (my_tid s))"
    "\<And>j. j \<in> ran (my_tid s) \<Longrightarrow> j < ?c" using D(4) by (auto simp: tids_ok_def)
  have fin: "finite (dom (my_tid s))" using ids(1) finite_subset by blast
  have cN: "unat ?c \<le> N" using card_mono [OF _ ids(1)] ids(2) by simp
  have "pool_at N pl (s1\<lparr>ppc := (ppc s)(t := in_arenas i (P_Local i))\<rparr>) \<and> unat i < kMaxThreads"
  proof (cases "my_tid s t")
    case (Some j)
    with t(3) have s1: "s1 = s" "i = j" by (auto simp: get_tid_def)
    have "j < ?c" using Some by (intro ids(4)) (auto simp: ran_def)
    then have small: "unat j < kMaxThreads" using cN N by (simp add: word_less_nat_alt)
    have "pool_at N pl (s\<lparr>ppc := (ppc s)(t := P_Local j)\<rparr>)"
      using D(6) [of t] t(2) Some by (intro pool_at_pc [OF at]) (auto simp: moves_def)
    with s1 small show ?thesis by (simp add: in_arenas_def)
  next
    case None
    with t(3) have s1: "s1 = s\<lparr>tid_counter := ?c + 1, my_tid := (my_tid s)(t \<mapsto> ?c)\<rparr>" "i = ?c"
      by (auto simp: get_tid_def)
    have "card (insert t (dom (my_tid s))) \<le> N" using card_mono [of "{..<N}" "insert t (dom (my_tid s))"] ids(1) t(1) by auto
    then have lt: "unat ?c < N" using fin None ids(2) by (simp add: card_insert_if domIff)
    then have suc: "unat (?c + 1) = Suc (unat ?c)" using N
      by (simp add: kMaxThreads_def unat_word_ariths)
    then have less: "?c < ?c + 1" "\<And>j. j < ?c \<Longrightarrow> j < ?c + 1" by (simp_all add: word_less_nat_alt)
    have ran: "ran ((my_tid s)(t \<mapsto> ?c)) = insert ?c (ran (my_tid s))" using None by auto
    have other: "my_tid s u \<noteq> Some ?c" for u using ids(4) [of ?c] by (auto simp: ran_def)
    let ?s = "s\<lparr>tid_counter := ?c + 1, my_tid := (my_tid s)(t \<mapsto> ?c), ppc := (ppc s)(t := P_Local ?c)\<rparr>"
    have "tids_ok N ?s" unfolding tids_ok_def
      using ids t(1) fin None suc less other
      by (auto simp: ran card_insert_if domIff inj_on_def)
    moreover have "heap_ok pl ?s" "lists_ok pl ?s" using D(1,3) by (simp_all add: heap_ok_def lists_ok_def)
    moreover have "owners_ok pl ?s" using D(2) by (auto simp: owners_ok_def ran)
    moreover have "pc_at pl ?s u (ppc ?s u)" for u
      using D(5) [of u] None by (cases "ppc s u") auto
    moreover have "moves pl ?s u (ppc ?s u)" for u
    proof -
      have "pl b \<noteq> In_Stolen ?c" for b
      proof
        assume b: "pl b = In_Stolen ?c"
        then obtain k where "blocks s b = Some k" using D(1) unfolding heap_ok_def by (metis not_None_eq place.distinct(9))
        with b owner_listed(1,2) [OF D(2)] have "?c \<in> ran (my_tid s)" by metis
        then show False using ids(4) by blast
      qed
      then show ?thesis using D(6) [of u] t(2) by (auto simp: moves_def)
    qed
    ultimately show ?thesis using s1 lt N by (simp add: pool_at_def in_arenas_def)
  qed
  then show "pool_at N pl (s1\<lparr>ppc := (ppc s)(t := in_arenas i (P_Local i))\<rparr>)" "unat i < kMaxThreads" by simp_all
qed

lemma pool_Local:
  assumes at: "pool_at N pl s" and pc: "ppc s t = P_Local i" "b = local_head (arenas s i)"
  shows "pool_at N pl (s\<lparr>ppc := (ppc s)(t := if b \<noteq> 0 then P_Pop i b else P_Exchange i)\<rparr>)"
  using pool_at_D(5,6) [OF at, of t] pc by (intro pool_at_pc [OF at]) (auto simp: moves_def)

lemma pool_Pop:
  assumes at: "pool_at N pl s" and pc: "ppc s t = P_Pop i b" "blocks s b = Some k"
  shows "pool_at N (pl(b := In_Use)) (s\<lparr>arenas := (arenas s)(i := (arenas s i)\<lparr>local_head := next_block k\<rparr>),
      used := insert (user_ptr b) (used s), ppc := (ppc s)(t := P_Idle)\<rparr>)" (is "pool_at N ?pl ?s")
    and "pl b = In_Local i" "my_tid s t = Some i"
proof -
  note D = pool_at_D [OF at]
  have i: "my_tid s t = Some i" "local_head (arenas s i) = b" "b \<noteq> 0" using D(5) [of t] pc by auto
  have L: "listed (blocks s) pl (In_Local i) b" "listed (blocks s) pl (In_Shared i) (shared_head (arenas s i))"
    using D(3) i(2) unfolding lists_ok_def by metis+
  show b: "pl b = In_Local i" using listed_head [OF L(1) i(3)] by simp
  have "lists_ok ?pl ?s"
    by (rule lists_arena [OF D(3), of _ i]) (use b listed_pop [OF L(1) i(3) pc(2)] listed_frame [OF L(2), of ?pl] in auto)
  moreover have "owners_ok ?pl ?s" using D(2) by (auto simp: owners_ok_def)
  moreover have "heap_ok ?pl ?s" using D(1) b pc(2) by (auto simp: heap_ok_def)
  moreover have "moves ?pl ?s t P_Idle" using D(6) [of t] pc by (auto simp: moves_def)
  ultimately show "pool_at N ?pl ?s"
    by (intro pool_at_step [OF at]) (use b i in auto)
  show "my_tid s t = Some i" by (rule i)
qed

lemma pool_Exchange:
  assumes at: "pool_at N pl s" and pc: "ppc s t = P_Exchange i" and st: "x = shared_head (arenas s i)"
  shows "pool_at N (\<lambda>b. if pl b = In_Shared i then In_Stolen i else pl b)
    (s\<lparr>arenas := (arenas s)(i := (arenas s i)\<lparr>shared_head := 0\<rparr>),
       ppc := (ppc s)(t := if x \<noteq> 0 then P_Stolen i x else P_New i)\<rparr>)" (is "pool_at N ?pl ?s")
proof -
  note D = pool_at_D [OF at]
  have i: "my_tid s t = Some i" "local_head (arenas s i) = 0" using D(5) [of t] pc by auto
  have none: "pl b \<noteq> In_Stolen i" for b using D(6) [of t] pc i(1) by (auto simp: moves_def)
  have L: "listed (blocks s) pl (In_Local i) (local_head (arenas s i))" "listed (blocks s) pl (In_Shared i) x"
    using D(3) st by (simp_all add: lists_ok_def)
  have "listed (blocks s) ?pl (In_Shared i) 0" by (rule listed_empty) simp
  then have "lists_ok ?pl ?s"
    by (intro lists_arena [OF D(3), of _ i]) (use listed_frame [OF L(1), of ?pl] in auto)
  moreover have "owners_ok ?pl ?s" using D(2) by (auto simp: owners_ok_def)
  moreover have "heap_ok ?pl ?s" by (rule heap_frame [OF D(1)]) (auto simp: used_in_use [OF D(1)])
  moreover have "listed (blocks s) ?pl (In_Stolen i) x"
    using L(2) by (rule listed_frame) (auto simp: none)
  moreover have "pl b \<noteq> In_Shared i" if "x = 0" for b using listed_nil L(2) that by blast
  moreover have "moves ?pl ?s t (if x \<noteq> 0 then P_Stolen i x else P_New i)"
    using D(6) [of t] pc i(1) calculation(5) none by (auto simp: moves_def)
  ultimately show ?thesis
    by (intro pool_at_step [OF at]) (use i in auto)
qed

lemma pool_Stolen:
  assumes at: "pool_at N pl s" and pc: "ppc s t = P_Stolen i b" "blocks s b = Some k"
  shows "pool_at N (\<lambda>c. if c = b then In_Use else if pl c = In_Stolen i then In_Local i else pl c)
    (s\<lparr>arenas := (arenas s)(i := (arenas s i)\<lparr>local_head := next_block k\<rparr>),
       used := insert (user_ptr b) (used s), ppc := (ppc s)(t := P_Idle)\<rparr>)" (is "pool_at N ?pl ?s")
    and "pl b = In_Stolen i" "my_tid s t = Some i"
proof -
  note D = pool_at_D [OF at]
  have i: "my_tid s t = Some i" "local_head (arenas s i) = 0" "b \<noteq> 0" "listed (blocks s) pl (In_Stolen i) b"
    using D(5) [of t] pc by auto
  show b: "pl b = In_Stolen i" using listed_head [OF i(4,3)] by simp
  have L: "listed (blocks s) pl (In_Local i) 0" "listed (blocks s) pl (In_Shared i) (shared_head (arenas s i))"
    using D(3) i(2) unfolding lists_ok_def by metis+
  have none: "pl c \<noteq> In_Local i" for c using listed_nil [OF L(1)] .
  have "listed (blocks s) ?pl (In_Local i) (next_block k)"
    using i(4,3) pc(2) by (rule listed_pop) (auto simp: none)
  then have "lists_ok ?pl ?s"
    by (intro lists_arena [OF D(3), of _ i]) (use b listed_frame [OF L(2), of ?pl] in auto)
  moreover have "owners_ok ?pl ?s" using D(2) by (auto simp: owners_ok_def)
  moreover have "heap_ok ?pl ?s" by (rule heap_frame [OF D(1)]) (auto simp: used_in_use [OF D(1)] b)
  moreover have "moves ?pl ?s t P_Idle" using D(6) [of t] pc i(1) by (auto simp: moves_def)
  ultimately show "pool_at N ?pl ?s"
    by (intro pool_at_step [OF at]) (use b i in auto)
  show "my_tid s t = Some i" by (rule i)
qed

lemma pool_New:
  assumes at: "pool_at N pl s" and pc: "ppc s t = P_New i" "b \<noteq> 0" "blocks s b = None"
  shows "pool_at N (pl(b := In_Use)) (s\<lparr>blocks := (blocks s)(b \<mapsto> \<lparr>next_block = junk, owner_tid = i\<rparr>),
      used := insert (user_ptr b) (used s), ppc := (ppc s)(t := P_Idle)\<rparr>)" (is "pool_at N ?pl ?s")
    and "pl b = Nowhere" "my_tid s t = Some i"
proof -
  note D = pool_at_D [OF at]
  show i: "my_tid s t = Some i" using D(5) [of t] pc by auto
  show b: "pl b = Nowhere" using D(1) pc(3) by (simp add: heap_ok_def)
  have "lists_ok ?pl ?s" by (rule lists_frame [OF D(3)]) (use b in auto)
  moreover have "owners_ok ?pl ?s" using D(2) i by (auto simp: owners_ok_def ran_def)
  moreover have "heap_ok ?pl ?s" using D(1) b pc by (auto simp: heap_ok_def)
  moreover have "moves ?pl ?s t P_Idle" using D(6) [of t] pc by (auto simp: moves_def)
  ultimately show "pool_at N ?pl ?s"
    by (intro pool_at_step [OF at]) (use b i in auto)
qed

lemma tid_small:
  assumes "tids_ok N s" "N \<le> kMaxThreads" "i \<in> ran (my_tid s)"
  shows "unat i < kMaxThreads"
proof -
  have "unat (tid_counter s) \<le> N"
    using assms(1) card_mono [of "{..<N}" "dom (my_tid s)"] by (simp add: tids_ok_def)
  moreover have "i < tid_counter s" using assms(1,3) by (simp add: tids_ok_def)
  ultimately show ?thesis using assms(2) by (simp add: word_less_nat_alt)
qed

lemma pool_Dealloc:
  assumes at: "pool_at N pl s" and N: "N \<le> kMaxThreads"
    and pc: "ppc s t = P_Idle" "p \<in> used s" "b = block_of p" "blocks s b = Some k" "i = owner_tid k"
  shows "pool_at N (pl(b := Freeing t)) (s\<lparr>used := used s - {p},
      ppc := (ppc s)(t := in_arenas i (P_Link b i (shared_head (arenas s i))))\<rparr>)" (is "pool_at N ?pl ?s")
    and "unat i < kMaxThreads"
proof -
  note D = pool_at_D [OF at]
  have b: "pl b = In_Use" "p = user_ptr b" using D(1) pc(2,3) by (auto simp: heap_ok_def)
  show small: "unat i < kMaxThreads"
    unfolding pc(5) by (rule tid_small [OF D(4) N owner_listed(1) [OF D(2) pc(4)]])
  have "lists_ok ?pl ?s" by (rule lists_frame [OF D(3)]) (use b in auto)
  moreover have "owners_ok ?pl ?s" using D(2) by (auto simp: owners_ok_def)
  moreover have "heap_ok ?pl ?s" by (rule heap_frame [OF D(1)]) (auto simp: used_in_use [OF D(1)] b)
  moreover have "moves ?pl ?s t (P_Link b i (shared_head (arenas s i)))" using D(6) [of t] pc by (auto simp: moves_def)
  ultimately show "pool_at N ?pl ?s"
    using small pc(4,5) b(1) unfolding in_arenas_def by (intro pool_at_step [OF at]) auto
qed

lemma pool_Link:
  assumes at: "pool_at N pl s" and pc: "ppc s t = P_Link b i h" "blocks s b = Some k"
  shows "pool_at N pl (s\<lparr>blocks := (blocks s)(b \<mapsto> k\<lparr>next_block := h\<rparr>), ppc := (ppc s)(t := P_Cas b i h)\<rparr>)"
    (is "pool_at N pl ?s")
proof -
  note D = pool_at_D [OF at]
  have b: "pl b = Freeing t" "owner_tid k = i" using D(5) [of t] pc by auto
  have "lists_ok pl ?s" by (rule lists_frame [OF D(3)]) (use b in auto)
  moreover have "owners_ok pl ?s" using D(2) pc(2) by (auto simp: owners_ok_def)
  moreover have "heap_ok pl ?s" using D(1) pc block_placed [OF D(1) pc(2)] by (auto simp: heap_ok_def)
  moreover have "moves pl ?s t (P_Cas b i h)" using D(6) [of t] pc by (auto simp: moves_def)
  ultimately show ?thesis
    by (intro pool_at_step [OF at]) (use b in auto)
qed

lemma pool_Cas_Ok:
  assumes at: "pool_at N pl s" and pc: "ppc s t = P_Cas b i h" "shared_head (arenas s i) = h"
  shows "pool_at N (pl(b := In_Shared i))
    (s\<lparr>arenas := (arenas s)(i := (arenas s i)\<lparr>shared_head := b\<rparr>), ppc := (ppc s)(t := P_Idle)\<rparr>)" (is "pool_at N ?pl ?s")
proof -
  note D = pool_at_D [OF at]
  obtain k where b: "pl b = Freeing t" "blocks s b = Some k" "owner_tid k = i" "next_block k = h"
    using D(5) [of t] pc by auto
  have b0: "b \<noteq> 0" using block_placed [OF D(1) b(2)] by simp
  have L: "listed (blocks s) pl (In_Local i) (local_head (arenas s i))" "listed (blocks s) pl (In_Shared i) (next_block k)"
    using D(3) pc(2) b(4) unfolding lists_ok_def by metis+
  have "listed (blocks s) ?pl (In_Shared i) b"
    using L(2) _ b0 b(2) by (rule listed_push) (auto simp: b)
  then have "lists_ok ?pl ?s"
    by (intro lists_arena [OF D(3), of _ i]) (use b(1) listed_frame [OF L(1), of ?pl] in auto)
  moreover have "owners_ok ?pl ?s" using D(2) b by (auto simp: owners_ok_def)
  moreover have "heap_ok ?pl ?s" by (rule heap_frame [OF D(1)]) (auto simp: used_in_use [OF D(1)] b)
  moreover have "moves ?pl ?s t P_Idle" using D(6) [of t] pc by (auto simp: moves_def)
  ultimately show "pool_at N ?pl ?s"
    by (intro pool_at_step [OF at]) (use b in auto)
qed

section \<open>Correctness\<close>

text \<open>What a step does, besides keeping the invariant: the effect of the events.\<close>

definition event_ok :: "nat \<Rightarrow> pool_event \<Rightarrow> pool_state \<Rightarrow> pool_state \<Rightarrow> bool" where
  "event_ok t e s s' \<longleftrightarrow> (case e of
     Returns n p \<Rightarrow> p \<noteq> 0 \<and> p \<notin> used s \<and>
       (if n > 1 then used s' = used s \<and> plain s' = insert p (plain s)
        else used s' = insert p (used s) \<and> (\<exists>k. blocks s' (block_of p) = Some k \<and> my_tid s t = Some (owner_tid k)))
   | Gives p n \<Rightarrow> used s' = used s - (if n > 1 then {} else {p})
   | Internal \<Rightarrow> used s' = used s)"

lemma no_fault:
  assumes "pool_at N pl s"
  shows "ppc s t = P_Pop i b \<Longrightarrow> blocks s b \<noteq> None" "ppc s t = P_Stolen i b \<Longrightarrow> blocks s b \<noteq> None"
    "p \<in> used s \<Longrightarrow> blocks s (block_of p) \<noteq> None"
proof -
  note D = pool_at_D [OF assms]
  show "blocks s b \<noteq> None" if "ppc s t = P_Pop i b"
    using D(5) [of t] that D(3) listed_head(2) [of "blocks s" pl "In_Local i" b] unfolding lists_ok_def by fastforce
  show "blocks s b \<noteq> None" if "ppc s t = P_Stolen i b"
    using D(5) [of t] that listed_head(2) [of "blocks s" pl "In_Stolen i" b] by auto
  show "blocks s (block_of p) \<noteq> None" if p: "p \<in> used s"
  proof -
    obtain b where b: "p = user_ptr b" "pl b = In_Use" using p unfolding used_in_use [OF D(1)] by auto
    then have "pl b \<noteq> Nowhere" by simp
    with b(1) D(1) show ?thesis by (simp add: heap_ok_def)
  qed
qed

lemma pool_act_inv:
  assumes "pool_act N t e s s'" "pool_at N pl s" and N: "N \<le> kMaxThreads"
  shows "(\<exists>pl'. pool_at N pl' s') \<and> event_ok t e s s'"
  using assms(1,2)
proof (cases rule: pool_act.cases)
  case (Plain n p)
  note D = pool_at_D [OF assms(2)]
  have "p \<notin> used s"
  proof
    assume "p \<in> used s"
    then obtain b where "p = user_ptr b" "pl b = In_Use" using D(1) by (auto simp: heap_ok_def)
    with D(1) Plain show False unfolding heap_ok_def by (metis domIff image_eqI place.distinct(1))
  qed
  with Plain assms(2) show ?thesis by (auto simp: pool_at_def event_ok_def)
next
  case (Get_Tid i s1)
  with pool_Get_Tid(1) [OF assms(2) N Get_Tid(3-5)] show ?thesis
    by (auto simp: event_ok_def get_tid_def split: option.splits)
next
  case (Local i b)
  with pool_Local [OF assms(2) Local(4,5)] show ?thesis by (auto simp: event_ok_def)
next
  case (Pop i b k)
  have "owner_tid k = i" "user_ptr b \<notin> used s"
    using pool_Pop(2) [OF assms(2) Pop(4,5)] pool_at_D(1,2) [OF assms(2)] Pop(5)
    by (auto simp: owners_ok_def in_use_iff)
  with pool_Pop [OF assms(2) Pop(4,5)] Pop show ?thesis
    by (auto simp: event_ok_def user_ptr_def block_of_def)
next
  case (Exchange i stolen)
  with pool_Exchange [OF assms(2) Exchange(4,5)] show ?thesis by (auto simp: event_ok_def)
next
  case (Stolen i b k)
  have "owner_tid k = i" "user_ptr b \<notin> used s"
    using pool_Stolen(2) [OF assms(2) Stolen(4,5)] pool_at_D(1,2) [OF assms(2)] Stolen(5)
    by (auto simp: owners_ok_def in_use_iff)
  with pool_Stolen [OF assms(2) Stolen(4,5)] Stolen show ?thesis
    by (auto simp: event_ok_def user_ptr_def block_of_def)
next
  case (New i b junk)
  have "user_ptr b \<notin> used s"
    using pool_New(2) [OF assms(2) New(4-6)] pool_at_D(1) [OF assms(2)] by (simp add: in_use_iff)
  with pool_New(1) [OF assms(2) New(4-6), of junk] pool_New(3) [OF assms(2) New(4-6)] New show ?thesis
    by (auto simp: event_ok_def user_ptr_def block_of_def)
next
  case (Null n)
  then have "0 \<notin> used s" using pool_at_D(1) [OF assms(2)] by (auto simp: heap_ok_def user_ptr_def)
  with Null assms(2) show ?thesis by (auto simp: event_ok_def)
next
  case (Delete n p)
  with assms(2) show ?thesis by (auto simp: pool_at_def event_ok_def)
next
  case (Dealloc p b k i)
  with pool_Dealloc(1) [OF assms(2) N Dealloc(4-8)] show ?thesis by (auto simp: event_ok_def)
next
  case (Link b i h k)
  with pool_Link [OF assms(2) Link(4,5)] show ?thesis by (auto simp: event_ok_def)
next
  case (Cas_Fail b i h)
  have "pc_at pl s t (P_Link b i (shared_head (arenas s i)))" "moves pl s t (P_Link b i (shared_head (arenas s i)))"
    using pool_at_D(5,6) [OF assms(2), of t] Cas_Fail(4) by (auto simp: moves_def)
  from pool_at_pc [OF assms(2) this] Cas_Fail show ?thesis by (auto simp: event_ok_def)
next
  case (Cas_Ok b i h)
  with pool_Cas_Ok [OF assms(2) Cas_Ok(4,5)] show ?thesis by (auto simp: event_ok_def)
qed (use no_fault [OF assms(2)] in auto)

interpretation pool_program: inductive_invariant pools_init "pools_step N" "\<lambda>s. N \<le> kMaxThreads \<longrightarrow> pool_inv N s"
proof
  fix s s'
  show "N \<le> kMaxThreads \<longrightarrow> pool_inv N s" if "pools_init s"
  proof -
    have "pool_at N (\<lambda>_. Nowhere) s"
      using that by (auto simp: pools_init_def pool_at_def heap_ok_def owners_ok_def lists_ok_def tids_ok_def moves_def intro!: listed_empty)
    then show ?thesis by (auto simp: pool_inv_def)
  qed
  show "N \<le> kMaxThreads \<longrightarrow> pool_inv N s'" if "N \<le> kMaxThreads \<longrightarrow> pool_inv N s" "pools_step N s s'"
    using that pool_act_inv unfolding pool_inv_def pools_step_def by blast
qed

lemma pool_reach_at:
  assumes "reach pools_init (pools_step N) s" "N \<le> kMaxThreads"
  obtains pl where "pool_at N pl s"
  using pool_program.inv_reach [OF assms(1)] assms(2) by (auto simp: pool_inv_def)

text \<open>
  Claim C33. With at most 128 threads, no access of the pool leaves the array of arenas or touches
  memory that is not a block, \<open>allocate\<close> never hands out a pointer that is in use, under any
  interleaving, and the block behind a pointer it returns is one whose owner is the calling
  thread; \<open>deallocate\<close> takes exactly the pointer it is given out of use.
\<close>

theorem pool_allocator_correct:
  assumes "reach pools_init (pools_step N) s" "N \<le> kMaxThreads" "pool_act N t e s s'"
  shows "ppc s' u \<notin> {P_Out_Of_Bounds, P_Fault} \<and> event_ok t e s s'"
proof -
  obtain pl where "pool_at N pl s" using pool_reach_at [OF assms(1,2)] .
  from pool_act_inv [OF assms(3) this assms(2)] obtain pl' where "pool_at N pl' s'" "event_ok t e s s'" by blast
  with pool_at_D(5) [of N pl' s' u] show ?thesis by auto
qed

text \<open>
  When no call is in progress, a block is in use or in a list of its owner, from which its owner
  takes it again: no block is lost.
\<close>

theorem pool_no_block_lost:
  assumes "reach pools_init (pools_step N) s" "N \<le> kMaxThreads" "\<forall>t. ppc s t = P_Idle" "blocks s b = Some k"
  shows "user_ptr b \<in> used s \<or>
    (\<exists>xs. b \<in> set xs \<and> (block_chain (blocks s) (local_head (arenas s (owner_tid k))) xs \<or>
       block_chain (blocks s) (shared_head (arenas s (owner_tid k))) xs))"
proof -
  obtain pl where at: "pool_at N pl s" using pool_reach_at [OF assms(1,2)] .
  note D = pool_at_D [OF at]
  have own: "owner_tid k \<in> ran (my_tid s)" "\<And>i. pl b \<in> {In_Local i, In_Shared i, In_Stolen i} \<Longrightarrow> owner_tid k = i"
    using D(2) assms(4) by (auto simp: owners_ok_def)
  have L: "listed (blocks s) pl (In_Local i) (local_head (arenas s i))" "listed (blocks s) pl (In_Shared i) (shared_head (arenas s i))" for i
    using D(3) by (simp_all add: lists_ok_def)
  show ?thesis
  proof (cases "pl b")
    case (In_Stolen i)
    with own have "i \<in> ran (my_tid s)" by auto
    then obtain t where "my_tid s t = Some i" by (auto simp: ran_def)
    with D(6) [of t] assms(3) In_Stolen show ?thesis by (auto simp: moves_def)
  next
    case (Freeing t)
    with D(6) [of t] assms(3) show ?thesis by (auto simp: moves_def)
  next
    case (In_Local i)
    obtain xs where "block_chain (blocks s) (local_head (arenas s i)) xs" "\<And>c. c \<in> set xs \<longleftrightarrow> pl c = In_Local i"
      using listedE [OF L(1) [of i]] by metis
    with own(2) [of i] In_Local show ?thesis by auto
  next
    case (In_Shared i)
    obtain xs where "block_chain (blocks s) (shared_head (arenas s i)) xs" "\<And>c. c \<in> set xs \<longleftrightarrow> pl c = In_Shared i"
      using listedE [OF L(2) [of i]] by metis
    with own(2) [of i] In_Shared show ?thesis by auto
  qed (use block_placed [OF D(1) assms(4)] in_use_iff [OF D(1)] in auto)
qed

section \<open>More than 128 threads\<close>

text \<open>The first \<open>n\<close> threads have got their thread ids and are about to look at their arenas.\<close>

definition registered :: "nat \<Rightarrow> pool_state" where
  "registered n = \<lparr>blocks = Map.empty, arenas = \<lambda>_. \<lparr>shared_head = 0, local_head = 0\<rparr>, tid_counter = of_nat n,
     my_tid = (\<lambda>t. if t < n then Some (of_nat t) else None),
     ppc = (\<lambda>t. if t < n then P_Local (of_nat t) else P_Idle), used = {}, plain = {}\<rparr>"

lemma registered_step:
  assumes "n < N"
  shows "pools_step N (registered n)
    (registered (Suc n)\<lparr>ppc := (ppc (registered n))(n := in_arenas (of_nat n) (P_Local (of_nat n)))\<rparr>)" (is "pools_step N _ ?s")
proof -
  let ?s1 = "(registered n)\<lparr>tid_counter := of_nat n + 1, my_tid := (my_tid (registered n))(n \<mapsto> of_nat n)\<rparr>"
  have "get_tid n (registered n) = (of_nat n, ?s1)" by (simp add: get_tid_def registered_def)
  then have "pool_act N n Internal (registered n)
    (?s1\<lparr>ppc := (ppc (registered n))(n := in_arenas (of_nat n) (P_Local (of_nat n)))\<rparr>)"
    by (intro pool_act.Get_Tid) (use assms in \<open>simp_all add: registered_def\<close>)
  moreover have "my_tid ?s1 = my_tid (registered (Suc n))"
    by (auto simp: registered_def fun_eq_iff less_Suc_eq)
  ultimately have "pool_act N n Internal (registered n) ?s" by (simp add: registered_def add.commute)
  then show ?thesis by (auto simp: pools_step_def)
qed

lemma registered_reach: "n \<le> N \<Longrightarrow> n \<le> kMaxThreads \<Longrightarrow> reach pools_init (pools_step N) (registered n)"
proof (induction n)
  case 0
  then show ?case by (intro reach_init) (auto simp: registered_def pools_init_def)
next
  case (Suc n)
  have "unat (of_nat n :: u32) = n" using Suc.prems(2) by (simp add: unat_of_nat kMaxThreads_def)
  then have "in_arenas (of_nat n) (P_Local (of_nat n)) = P_Local (of_nat n)"
    using Suc.prems(2) by (simp add: in_arenas_def)
  moreover have "(ppc (registered n))(n := P_Local (of_nat n)) = ppc (registered (Suc n))"
    by (auto simp: registered_def fun_eq_iff less_Suc_eq)
  ultimately have "pools_step N (registered n) (registered (Suc n))"
    using registered_step [of n N] Suc.prems(1) by simp
  moreover have "reach pools_init (pools_step N) (registered n)" using Suc by simp
  ultimately show ?case by (blast intro: reach_step)
qed

text \<open>
  The bound is needed: the 129th thread that allocates indexes \<open>arenas\<close> behind its end.
\<close>

theorem pool_arenas_overrun:
  "\<exists>s. reach pools_init (pools_step 129) s \<and> ppc s 128 = P_Out_Of_Bounds"
proof -
  have "reach pools_init (pools_step 129) (registered 128)"
    by (rule registered_reach) (simp_all add: kMaxThreads_def)
  from reach_step [OF this registered_step] show ?thesis
    by (fastforce simp: in_arenas_def kMaxThreads_def)
qed

text \<open>Two threads; the first has registered and is about to call \<open>operator new\<close>.\<close>

definition pool1 :: pool_state where
  "pool1 = (registered 1)\<lparr>ppc := (ppc (registered 1))(0 := P_Exchange 0)\<rparr>"

definition pool2 :: pool_state where
  "pool2 = pool1\<lparr>arenas := (arenas pool1)(0 := (arenas pool1 0)\<lparr>shared_head := 0\<rparr>), ppc := (ppc pool1)(0 := P_New 0)\<rparr>"

lemma pool2_reach: "reach pools_init (pools_step 2) pool2"
proof -
  have "reach pools_init (pools_step 2) (registered 1)"
    by (rule registered_reach) (simp_all add: kMaxThreads_def)
  moreover have "pool_act 2 0 Internal (registered 1) pool1"
    using pool_act.Local [of 0 2 "registered 1" 0 0] by (simp add: pool1_def registered_def)
  moreover have "pool_act 2 0 Internal pool1 pool2"
    using pool_act.Exchange [of 0 2 pool1 0 0] by (simp add: pool2_def pool1_def registered_def)
  ultimately show ?thesis unfolding pools_step_def by (blast intro: reach_step)
qed

theorem pool_allocator_correct_witness:
  "\<exists>s. event_ok 0 (Returns 1 48) pool2 s \<and> ppc s 1 \<noteq> P_Out_Of_Bounds"
proof -
  let ?s = "pool2\<lparr>blocks := (blocks pool2)(32 \<mapsto> \<lparr>next_block = 7, owner_tid = 0\<rparr>),
    used := insert (user_ptr 32) (used pool2), ppc := (ppc pool2)(0 := P_Idle)\<rparr>"
  have "pool_act 2 0 (Returns 1 (user_ptr 32)) pool2 ?s"
    by (rule pool_act.New) (simp_all add: pool2_def pool1_def registered_def)
  from pool_allocator_correct [OF pool2_reach _ this, of 1] show ?thesis
    by (intro exI [of _ ?s]) (simp add: kMaxThreads_def user_ptr_def)
qed

end
