(* ===== verification/Lock_Examples.thy ===== *)
theory Lock_Examples
  imports Prelude
begin

text \<open>
  The programs \<open>spinlock_example.cpp\<close> and \<open>mutex_example.cpp\<close> of the first benchmark: the same
  writers and readers as in the atomsnap example, on one pair of counters in place, guarded by a
  spin lock or by a \<open>std::shared_mutex\<close>. What the locks promise is the locale \<open>exclusion\<close>; the
  correctness of the programs is shown once from it, for both locks.
\<close>

section \<open>The locks\<close>

text \<open>
  \<open>pthread_spinlock_t\<close>: the thread that holds it. A lock operation that returns \<^term>\<open>None\<close> waits.
\<close>

type_synonym spinlock = "nat option"

definition spin_lock :: "nat \<Rightarrow> spinlock \<Rightarrow> spinlock option" where
  "spin_lock t l = (if l = None then Some (Some t) else None)"

definition spin_unlock :: "nat \<Rightarrow> spinlock \<Rightarrow> spinlock" where
  "spin_unlock t l = None"

text \<open>\<open>std::shared_mutex\<close>: held by one thread alone, or shared by several.\<close>

record shared_mutex =
  exclusive :: "nat option"
  sharing :: "nat set"

definition mutex_lock :: "nat \<Rightarrow> shared_mutex \<Rightarrow> shared_mutex option" where
  "mutex_lock t l = (if exclusive l = None \<and> sharing l = {} then Some (l\<lparr>exclusive := Some t\<rparr>) else None)"

definition mutex_unlock :: "nat \<Rightarrow> shared_mutex \<Rightarrow> shared_mutex" where
  "mutex_unlock t l = l\<lparr>exclusive := None\<rparr>"

definition mutex_lock_shared :: "nat \<Rightarrow> shared_mutex \<Rightarrow> shared_mutex option" where
  "mutex_lock_shared t l = (if exclusive l = None then Some (l\<lparr>sharing := insert t (sharing l)\<rparr>) else None)"

definition mutex_unlock_shared :: "nat \<Rightarrow> shared_mutex \<Rightarrow> shared_mutex" where
  "mutex_unlock_shared t l = l\<lparr>sharing := sharing l - {t}\<rparr>"

section \<open>The programs\<close>

text \<open>
  Program points of \<open>writer\<close> and \<open>reader\<close>; every access to \<open>global_ptr\<close> is a step of its own.
  The reader's points carry \<open>prev_value\<close> and the values read so far.
\<close>

datatype lock_writer =
    W_Loop | W_Lock | W_Load1 | W_Store1 int | W_Load2 | W_Store2 int | W_Unlock | W_Exit | W_Overflow

datatype lock_reader =
    R_Loop int
  | R_Lock int
  | R_Load1 int
  | R_Load2 int int
  | R_Unlock int int int
  | R_Check int int int
  | R_Order int int
  | R_Exit int
  | R_Invalid_Data
  | R_Invalid_Value

datatype lock_thread = Writer lock_writer | Reader lock_reader

record 'l lock_state =
  lock :: 'l
  value1 :: int
  value2 :: int
  lpc :: "nat \<Rightarrow> lock_thread"

definition int64_max :: int where
  "int64_max = 2 ^ 63 - 1"

text \<open>\<open>stop\<close> is the answer of the clock; the increment of the largest value is undefined.\<close>

inductive lock_step ::
  "(nat \<Rightarrow> 'l \<Rightarrow> 'l option) \<Rightarrow> (nat \<Rightarrow> 'l \<Rightarrow> 'l) \<Rightarrow> (nat \<Rightarrow> 'l \<Rightarrow> 'l option) \<Rightarrow> (nat \<Rightarrow> 'l \<Rightarrow> 'l) \<Rightarrow>
   'l lock_state \<Rightarrow> 'l lock_state \<Rightarrow> bool"
  for w_lock w_unlock r_lock r_unlock where
  W_Time: "lpc s t = Writer W_Loop \<Longrightarrow>
    lock_step w_lock w_unlock r_lock r_unlock s
      (s\<lparr>lpc := (lpc s)(t := Writer (if stop then W_Exit else W_Lock))\<rparr>)"
| W_Lock: "lpc s t = Writer W_Lock \<Longrightarrow> w_lock t (lock s) = Some l \<Longrightarrow>
    lock_step w_lock w_unlock r_lock r_unlock s (s\<lparr>lock := l, lpc := (lpc s)(t := Writer W_Load1)\<rparr>)"
| W_Load1: "lpc s t = Writer W_Load1 \<Longrightarrow> x = value1 s \<Longrightarrow>
    lock_step w_lock w_unlock r_lock r_unlock s
      (s\<lparr>lpc := (lpc s)(t := Writer (if x = int64_max then W_Overflow else W_Store1 (x + 1)))\<rparr>)"
| W_Store1: "lpc s t = Writer (W_Store1 x) \<Longrightarrow>
    lock_step w_lock w_unlock r_lock r_unlock s (s\<lparr>value1 := x, lpc := (lpc s)(t := Writer W_Load2)\<rparr>)"
| W_Load2: "lpc s t = Writer W_Load2 \<Longrightarrow> x = value2 s \<Longrightarrow>
    lock_step w_lock w_unlock r_lock r_unlock s
      (s\<lparr>lpc := (lpc s)(t := Writer (if x = int64_max then W_Overflow else W_Store2 (x + 1)))\<rparr>)"
| W_Store2: "lpc s t = Writer (W_Store2 x) \<Longrightarrow>
    lock_step w_lock w_unlock r_lock r_unlock s (s\<lparr>value2 := x, lpc := (lpc s)(t := Writer W_Unlock)\<rparr>)"
| W_Unlock: "lpc s t = Writer W_Unlock \<Longrightarrow>
    lock_step w_lock w_unlock r_lock r_unlock s
      (s\<lparr>lock := w_unlock t (lock s), lpc := (lpc s)(t := Writer W_Loop)\<rparr>)"
| R_Time: "lpc s t = Reader (R_Loop prev) \<Longrightarrow>
    lock_step w_lock w_unlock r_lock r_unlock s
      (s\<lparr>lpc := (lpc s)(t := Reader (if stop then R_Exit prev else R_Lock prev))\<rparr>)"
| R_Lock: "lpc s t = Reader (R_Lock prev) \<Longrightarrow> r_lock t (lock s) = Some l \<Longrightarrow>
    lock_step w_lock w_unlock r_lock r_unlock s (s\<lparr>lock := l, lpc := (lpc s)(t := Reader (R_Load1 prev))\<rparr>)"
| R_Load1: "lpc s t = Reader (R_Load1 prev) \<Longrightarrow>
    lock_step w_lock w_unlock r_lock r_unlock s (s\<lparr>lpc := (lpc s)(t := Reader (R_Load2 prev (value1 s)))\<rparr>)"
| R_Load2: "lpc s t = Reader (R_Load2 prev v1) \<Longrightarrow>
    lock_step w_lock w_unlock r_lock r_unlock s (s\<lparr>lpc := (lpc s)(t := Reader (R_Unlock prev v1 (value2 s)))\<rparr>)"
| R_Unlock: "lpc s t = Reader (R_Unlock prev v1 v2) \<Longrightarrow>
    lock_step w_lock w_unlock r_lock r_unlock s
      (s\<lparr>lock := r_unlock t (lock s), lpc := (lpc s)(t := Reader (R_Check prev v1 v2))\<rparr>)"
| R_Check: "lpc s t = Reader (R_Check prev v1 v2) \<Longrightarrow>
    lock_step w_lock w_unlock r_lock r_unlock s
      (s\<lparr>lpc := (lpc s)(t := Reader (if v1 \<noteq> v2 then R_Invalid_Data else R_Order prev v1))\<rparr>)"
| R_Order: "lpc s t = Reader (R_Order prev v1) \<Longrightarrow>
    lock_step w_lock w_unlock r_lock r_unlock s
      (s\<lparr>lpc := (lpc s)(t := Reader (if v1 < prev then R_Invalid_Value else R_Loop v1))\<rparr>)"

definition lock_start :: "'l \<Rightarrow> 'l lock_state \<Rightarrow> bool" where
  "lock_start free s \<longleftrightarrow>
     lock s = free \<and> value1 s = 0 \<and> value2 s = 0 \<and> (\<forall>t. lpc s t \<in> {Writer W_Loop, Reader (R_Loop 0)})"

definition spinlock_start :: "spinlock lock_state \<Rightarrow> bool" where
  "spinlock_start = lock_start None"

definition spinlock_step :: "spinlock lock_state \<Rightarrow> spinlock lock_state \<Rightarrow> bool" where
  "spinlock_step = lock_step spin_lock spin_unlock spin_lock spin_unlock"

definition mutex_start :: "shared_mutex lock_state \<Rightarrow> bool" where
  "mutex_start = lock_start \<lparr>exclusive = None, sharing = {}\<rparr>"

definition mutex_step :: "shared_mutex lock_state \<Rightarrow> shared_mutex lock_state \<Rightarrow> bool" where
  "mutex_step = lock_step mutex_lock mutex_unlock mutex_lock_shared mutex_unlock_shared"

section \<open>What a lock promises\<close>

text \<open>Threads that are between lock and unlock, and the accesses that must not meet another one.\<close>

fun in_write :: "lock_thread \<Rightarrow> bool" where
  "in_write (Writer w) \<longleftrightarrow> w \<notin> {W_Loop, W_Lock, W_Exit}"
| "in_write (Reader r) \<longleftrightarrow> False"

fun in_read :: "lock_thread \<Rightarrow> bool" where
  "in_read (Reader (R_Load1 p)) \<longleftrightarrow> True"
| "in_read (Reader (R_Load2 p x)) \<longleftrightarrow> True"
| "in_read (Reader (R_Unlock p x y)) \<longleftrightarrow> True"
| "in_read _ \<longleftrightarrow> False"

text \<open>What a thread knows of the counters \<open>v1\<close> and \<open>v2\<close> at each point.\<close>

fun knows_at :: "int \<Rightarrow> int \<Rightarrow> lock_thread \<Rightarrow> bool" where
  "knows_at v1 v2 (Writer W_Load1) \<longleftrightarrow> v1 = v2"
| "knows_at v1 v2 (Writer (W_Store1 x)) \<longleftrightarrow> v1 = v2 \<and> x = v1 + 1"
| "knows_at v1 v2 (Writer W_Load2) \<longleftrightarrow> v1 = v2 + 1"
| "knows_at v1 v2 (Writer (W_Store2 x)) \<longleftrightarrow> v1 = v2 + 1 \<and> x = v1"
| "knows_at v1 v2 (Writer W_Unlock) \<longleftrightarrow> v1 = v2"
| "knows_at v1 v2 (Reader (R_Loop prev)) \<longleftrightarrow> prev \<le> v2"
| "knows_at v1 v2 (Reader (R_Lock prev)) \<longleftrightarrow> prev \<le> v2"
| "knows_at v1 v2 (Reader (R_Exit prev)) \<longleftrightarrow> prev \<le> v2"
| "knows_at v1 v2 (Reader (R_Load1 prev)) \<longleftrightarrow> prev \<le> v2 \<and> v1 = v2"
| "knows_at v1 v2 (Reader (R_Load2 prev x)) \<longleftrightarrow> prev \<le> v2 \<and> v1 = v2 \<and> x = v1"
| "knows_at v1 v2 (Reader (R_Unlock prev x y)) \<longleftrightarrow> prev \<le> v2 \<and> x = v2 \<and> y = v2"
| "knows_at v1 v2 (Reader (R_Check prev x y)) \<longleftrightarrow> prev \<le> x \<and> x = y \<and> x \<le> v2"
| "knows_at v1 v2 (Reader (R_Order prev x)) \<longleftrightarrow> prev \<le> x \<and> x \<le> v2"
| "knows_at v1 v2 (Reader R_Invalid_Data) \<longleftrightarrow> False"
| "knows_at v1 v2 (Reader R_Invalid_Value) \<longleftrightarrow> False"
| "knows_at v1 v2 (Writer w) \<longleftrightarrow> True"

lemma knows_mono:
  assumes "knows_at v1 v2 p" "\<not> in_write p" "\<not> in_read p" "v2 \<le> v2'"
  shows "knows_at v1' v2' p"
  using assms by (induction v1 v2 p rule: knows_at.induct) auto

locale exclusion =
  fixes w_lock :: "nat \<Rightarrow> 'l \<Rightarrow> 'l option" and w_unlock :: "nat \<Rightarrow> 'l \<Rightarrow> 'l"
    and r_lock :: "nat \<Rightarrow> 'l \<Rightarrow> 'l option" and r_unlock :: "nat \<Rightarrow> 'l \<Rightarrow> 'l"
    and free :: 'l and wf :: "'l \<Rightarrow> bool" and writes :: "'l \<Rightarrow> nat \<Rightarrow> bool" and reads :: "'l \<Rightarrow> nat \<Rightarrow> bool"
  assumes wf_free: "wf free"
    and excl: "wf l \<Longrightarrow> writes l t \<Longrightarrow> u \<noteq> t \<Longrightarrow> \<not> writes l u \<and> \<not> reads l u"
    and w_lock: "wf l \<Longrightarrow> w_lock t l = Some l' \<Longrightarrow>
      wf l' \<and> writes l' t \<and> (\<forall>u. u \<noteq> t \<longrightarrow> writes l' u = writes l u \<and> reads l' u = reads l u)"
    and r_lock: "wf l \<Longrightarrow> r_lock t l = Some l' \<Longrightarrow>
      wf l' \<and> reads l' t \<and> (\<forall>u. u \<noteq> t \<longrightarrow> writes l' u = writes l u \<and> reads l' u = reads l u)"
    and w_unlock: "wf l \<Longrightarrow> writes l t \<Longrightarrow>
      wf (w_unlock t l) \<and> (\<forall>u. u \<noteq> t \<longrightarrow> writes (w_unlock t l) u = writes l u \<and> reads (w_unlock t l) u = reads l u)"
    and r_unlock: "wf l \<Longrightarrow> reads l t \<Longrightarrow>
      wf (r_unlock t l) \<and> (\<forall>u. u \<noteq> t \<longrightarrow> writes (r_unlock t l) u = writes l u \<and> reads (r_unlock t l) u = reads l u)"
begin

definition lock_inv :: "'l lock_state \<Rightarrow> bool" where
  "lock_inv s \<longleftrightarrow>
     wf (lock s) \<and> value2 s \<le> value1 s \<and> ((\<forall>t. \<not> in_write (lpc s t)) \<longrightarrow> value1 s = value2 s) \<and>
     (\<forall>t. knows_at (value1 s) (value2 s) (lpc s t) \<and> (in_write (lpc s t) \<longrightarrow> writes (lock s) t) \<and>
        (in_read (lpc s t) \<longrightarrow> reads (lock s) t))"

lemma inv_D:
  assumes "lock_inv s"
  shows "wf (lock s)" "value2 s \<le> value1 s" "(\<And>t. \<not> in_write (lpc s t)) \<Longrightarrow> value1 s = value2 s"
    "knows_at (value1 s) (value2 s) (lpc s t)" "in_write (lpc s t) \<Longrightarrow> writes (lock s) t"
    "in_read (lpc s t) \<Longrightarrow> reads (lock s) t"
  using assms by (auto simp: lock_inv_def)

text \<open>Steps that leave the counters and the lock alone, and steps of the thread that writes.\<close>

lemma inv_local:
  assumes "lock_inv s" "knows_at (value1 s) (value2 s) (lpc s t) \<Longrightarrow> knows_at (value1 s) (value2 s) q"
    "in_write q = in_write (lpc s t)" "in_read q = in_read (lpc s t)"
  shows "lock_inv (s\<lparr>lpc := (lpc s)(t := q)\<rparr>)"
  using assms by (auto simp: lock_inv_def)

lemma inv_write:
  assumes inv: "lock_inv s" and t: "in_write (lpc s t)" "in_write q" "\<not> in_read q"
    and v: "knows_at v1 v2 q" "v2 \<le> v1" "value2 s \<le> v2"
  shows "lock_inv (s\<lparr>value1 := v1, value2 := v2, lpc := (lpc s)(t := q)\<rparr>)"
proof -
  note D = inv_D [OF inv]
  have "\<not> in_write (lpc s u) \<and> \<not> in_read (lpc s u)" if "u \<noteq> t" for u
    using excl [OF D(1) D(5) [OF t(1)] that] D(5,6) by blast
  then have "knows_at v1 v2 (lpc s u)" if "u \<noteq> t" for u
    using that D(4) v(3) knows_mono by blast
  with inv t v show ?thesis by (auto simp: lock_inv_def)
qed

lemma inv_lock:
  assumes inv: "lock_inv s" and l: "wf l" "\<And>u. u \<noteq> t \<Longrightarrow> writes l u = writes (lock s) u \<and> reads l u = reads (lock s) u"
    and q: "in_write q \<longrightarrow> writes l t" "in_read q \<longrightarrow> reads l t" "in_write (lpc s t) \<longrightarrow> value1 s = value2 s"
    and k: "knows_at (value1 s) (value2 s) q"
  shows "lock_inv (s\<lparr>lock := l, lpc := (lpc s)(t := q)\<rparr>)"
proof -
  have "value1 s = value2 s" if "\<And>u. u \<noteq> t \<Longrightarrow> \<not> in_write (lpc s u)"
    using that q(3) inv_D(3) [OF inv] by metis
  with inv l q k show ?thesis by (auto simp: lock_inv_def)
qed

text \<open>A thread that has just got the lock finds the counters equal.\<close>

lemma locked_equal:
  assumes inv: "lock_inv s" and l: "wf l" "writes l t \<or> reads l t" "\<not> in_write (lpc s t)"
    "\<And>u. u \<noteq> t \<Longrightarrow> writes l u = writes (lock s) u"
  shows "value1 s = value2 s"
proof (rule inv_D(3) [OF inv])
  fix u
  show "\<not> in_write (lpc s u)"
    using excl [OF l(1), of u t] l(2,3) l(4) [of u] inv_D(5) [OF inv, of u] by (cases "u = t") auto
qed

lemma lock_step_inv:
  assumes "lock_step w_lock w_unlock r_lock r_unlock s s'" "lock_inv s"
  shows "lock_inv s'"
  using assms
proof (induction rule: lock_step.induct)
  case (W_Lock s t l)
  note l = w_lock [OF inv_D(1) [OF W_Lock(3)] W_Lock(2)]
  have "value1 s = value2 s" by (rule locked_equal [OF W_Lock(3), of l t]) (use l W_Lock(1) in auto)
  with l W_Lock show ?case by (intro inv_lock) auto
next
  case (R_Lock s t prev l)
  note l = r_lock [OF inv_D(1) [OF R_Lock(3)] R_Lock(2)]
  have "value1 s = value2 s" by (rule locked_equal [OF R_Lock(3), of l t]) (use l R_Lock(1) in auto)
  with l R_Lock inv_D(4) [OF R_Lock(3), of t] show ?case by (intro inv_lock) auto
next
  case (W_Unlock s t)
  have "writes (lock s) t" using inv_D(5) [OF W_Unlock(2), of t] W_Unlock(1) by simp
  from w_unlock [OF inv_D(1) [OF W_Unlock(2)] this] inv_D(4) [OF W_Unlock(2), of t] W_Unlock show ?case
    by (intro inv_lock) auto
next
  case (R_Unlock s t prev v1 v2)
  have "reads (lock s) t" using inv_D(6) [OF R_Unlock(2), of t] R_Unlock(1) by simp
  from r_unlock [OF inv_D(1) [OF R_Unlock(2)] this] inv_D(4) [OF R_Unlock(2), of t] R_Unlock show ?case
    by (intro inv_lock) auto
next
  case (W_Store1 s t x)
  from inv_write [OF W_Store1(2), of t "Writer W_Load2" x "value2 s"] inv_D(4) [OF W_Store1(2), of t] W_Store1 show ?case
    by simp
next
  case (W_Store2 s t x)
  have "lock_inv (s\<lparr>value1 := value1 s, value2 := x, lpc := (lpc s)(t := Writer W_Unlock)\<rparr>)"
    by (rule inv_write [OF W_Store2(2)]) (use inv_D(4) [OF W_Store2(2), of t] W_Store2(1) in auto)
  then show ?case by simp
qed (rule inv_local; auto)+

sublocale run: inductive_invariant "lock_start free" "lock_step w_lock w_unlock r_lock r_unlock" lock_inv
proof
  fix s
  assume s: "lock_start free s"
  have "lpc s t \<in> {Writer W_Loop, Reader (R_Loop 0)}" for t using s by (simp add: lock_start_def)
  then have "\<not> in_write (lpc s t) \<and> \<not> in_read (lpc s t) \<and> knows_at 0 0 (lpc s t)" for t
    by (metis (no_types) empty_iff in_read.simps(4,5) in_write.simps insertI1 insert_iff knows_at.simps(6,16) order_refl)
  with s wf_free show "lock_inv s" by (simp add: lock_inv_def lock_start_def)
qed (use lock_step_inv in blast)

text \<open>No reader fails, and nobody is inside together with a writer.\<close>

lemma program_correct:
  assumes "reach (lock_start free) (lock_step w_lock w_unlock r_lock r_unlock) s"
  shows "lpc s t \<notin> {Reader R_Invalid_Data, Reader R_Invalid_Value}"
    "in_write (lpc s t) \<Longrightarrow> u \<noteq> t \<Longrightarrow> \<not> in_write (lpc s u) \<and> \<not> in_read (lpc s u)"
proof -
  note inv = run.inv_reach [OF assms]
  note D = inv_D [OF inv]
  show "lpc s t \<notin> {Reader R_Invalid_Data, Reader R_Invalid_Value}" using D(4) [of t] by auto
  show "\<not> in_write (lpc s u) \<and> \<not> in_read (lpc s u)" if "in_write (lpc s t)" "u \<noteq> t"
    using excl [OF D(1) D(5) [OF that(1)] that(2)] D(5,6) by blast
qed

end

section \<open>The two locks keep the promise\<close>

interpretation spin: exclusion spin_lock spin_unlock spin_lock spin_unlock None "\<lambda>_. True"
  "\<lambda>l t. l = Some t" "\<lambda>l t. l = Some t"
  by unfold_locales (auto simp: spin_lock_def spin_unlock_def split: if_splits)

interpretation shared: exclusion mutex_lock mutex_unlock mutex_lock_shared mutex_unlock_shared
  "\<lparr>exclusive = None, sharing = {}\<rparr>" "\<lambda>l. exclusive l = None \<or> sharing l = {}"
  "\<lambda>l t. exclusive l = Some t" "\<lambda>l t. t \<in> sharing l"
  by unfold_locales
    (auto simp: mutex_lock_def mutex_unlock_def mutex_lock_shared_def mutex_unlock_shared_def split: if_splits)

text \<open>
  Claim C34. In every execution of the spin lock program and of the mutex program, no reader finds
  counters that differ or that have decreased, and no thread is between lock and unlock while a
  writer is, so that the accesses to the counters do not race.
\<close>

theorem lock_examples_correct:
  assumes "reach spinlock_start spinlock_step s" "reach mutex_start mutex_step m" "u \<noteq> t"
  shows "lpc s t \<notin> {Reader R_Invalid_Data, Reader R_Invalid_Value} \<and>
    lpc m t \<notin> {Reader R_Invalid_Data, Reader R_Invalid_Value} \<and>
    \<not> (in_write (lpc s t) \<and> (in_write (lpc s u) \<or> in_read (lpc s u))) \<and>
    \<not> (in_write (lpc m t) \<and> (in_write (lpc m u) \<or> in_read (lpc m u)))"
  using spin.program_correct(1) [of s t] spin.program_correct(2) [of s t u]
    shared.program_correct(1) [of m t] shared.program_correct(2) [of m t u] assms
  unfolding spinlock_start_def spinlock_step_def mutex_start_def mutex_step_def by blast

text \<open>A run in which thread 1 reads while thread 0 waits to write.\<close>

definition run_pc :: "nat \<Rightarrow> lock_thread" where
  "run_pc = (\<lambda>t. if t = 1 then Reader (R_Loop 0) else Writer W_Loop)"

definition spin_run :: "spinlock lock_state" where
  "spin_run = \<lparr>lock = Some 1, value1 = 0, value2 = 0, lpc = run_pc(1 := Reader (R_Load1 0))\<rparr>"

definition mutex_run :: "shared_mutex lock_state" where
  "mutex_run = \<lparr>lock = \<lparr>exclusive = None, sharing = {1}\<rparr>, value1 = 0, value2 = 0, lpc = run_pc(1 := Reader (R_Load1 0))\<rparr>"

lemma lock_run:
  fixes l0 :: "'l"
  assumes "r_lock 1 l0 = Some l1"
  shows "reach (lock_start l0) (lock_step w_lock w_unlock r_lock r_unlock)
    \<lparr>lock = l1, value1 = 0, value2 = 0, lpc = run_pc(1 := Reader (R_Load1 0))\<rparr>"
proof -
  let ?s0 = "\<lparr>lock = l0, value1 = 0, value2 = 0, lpc = run_pc\<rparr>"
  let ?s1 = "?s0\<lparr>lpc := run_pc(1 := Reader (R_Lock 0))\<rparr>"
  have "lock_start l0 ?s0" by (auto simp: lock_start_def run_pc_def)
  moreover have "lock_step w_lock w_unlock r_lock r_unlock ?s0 ?s1"
    using lock_step.R_Time [of ?s0 1 0 w_lock w_unlock r_lock r_unlock False] by (simp add: run_pc_def)
  moreover have "lock_step w_lock w_unlock r_lock r_unlock ?s1 (?s1\<lparr>lock := l1, lpc := run_pc(1 := Reader (R_Load1 0))\<rparr>)"
    using lock_step.R_Lock [of ?s1 1 0 r_lock l1 w_lock w_unlock r_unlock] assms by simp
  ultimately have "reach (lock_start l0) (lock_step w_lock w_unlock r_lock r_unlock)
    (?s1\<lparr>lock := l1, lpc := run_pc(1 := Reader (R_Load1 0))\<rparr>)" by (blast intro: reach.intros)
  then show ?thesis by simp
qed

theorem lock_examples_correct_witness:
  "lpc spin_run 1 = Reader (R_Load1 0) \<and> \<not> in_write (lpc spin_run 0) \<and> \<not> in_write (lpc mutex_run 0)"
proof -
  have "reach spinlock_start spinlock_step spin_run"
    unfolding spinlock_start_def spinlock_step_def spin_run_def by (rule lock_run) (simp add: spin_lock_def)
  moreover have "reach mutex_start mutex_step mutex_run"
    unfolding mutex_start_def mutex_step_def mutex_run_def by (rule lock_run) (simp add: mutex_lock_shared_def)
  ultimately show ?thesis
    using lock_examples_correct [of spin_run mutex_run 1 0] by (simp add: spin_run_def mutex_run_def)
qed

end
