(* ===== verification/Shared_Ptr_Examples.thy ===== *)
theory Shared_Ptr_Examples
  imports Example_Cmp_Exchange
begin

text \<open>
  The programs \<open>shared_ptr_example.cpp\<close> of the first benchmark: the published pair of counters is
  the object of one global \<open>std::shared_ptr\<close>, which the threads access with the atomic functions
  for shared pointers. An object lives as long as some \<open>shared_ptr\<close> points to it. The locale
  \<open>shared_ptr_client\<close> states the rules a program keeps (an object is written only before it is
  stored in the global pointer, and read only while the thread has a pointer to it) and shows
  once that such a program never fails its checks; both programs interpret it.
\<close>

section \<open>Threads on an atomic shared pointer\<close>

text \<open>
  \<open>global_ptr\<close> is the object the global pointer points to; \<open>objects\<close> are the objects by address,
  \<^term>\<open>None\<close> where there is none (any more); \<open>at t\<close> is the program point of thread \<open>t\<close> with its
  local variables.
\<close>

record ('d, 'p) sp_state =
  global_ptr :: nat
  objects :: "nat \<Rightarrow> 'd option"
  at :: "nat \<Rightarrow> 'p"

text \<open>
  \<open>owns p\<close> are the objects to which a thread at \<open>p\<close> has a \<open>shared_ptr\<close>, or a raw pointer that it
  will make one of. When the last pointer goes away the object is deleted.
\<close>

definition owned :: "('p \<Rightarrow> nat set) \<Rightarrow> nat \<Rightarrow> (nat \<Rightarrow> 'p) \<Rightarrow> nat \<Rightarrow> bool" where
  "owned owns g pts q \<longleftrightarrow> q = g \<or> (\<exists>t. q \<in> owns (pts t))"

definition drop_unowned :: "('p \<Rightarrow> nat set) \<Rightarrow> nat \<Rightarrow> (nat \<Rightarrow> 'p) \<Rightarrow> (nat \<Rightarrow> 'd option) \<Rightarrow> nat \<Rightarrow> 'd option" where
  "drop_unowned owns g pts ob q = (if owned owns g pts q then ob q else None)"

text \<open>
  \<open>load p = Some k\<close>: at \<open>p\<close> the thread calls \<open>atomic_load\<close> and goes on at \<open>k q\<close> with the pointer
  \<open>q\<close> it got. \<open>store p = Some (n, p')\<close>: \<open>atomic_store\<close> of \<open>n\<close>. \<open>cas p = Some (e, n, p', k)\<close>:
  \<open>atomic_compare_exchange_strong\<close> with \<open>expected\<close> \<open>e\<close>, going on at \<open>p'\<close> on success and at
  \<open>k q\<close> on failure, where \<open>expected\<close> now points to \<open>q\<close>. \<open>local stop a p ob\<close> is any other step,
  where \<open>stop\<close> is the answer of the clock and \<open>a\<close> the address that \<open>new\<close> returns.
\<close>

inductive sp_step ::
  "('p \<Rightarrow> nat set) \<Rightarrow> ('p \<Rightarrow> (nat \<Rightarrow> 'p) option) \<Rightarrow> ('p \<Rightarrow> (nat \<times> 'p) option) \<Rightarrow>
   ('p \<Rightarrow> (nat \<times> nat \<times> 'p \<times> (nat \<Rightarrow> 'p)) option) \<Rightarrow>
   (bool \<Rightarrow> nat \<Rightarrow> 'p \<Rightarrow> (nat \<Rightarrow> 'd option) \<Rightarrow> 'p \<times> (nat \<Rightarrow> 'd option)) \<Rightarrow>
   ('d, 'p) sp_state \<Rightarrow> ('d, 'p) sp_state \<Rightarrow> bool"
  for owns load store cas local where
  Load:
    "load (at s t) = Some k \<Longrightarrow> pts = (at s)(t := k (global_ptr s)) \<Longrightarrow>
     sp_step owns load store cas local s
       (s\<lparr>at := pts, objects := drop_unowned owns (global_ptr s) pts (objects s)\<rparr>)"
| Store:
    "store (at s t) = Some (n, p) \<Longrightarrow> pts = (at s)(t := p) \<Longrightarrow>
     sp_step owns load store cas local s
       (s\<lparr>global_ptr := n, at := pts, objects := drop_unowned owns n pts (objects s)\<rparr>)"
| Cas_Ok:
    "cas (at s t) = Some (e, n, p, k) \<Longrightarrow> global_ptr s = e \<Longrightarrow> pts = (at s)(t := p) \<Longrightarrow>
     sp_step owns load store cas local s
       (s\<lparr>global_ptr := n, at := pts, objects := drop_unowned owns n pts (objects s)\<rparr>)"
| Cas_Fail:
    "cas (at s t) = Some (e, n, p, k) \<Longrightarrow> global_ptr s \<noteq> e \<Longrightarrow> pts = (at s)(t := k (global_ptr s)) \<Longrightarrow>
     sp_step owns load store cas local s
       (s\<lparr>at := pts, objects := drop_unowned owns (global_ptr s) pts (objects s)\<rparr>)"
| Local:
    "a \<noteq> 0 \<Longrightarrow> objects s a = None \<Longrightarrow> local stop a (at s t) (objects s) = (p, ob) \<Longrightarrow> pts = (at s)(t := p) \<Longrightarrow>
     sp_step owns load store cas local s
       (s\<lparr>at := pts, objects := drop_unowned owns (global_ptr s) pts ob\<rparr>)"

definition sp_start :: "'p set \<Rightarrow> ('d \<Rightarrow> bool) \<Rightarrow> ('d, 'p) sp_state \<Rightarrow> bool" where
  "sp_start starts init s \<longleftrightarrow>
     global_ptr s \<noteq> 0 \<and> (\<exists>d. objects s = (\<lambda>_. None)(global_ptr s := Some d) \<and> init d) \<and> (\<forall>t. at s t \<in> starts)"

section \<open>The rules of a program\<close>

text \<open>
  \<open>fresh p\<close> is the object a thread at \<open>p\<close> prepares and has not published, \<open>refs p\<close> the published
  objects it points to, \<open>knows p ob\<close> what it knows of them; \<open>good\<close>, \<open>rank\<close>, \<open>least\<close> and \<open>failed\<close>
  as in \<open>snapshot_client\<close>.
\<close>

locale shared_ptr_client =
  fixes fresh :: "'p \<Rightarrow> nat option" and refs :: "'p \<Rightarrow> nat set" and owns :: "'p \<Rightarrow> nat set"
    and load :: "'p \<Rightarrow> (nat \<Rightarrow> 'p) option" and store :: "'p \<Rightarrow> (nat \<times> 'p) option"
    and cas :: "'p \<Rightarrow> (nat \<times> nat \<times> 'p \<times> (nat \<Rightarrow> 'p)) option"
    and local :: "bool \<Rightarrow> nat \<Rightarrow> 'p \<Rightarrow> (nat \<Rightarrow> 'd option) \<Rightarrow> 'p \<times> (nat \<Rightarrow> 'd option)"
    and knows :: "'p \<Rightarrow> (nat \<Rightarrow> 'd option) \<Rightarrow> bool"
    and good :: "'d \<Rightarrow> bool" and rank :: "'d \<Rightarrow> int" and least :: "'p \<Rightarrow> int"
    and failed :: "'p \<Rightarrow> bool" and starts :: "'p set" and initial :: "'d \<Rightarrow> bool"
  assumes owns_def: "owns p = set_option (fresh p) \<union> refs p"
    and initial_good: "initial d \<Longrightarrow> good d"
    and starts_ok: "p \<in> starts \<Longrightarrow> owns p = {} \<and> \<not> failed p \<and> knows p ob \<and> (\<forall>d. initial d \<longrightarrow> least p \<le> rank d)"
    and knows_cong: "(\<And>q. q \<in> owns p \<Longrightarrow> ob' q = ob q) \<Longrightarrow> knows p ob \<Longrightarrow> knows p ob'"
    and load_ok: "load p = Some k \<Longrightarrow> knows p ob \<Longrightarrow> q \<notin> set_option (fresh p) \<Longrightarrow>
      fresh (k q) = fresh p \<and> refs (k q) = insert q (refs p) \<and> knows (k q) ob \<and> \<not> failed (k q) \<and> least (k q) = least p"
    and store_ok: "store p = Some (n, p') \<Longrightarrow> knows p ob \<Longrightarrow> ob n = Some d \<Longrightarrow>
      fresh p = Some n \<and> fresh p' = None \<and> refs p' = insert n (refs p) \<and> knows p' ob \<and> \<not> failed p' \<and>
      least p' = least p \<and> good d \<and> (\<forall>d'. good d' \<longrightarrow> rank d' \<le> rank d)"
    and store_fresh: "store p = Some (n, p') \<Longrightarrow> fresh p = Some n"
    and cas_fresh: "cas p = Some (e, n, p', k) \<Longrightarrow> fresh p = Some n \<and> e \<in> refs p"
    and cas_ok: "cas p = Some (e, n, p', k) \<Longrightarrow> knows p ob \<Longrightarrow> ob n = Some d \<Longrightarrow> ob e = Some d' \<Longrightarrow> good d' \<Longrightarrow>
      fresh p' = None \<and> refs p' = insert n (refs p) \<and> knows p' ob \<and> \<not> failed p' \<and> least p' = least p \<and>
      good d \<and> rank d' \<le> rank d"
    and cas_fail: "cas p = Some (e, n, p', k) \<Longrightarrow> knows p ob \<Longrightarrow> q \<notin> set_option (fresh p) \<Longrightarrow>
      fresh (k q) = fresh p \<and> refs (k q) \<subseteq> insert q (refs p) \<and> knows (k q) ob \<and> \<not> failed (k q) \<and> least (k q) = least p"
    and local_ok: "local stop a p ob = (p', ob') \<Longrightarrow> \<not> failed p \<Longrightarrow> a \<noteq> 0 \<Longrightarrow> ob a = None \<Longrightarrow> knows p ob \<Longrightarrow>
      (\<And>q. fresh p = Some q \<Longrightarrow> ob q \<noteq> None \<and> q \<notin> refs p) \<Longrightarrow>
      (\<And>q. q \<in> refs p \<Longrightarrow> \<exists>d. ob q = Some d \<and> good d \<and> least p \<le> rank d) \<Longrightarrow>
      refs p' \<subseteq> refs p \<and> (fresh p' = fresh p \<or> fresh p' = None \<or> fresh p' = Some a) \<and>
      (\<forall>q. ob' q = ob q \<or> fresh p' = Some q) \<and> (\<forall>q. fresh p' = Some q \<longrightarrow> ob' q \<noteq> None) \<and>
      knows p' ob' \<and> \<not> failed p' \<and> (least p' \<le> least p \<or> (\<exists>q\<in>refs p. \<exists>d. ob q = Some d \<and> least p' \<le> rank d)) \<and>
      (\<forall>q\<in>refs p'. \<forall>d. ob q = Some d \<longrightarrow> least p' \<le> rank d)"
begin

definition unpublished :: "('d, 'p) sp_state \<Rightarrow> nat \<Rightarrow> nat \<Rightarrow> bool" where
  "unpublished s t q \<longleftrightarrow> objects s q \<noteq> None \<and> q \<noteq> global_ptr s \<and> (\<forall>u. q \<notin> refs (at s u)) \<and>
     (\<forall>u. u \<noteq> t \<longrightarrow> fresh (at s u) \<noteq> Some q)"

definition thread_inv :: "('d, 'p) sp_state \<Rightarrow> int \<Rightarrow> nat \<Rightarrow> bool" where
  "thread_inv s mx t \<longleftrightarrow> \<not> failed (at s t) \<and> knows (at s t) (objects s) \<and> least (at s t) \<le> mx \<and>
     (\<forall>q. fresh (at s t) = Some q \<longrightarrow> unpublished s t q) \<and>
     (\<forall>q\<in>refs (at s t). \<exists>d. objects s q = Some d \<and> good d \<and> least (at s t) \<le> rank d \<and> rank d \<le> mx)"

definition sp_inv :: "('d, 'p) sp_state \<Rightarrow> bool" where
  "sp_inv s \<longleftrightarrow> (\<exists>d. objects s (global_ptr s) = Some d \<and> good d \<and> (\<forall>t. thread_inv s (rank d) t))"


lemma drop_owned: "owned owns g pts q \<Longrightarrow> drop_unowned owns g pts ob q = ob q"
  by (simp add: drop_unowned_def)

lemma owned_refs: "q \<in> refs (pts u) \<Longrightarrow> owned owns g pts q"
  using owns_def by (auto simp: owned_def)

lemma owned_fresh: "fresh (pts u) = Some q \<Longrightarrow> owned owns g pts q"
  using owns_def by (fastforce simp: owned_def)

lemma owned_owns: "q \<in> owns (pts u) \<Longrightarrow> owned owns g pts q"
  by (auto simp: owned_def)

lemma knows_drop:
  assumes "knows (pts u) ob"
  shows "knows (pts u) (drop_unowned owns g pts ob)"
  using assms by (rule knows_cong [rotated]) (simp add: drop_owned owned_owns)

text \<open>
  What a step of thread \<open>t\<close> may do: the object it writes is its own unpublished one or a new
  one, and the object it stores in the global pointer was its own unpublished one.
\<close>

definition proper :: "('d, 'p) sp_state \<Rightarrow> nat \<Rightarrow> nat \<Rightarrow> 'p \<Rightarrow> (nat \<Rightarrow> 'd option) \<Rightarrow> bool" where
  "proper s t g p ob \<longleftrightarrow>
     (\<forall>q. ob q = objects s q \<or> fresh p = Some q) \<and>
     (\<forall>q. fresh p = Some q \<longrightarrow> ob q \<noteq> None \<and> q \<noteq> g \<and> (fresh (at s t) = Some q \<or> objects s q = None)) \<and>
     (g = global_ptr s \<or> (fresh (at s t) = Some g \<and> fresh p = None)) \<and>
     refs p \<subseteq> refs (at s t) \<union> {g}"

lemma proper_others:
  assumes "proper s t g p ob" "\<And>u. thread_inv s mx u" "u \<noteq> t"
    and "objects s (global_ptr s) \<noteq> None"
    and s': "s' = s\<lparr>global_ptr := g, at := (at s)(t := p), objects := drop_unowned owns g ((at s)(t := p)) ob\<rparr>"
    and mx': "mx \<le> mx'"
  shows "thread_inv s' mx' u"
proof -
  have priv: "fresh (at s v) = Some q \<Longrightarrow> unpublished s v q" for v q
    using assms(2) [of v] by (simp add: thread_inv_def)
  have live: "q \<in> refs (at s v) \<Longrightarrow> objects s q \<noteq> None" for v q
    using assms(2) [of v] by (auto simp: thread_inv_def)
  have other: "fresh p \<noteq> Some q" if "q \<in> owns (at s u)" for q
  proof
    assume "fresh p = Some q"
    then have "fresh (at s t) = Some q \<or> objects s q = None"
      using assms(1) by (simp add: proper_def)
    moreover from that have "fresh (at s u) = Some q \<or> q \<in> refs (at s u)"
      by (simp add: owns_def)
    ultimately show False
      using priv [of t q] priv [of u q] live [of q u] assms(3) unfolding unpublished_def by metis
  qed
  have kept: "objects s' q = objects s q" if "q \<in> owns (at s u)" for q
  proof -
    have "q \<in> owns (((at s)(t := p)) u)"
      using that assms(3) by simp
    then have "objects s' q = ob q"
      by (simp add: s' drop_owned owned_owns [of _ _ u])
    then show ?thesis
      using other [OF that] assms(1) by (auto simp: proper_def)
  qed
  have "knows (at s u) (objects s)"
    using assms(2) [of u] by (simp add: thread_inv_def)
  then have "knows (at s u) (objects s')"
    by (rule knows_cong [rotated]) (rule kept)
  moreover have "unpublished s' u q" if f: "fresh (at s u) = Some q" for q
  proof -
    have q: "q \<in> owns (at s u)"
      using f by (simp add: owns_def)
    have "q \<noteq> g" "q \<notin> refs p"
      using priv [OF f] assms(1,3) priv [of t g] by (auto simp: proper_def unpublished_def)
    then show ?thesis
      using priv [OF f] kept [OF q] other [OF q] by (auto simp: unpublished_def s')
  qed
  moreover have "\<exists>d. objects s' q = Some d \<and> good d \<and> least (at s u) \<le> rank d \<and> rank d \<le> mx'"
    if "q \<in> refs (at s u)" for q
    using assms(2) [of u] that kept [of q] mx' by (fastforce simp: thread_inv_def owns_def)
  ultimately show ?thesis
    using assms(2) [of u] assms(3) mx' by (auto simp: thread_inv_def s')
qed

lemma proper_self:
  assumes "proper s t g p ob" "\<And>u. thread_inv s mx u" "objects s (global_ptr s) \<noteq> None"
    and s': "s' = s\<lparr>global_ptr := g, at := (at s)(t := p), objects := drop_unowned owns g ((at s)(t := p)) ob\<rparr>"
    and "\<not> failed p" "knows p ob" "least p \<le> mx'" "set_option (fresh p) \<inter> refs p = {}"
    and "\<And>q. q \<in> refs p \<Longrightarrow> \<exists>d. ob q = Some d \<and> good d \<and> least p \<le> rank d \<and> rank d \<le> mx'"
  shows "thread_inv s' mx' t"
proof -
  have priv: "fresh (at s v) = Some q \<Longrightarrow> unpublished s v q" for v q
    using assms(2) [of v] by (simp add: thread_inv_def)
  have live: "q \<in> refs (at s v) \<or> fresh (at s v) = Some q \<Longrightarrow> objects s q \<noteq> None" for v q
    using assms(2) [of v] by (auto simp: thread_inv_def unpublished_def)
  have same: "objects s' q = ob q" if "q \<in> owns p" for q
    using that by (simp add: s' drop_owned owned_owns [of _ _ t])
  have "knows p (objects s')"
    using assms(6) by (auto intro: knows_cong [OF same])
  moreover have "unpublished s' t q" if f: "fresh p = Some q" for q
  proof -
    have or: "fresh (at s t) = Some q \<or> objects s q = None" and q: "q \<noteq> g" "ob q \<noteq> None"
      using assms(1) f by (auto simp: proper_def)
    have "q \<notin> refs (at s v)" "v \<noteq> t \<Longrightarrow> fresh (at s v) \<noteq> Some q" for v
      using or priv [of t q] live [of q v] unfolding unpublished_def by blast+
    then show ?thesis
      using q same [of q] f assms(8) by (simp add: unpublished_def s' owns_def)
  qed
  moreover have "\<exists>d. objects s' q = Some d \<and> good d \<and> least p \<le> rank d \<and> rank d \<le> mx'" if "q \<in> refs p" for q
    using assms(9) [OF that] same [of q] that by (simp add: owns_def)
  ultimately show ?thesis
    using assms(5,7) by (auto simp: thread_inv_def s')
qed

lemma sp_inv_move:
  assumes "proper s t g p ob" "objects s (global_ptr s) = Some d" "\<And>u. thread_inv s (rank d) u"
    and "ob g = Some d'" "good d'" "rank d \<le> rank d'"
    and s': "s' = s\<lparr>global_ptr := g, at := (at s)(t := p), objects := drop_unowned owns g ((at s)(t := p)) ob\<rparr>"
    and "\<not> failed p" "knows p ob" "least p \<le> rank d'" "set_option (fresh p) \<inter> refs p = {}"
    and "\<And>q. q \<in> refs p \<Longrightarrow> \<exists>e. ob q = Some e \<and> good e \<and> least p \<le> rank e \<and> rank e \<le> rank d'"
  shows "sp_inv s'"
proof -
  have "thread_inv s' (rank d') u" for u
  proof (cases "u = t")
    case True
    then show ?thesis
      using proper_self [OF assms(1,3) _ s' assms(8-12)] assms(2) by simp
  next
    case False
    then show ?thesis
      using proper_others [OF assms(1,3) _ _ s' assms(6)] assms(2) by simp
  qed
  moreover have "objects s' (global_ptr s') = Some d'"
    using assms(4) by (simp add: s' drop_owned owned_def)
  ultimately show ?thesis
    using assms(5) by (auto simp: sp_inv_def)
qed

lemma sp_inv_local:
  assumes d: "objects s (global_ptr s) = Some d" "good d" and inv: "\<And>u. thread_inv s (rank d) u"
    and a: "objects s a = None"
    and p: "refs p \<subseteq> refs (at s t)" "fresh p = fresh (at s t) \<or> fresh p = None \<or> fresh p = Some a"
    and ob: "\<And>q. ob q = objects s q \<or> fresh p = Some q" "\<And>q. fresh p = Some q \<Longrightarrow> ob q \<noteq> None"
    and k: "knows p ob" "\<not> failed p"
    and l: "least p \<le> least (at s t) \<or> (\<exists>q\<in>refs (at s t). \<exists>e. objects s q = Some e \<and> least p \<le> rank e)"
      "\<And>q e. q \<in> refs p \<Longrightarrow> objects s q = Some e \<Longrightarrow> least p \<le> rank e"
    and s': "s' = s\<lparr>at := (at s)(t := p), objects := drop_unowned owns (global_ptr s) ((at s)(t := p)) ob\<rparr>"
  shows "sp_inv s'"
proof -
  have self: "\<And>q. fresh (at s t) = Some q \<Longrightarrow> unpublished s t q" "least (at s t) \<le> rank d"
    "\<And>q. q \<in> refs (at s t) \<Longrightarrow> \<exists>e. objects s q = Some e \<and> good e \<and> rank e \<le> rank d"
    using inv [of t] by (auto simp: thread_inv_def)
  have new: "q \<noteq> global_ptr s \<and> q \<notin> refs (at s t) \<and> (fresh (at s t) = Some q \<or> objects s q = None)"
    if "fresh p = Some q" for q
    using p(2) that self(1) [of q] self(3) [of q] a d(1) by (auto simp: unpublished_def)
  have g: "ob (global_ptr s) = Some d"
    using ob(1) [of "global_ptr s"] new d(1) by auto
  have kept: "ob q = objects s q" if "q \<in> refs (at s t)" for q
    using ob(1) [of q] new that by auto
  have pr: "proper s t (global_ptr s) p ob"
    using p(1) ob new by (auto simp: proper_def)
  have "least p \<le> rank d"
    using l(1) self(2,3) by fastforce
  moreover have "set_option (fresh p) \<inter> refs p = {}"
    using new p(1) by auto
  moreover have "\<exists>e. ob q = Some e \<and> good e \<and> least p \<le> rank e \<and> rank e \<le> rank d" if "q \<in> refs p" for q
  proof -
    have "q \<in> refs (at s t)"
      using that p(1) by blast
    then show ?thesis
      using self(3) [of q] l(2) [OF that] kept [of q] by auto
  qed
  ultimately show ?thesis
    by (intro sp_inv_move [OF pr d(1) inv g d(2) order_refl _ k(2,1)]) (auto simp: s')
qed

lemma sp_step_sp_inv:
  assumes "sp_step owns load store cas local s s'" "sp_inv s"
  shows "sp_inv s'"
proof -
  from assms(2) obtain d where d: "objects s (global_ptr s) = Some d" "good d" and inv: "\<And>u. thread_inv s (rank d) u"
    by (auto simp: sp_inv_def)
  have self: "\<not> failed (at s t)" "knows (at s t) (objects s)" "least (at s t) \<le> rank d"
    "\<And>q. fresh (at s t) = Some q \<Longrightarrow> unpublished s t q" for t
    using inv [of t] by (auto simp: thread_inv_def)
  have seen: "\<exists>e. objects s q = Some e \<and> good e \<and> least (at s t) \<le> rank e \<and> rank e \<le> rank d"
    if "q \<in> refs (at s t)" for t q
    using inv [of t] that by (auto simp: thread_inv_def)
  have apart: "global_ptr s \<notin> set_option (fresh (at s t))" "set_option (fresh (at s t)) \<inter> refs (at s t) = {}" for t
    using self(4) [of t] by (auto simp: unpublished_def)
  from assms(1) show ?thesis
  proof cases
    case (Load t k pts)
    note k = load_ok [OF Load(2) self(2) apart(1)]
    have p: "proper s t (global_ptr s) (k (global_ptr s)) (objects s)"
      using k apart(1) [of t] self(4) [of t] by (auto simp: proper_def unpublished_def)
    show ?thesis
      by (rule sp_inv_move [OF p d(1) inv d(1,2) order_refl]) (use k d self [of t] seen [of _ t] apart Load in \<open>auto simp: unpublished_def\<close>)
  next
    case (Store t n p pts)
    obtain e where e: "objects s n = Some e"
      using self(4) [OF store_fresh [OF Store(2)]] by (auto simp: unpublished_def)
    note k = store_ok [OF Store(2) self(2) e]
    have p: "proper s t n p (objects s)"
      using k by (auto simp: proper_def)
    show ?thesis
      by (rule sp_inv_move [OF p d(1) inv e]) (use k d e self [of t] seen [of _ t] Store in \<open>fastforce+\<close>)
  next
    case (Cas_Ok t e n p k pts)
    note f = cas_fresh [OF Cas_Ok(2)]
    obtain x where x: "objects s n = Some x"
      using self(4) [of t n] f by (auto simp: unpublished_def)
    have e: "objects s e = Some d"
      using Cas_Ok(3) d(1) by simp
    note k = cas_ok [OF Cas_Ok(2) self(2) x e d(2)]
    have p: "proper s t n p (objects s)"
      using k f by (auto simp: proper_def)
    show ?thesis
      by (rule sp_inv_move [OF p d(1) inv x]) (use k d x self [of t] seen [of _ t] Cas_Ok in \<open>fastforce+\<close>)
  next
    case (Cas_Fail t e n p k pts)
    note k = cas_fail [OF Cas_Fail(2) self(2) apart(1)]
    have p: "proper s t (global_ptr s) (k (global_ptr s)) (objects s)"
      using k apart(1) [of t] self(4) [of t] by (auto simp: proper_def unpublished_def)
    show ?thesis
      by (rule sp_inv_move [OF p d(1) inv d(1,2) order_refl]) (use k d self [of t] seen [of _ t] apart Cas_Fail in \<open>auto simp: unpublished_def\<close>)
  next
    case (Local a stop t p ob pts)
    have f: "\<And>q. fresh (at s t) = Some q \<Longrightarrow> objects s q \<noteq> None \<and> q \<notin> refs (at s t)"
      using self(4) [of t] by (simp add: unpublished_def)
    have h: "\<And>q. q \<in> refs (at s t) \<Longrightarrow> \<exists>e. objects s q = Some e \<and> good e \<and> least (at s t) \<le> rank e"
      using seen [of _ t] by blast
    note k = local_ok [OF Local(4) self(1) Local(2,3) self(2) f h]
    show ?thesis
      by (rule sp_inv_local [OF d inv]) (use k Local in auto)
  qed
qed

sublocale run: inductive_invariant "sp_start starts initial" "sp_step owns load store cas local" sp_inv
proof
  fix s
  assume "sp_start starts initial s"
  then obtain d where d: "objects s = (\<lambda>_. None)(global_ptr s := Some d)" "initial d" and p: "\<And>t. at s t \<in> starts"
    by (auto simp: sp_start_def)
  have "thread_inv s (rank d) t" for t
    using starts_ok [OF p [of t]] d(2) owns_def [of "at s t"] by (auto simp: thread_inv_def)
  then show "sp_inv s"
    using d initial_good by (auto simp: sp_inv_def)
qed (rule sp_step_sp_inv)

lemma never_fails: "reach (sp_start starts initial) (sp_step owns load store cas local) s \<Longrightarrow> \<not> failed (at s t)"
  using run.inv_reach by (auto simp: sp_inv_def thread_inv_def)

end

section \<open>The program with compare and exchange\<close>

text \<open>
  Program points of \<open>writer\<close> of \<open>cmp_exchange/shared_ptr_example.cpp\<close>, with \<open>new_data\<close> and
  \<open>expected\<close> where they are live.
\<close>

datatype sp_cmp_writer =
    SW_New
  | SW_Loop nat
  | SW_Load nat
  | SW_Value1 nat nat
  | SW_Value2 nat nat
  | SW_Cas nat nat
  | SW_Renew nat nat
  | SW_End nat nat
  | SW_Exit
  | SW_Overflow nat nat
  | SW_Fault

text \<open>Program points of \<open>reader\<close>, with \<open>prev_value\<close>, \<open>cur\<close> and the value read.\<close>

datatype sp_reader =
    SR_Loop int
  | SR_Load int
  | SR_Value1 int nat
  | SR_Value2 int nat int
  | SR_Order int nat
  | SR_Save int nat
  | SR_Exit int
  | SR_Invalid_Data
  | SR_Invalid_Value
  | SR_Fault

datatype sp_cmp_thread = SC_Writer sp_cmp_writer | SC_Reader sp_reader

definition sp_cmp_load :: "sp_cmp_thread \<Rightarrow> (nat \<Rightarrow> sp_cmp_thread) option" where
  "sp_cmp_load p = (case p of
     SC_Writer (SW_Load nd) \<Rightarrow> Some (\<lambda>q. SC_Writer (SW_Value1 nd q))
   | SC_Reader (SR_Load prev) \<Rightarrow> Some (\<lambda>q. SC_Reader (SR_Value1 prev q))
   | _ \<Rightarrow> None)"

definition sp_cmp_cas :: "sp_cmp_thread \<Rightarrow> (nat \<times> nat \<times> sp_cmp_thread \<times> (nat \<Rightarrow> sp_cmp_thread)) option" where
  "sp_cmp_cas p = (case p of
     SC_Writer (SW_Cas nd e) \<Rightarrow> Some (e, nd, SC_Writer (SW_Renew nd e), \<lambda>q. SC_Writer (SW_End nd q))
   | _ \<Rightarrow> None)"

text \<open>
  \<open>new_data->value1 = expected->value1 + 1\<close> and the same with \<open>value2\<close>: the increment of the
  largest \<open>int64_t\<close> and an access to an object that does not exist are outcomes of their own.
\<close>

datatype bump = Bumped "nat \<Rightarrow> snap_data option" | Bump_Overflow | Bump_Fault

definition bump1 :: "nat \<Rightarrow> nat \<Rightarrow> (nat \<Rightarrow> snap_data option) \<Rightarrow> bump" where
  "bump1 nd od ob = (case (fetch value1 ob od, ob nd) of
     (Some x, Some d) \<Rightarrow>
       if x = INT64_MAX then Bump_Overflow else Bumped (ob(nd := Some (d\<lparr>value1 := Some (x + 1)\<rparr>)))
   | _ \<Rightarrow> Bump_Fault)"

definition bump2 :: "nat \<Rightarrow> nat \<Rightarrow> (nat \<Rightarrow> snap_data option) \<Rightarrow> bump" where
  "bump2 nd od ob = (case (fetch value2 ob od, ob nd) of
     (Some x, Some d) \<Rightarrow>
       if x = INT64_MAX then Bump_Overflow else Bumped (ob(nd := Some (d\<lparr>value2 := Some (x + 1)\<rparr>)))
   | _ \<Rightarrow> Bump_Fault)"

definition sp_cmp_writer_local ::
  "bool \<Rightarrow> nat \<Rightarrow> sp_cmp_writer \<Rightarrow> (nat \<Rightarrow> snap_data option) \<Rightarrow> sp_cmp_writer \<times> (nat \<Rightarrow> snap_data option)" where
  "sp_cmp_writer_local stop a p ob = (case p of
     SW_New \<Rightarrow> (SW_Loop a, ob(a := Some \<lparr>value1 = Some 0, value2 = Some 0\<rparr>))
   | SW_Loop nd \<Rightarrow> (if stop then SW_Exit else SW_Load nd, ob)
   | SW_Value1 nd e \<Rightarrow>
       (case bump1 nd e ob of
          Bumped ob' \<Rightarrow> (SW_Value2 nd e, ob') | Bump_Overflow \<Rightarrow> (SW_Overflow nd e, ob) | Bump_Fault \<Rightarrow> (SW_Fault, ob))
   | SW_Value2 nd e \<Rightarrow>
       (case bump2 nd e ob of
          Bumped ob' \<Rightarrow> (SW_Cas nd e, ob') | Bump_Overflow \<Rightarrow> (SW_Overflow nd e, ob) | Bump_Fault \<Rightarrow> (SW_Fault, ob))
   | SW_Renew nd e \<Rightarrow> (SW_End a e, ob(a := Some \<lparr>value1 = None, value2 = None\<rparr>))
   | SW_End nd e \<Rightarrow> (SW_Loop nd, ob)
   | _ \<Rightarrow> (p, ob))"

definition sp_reader_local ::
  "bool \<Rightarrow> sp_reader \<Rightarrow> (nat \<Rightarrow> snap_data option) \<Rightarrow> sp_reader" where
  "sp_reader_local stop p ob = (case p of
     SR_Loop prev \<Rightarrow> (if stop then SR_Exit prev else SR_Load prev)
   | SR_Value1 prev c \<Rightarrow> (case fetch value1 ob c of Some x \<Rightarrow> SR_Value2 prev c x | None \<Rightarrow> SR_Fault)
   | SR_Value2 prev c x \<Rightarrow>
       (case fetch value2 ob c of Some y \<Rightarrow> if x \<noteq> y then SR_Invalid_Data else SR_Order prev c | None \<Rightarrow> SR_Fault)
   | SR_Order prev c \<Rightarrow>
       (case fetch value1 ob c of Some x \<Rightarrow> if x < prev then SR_Invalid_Value else SR_Save prev c | None \<Rightarrow> SR_Fault)
   | SR_Save prev c \<Rightarrow> (case fetch value1 ob c of Some x \<Rightarrow> SR_Loop x | None \<Rightarrow> SR_Fault)
   | _ \<Rightarrow> p)"

definition sp_cmp_local ::
  "bool \<Rightarrow> nat \<Rightarrow> sp_cmp_thread \<Rightarrow> (nat \<Rightarrow> snap_data option) \<Rightarrow> sp_cmp_thread \<times> (nat \<Rightarrow> snap_data option)" where
  "sp_cmp_local stop a p ob = (case p of
     SC_Writer w \<Rightarrow> apfst SC_Writer (sp_cmp_writer_local stop a w ob)
   | SC_Reader r \<Rightarrow> (SC_Reader (sp_reader_local stop r ob), ob))"

text \<open>The object a writer prepares, and the published objects a thread points to.\<close>

fun sw_fresh :: "sp_cmp_writer \<Rightarrow> nat option" where
  "sw_fresh (SW_Loop nd) = Some nd"
| "sw_fresh (SW_Load nd) = Some nd"
| "sw_fresh (SW_Value1 nd e) = Some nd"
| "sw_fresh (SW_Value2 nd e) = Some nd"
| "sw_fresh (SW_Cas nd e) = Some nd"
| "sw_fresh (SW_End nd e) = Some nd"
| "sw_fresh (SW_Overflow nd e) = Some nd"
| "sw_fresh _ = None"

fun sw_refs :: "sp_cmp_writer \<Rightarrow> nat set" where
  "sw_refs (SW_Value1 nd e) = {e}"
| "sw_refs (SW_Value2 nd e) = {e}"
| "sw_refs (SW_Cas nd e) = {e}"
| "sw_refs (SW_Renew nd e) = {nd, e}"
| "sw_refs (SW_End nd e) = {e}"
| "sw_refs (SW_Overflow nd e) = {e}"
| "sw_refs _ = {}"

fun sr_refs :: "sp_reader \<Rightarrow> nat set" where
  "sr_refs (SR_Value1 prev c) = {c}"
| "sr_refs (SR_Value2 prev c x) = {c}"
| "sr_refs (SR_Order prev c) = {c}"
| "sr_refs (SR_Save prev c) = {c}"
| "sr_refs _ = {}"

definition sp_cmp_fresh :: "sp_cmp_thread \<Rightarrow> nat option" where
  "sp_cmp_fresh p = (case p of SC_Writer w \<Rightarrow> sw_fresh w | SC_Reader r \<Rightarrow> None)"

definition sp_cmp_refs :: "sp_cmp_thread \<Rightarrow> nat set" where
  "sp_cmp_refs p = (case p of SC_Writer w \<Rightarrow> sw_refs w | SC_Reader r \<Rightarrow> sr_refs r)"

definition sp_cmp_owns :: "sp_cmp_thread \<Rightarrow> nat set" where
  "sp_cmp_owns p = set_option (sp_cmp_fresh p) \<union> sp_cmp_refs p"

definition sp_cmp_start :: "(snap_data, sp_cmp_thread) sp_state \<Rightarrow> bool" where
  "sp_cmp_start = sp_start {SC_Writer SW_New, SC_Reader (SR_Loop 0)} initial_data"

definition sp_cmp_step :: "(snap_data, sp_cmp_thread) sp_state \<Rightarrow> (snap_data, sp_cmp_thread) sp_state \<Rightarrow> bool" where
  "sp_cmp_step = sp_step sp_cmp_owns sp_cmp_load (\<lambda>_. None) sp_cmp_cas sp_cmp_local"

text \<open>What a thread knows of the objects it points to.\<close>

fun sw_knows :: "sp_cmp_writer \<Rightarrow> (nat \<Rightarrow> snap_data option) \<Rightarrow> bool" where
  "sw_knows (SW_Value2 nd e) ob \<longleftrightarrow> (\<forall>d d'. ob e = Some d \<longrightarrow> ob nd = Some d' \<longrightarrow> succ1 d d')"
| "sw_knows (SW_Cas nd e) ob \<longleftrightarrow> (\<forall>d d'. ob e = Some d \<longrightarrow> ob nd = Some d' \<longrightarrow> succ12 d d')"
| "sw_knows _ ob \<longleftrightarrow> True"

fun sr_knows :: "sp_reader \<Rightarrow> (nat \<Rightarrow> snap_data option) \<Rightarrow> bool" where
  "sr_knows (SR_Value2 prev c x) ob \<longleftrightarrow> (\<forall>d. ob c = Some d \<longrightarrow> value1 d = Some x)"
| "sr_knows _ ob \<longleftrightarrow> True"

fun sr_least :: "sp_reader \<Rightarrow> int" where
  "sr_least (SR_Loop prev) = prev"
| "sr_least (SR_Load prev) = prev"
| "sr_least (SR_Value1 prev c) = prev"
| "sr_least (SR_Value2 prev c x) = prev"
| "sr_least (SR_Order prev c) = prev"
| "sr_least (SR_Save prev c) = prev"
| "sr_least (SR_Exit prev) = prev"
| "sr_least _ = 0"

definition sp_cmp_knows :: "sp_cmp_thread \<Rightarrow> (nat \<Rightarrow> snap_data option) \<Rightarrow> bool" where
  "sp_cmp_knows p ob = (case p of SC_Writer w \<Rightarrow> sw_knows w ob | SC_Reader r \<Rightarrow> sr_knows r ob)"

definition sp_cmp_least :: "sp_cmp_thread \<Rightarrow> int" where
  "sp_cmp_least p = (case p of SC_Writer w \<Rightarrow> 0 | SC_Reader r \<Rightarrow> sr_least r)"

definition sp_cmp_failed :: "sp_cmp_thread \<Rightarrow> bool" where
  "sp_cmp_failed p \<longleftrightarrow> p \<in> {SC_Writer SW_Fault, SC_Reader SR_Fault, SC_Reader SR_Invalid_Data, SC_Reader SR_Invalid_Value}"

lemmas sp_cmp_view_defs = sp_cmp_fresh_def sp_cmp_refs_def sp_cmp_owns_def sp_cmp_knows_def sp_cmp_least_def sp_cmp_failed_def
lemmas sp_cmp_splits = sp_cmp_thread.splits sp_cmp_writer.splits sp_reader.splits option.splits if_splits

lemma bump_outcomes:
  assumes "\<exists>d. ob od = Some d \<and> good_data d" "ob nd \<noteq> None" "nd \<noteq> od"
  shows "bump1 nd od ob \<noteq> Bump_Fault" "bump2 nd od ob \<noteq> Bump_Fault"
    "bump1 nd od ob = Bumped ob' \<Longrightarrow> (\<forall>q. q \<noteq> nd \<longrightarrow> ob' q = ob q) \<and> ob' nd \<noteq> None \<and> succ1 (the (ob od)) (the (ob' nd))"
    "bump2 nd od ob = Bumped ob' \<Longrightarrow> succ1 (the (ob od)) (the (ob nd)) \<Longrightarrow>
       (\<forall>q. q \<noteq> nd \<longrightarrow> ob' q = ob q) \<and> ob' nd \<noteq> None \<and> succ12 (the (ob od)) (the (ob' nd))"
  using assms by (auto simp: bump1_def bump2_def fetch_def good_data_def succ1_def succ12_def split: option.splits if_splits)

lemma sw_local_ok:
  assumes "sp_cmp_writer_local stop a w ob = (w', ob')" "w \<noteq> SW_Fault" "ob a = None" "sw_knows w ob"
    and f: "\<And>q. sw_fresh w = Some q \<Longrightarrow> ob q \<noteq> None \<and> q \<notin> sw_refs w"
    and h: "\<And>q. q \<in> sw_refs w \<Longrightarrow> \<exists>d. ob q = Some d \<and> good_data d"
  shows "sw_refs w' \<subseteq> sw_refs w \<and> (sw_fresh w' = sw_fresh w \<or> sw_fresh w' = None \<or> sw_fresh w' = Some a) \<and>
    (\<forall>q. ob' q = ob q \<or> sw_fresh w' = Some q) \<and> (\<forall>q. sw_fresh w' = Some q \<longrightarrow> ob' q \<noteq> None) \<and>
    sw_knows w' ob' \<and> w' \<noteq> SW_Fault"
proof (cases w)
  case (SW_Value1 nd e)
  then have "\<exists>d. ob e = Some d \<and> good_data d" "ob nd \<noteq> None" "nd \<noteq> e"
    using f [of nd] h [of e] by auto
  note b = bump_outcomes [OF this]
  show ?thesis
  proof (cases "bump1 nd e ob")
    case (Bumped ob2)
    then have "w' = SW_Value2 nd e" "ob' = ob2"
      using assms(1) SW_Value1 by (auto simp: sp_cmp_writer_local_def)
    then show ?thesis
      using b(3) [OF Bumped] \<open>nd \<noteq> e\<close> by (auto simp: SW_Value1)
  qed (use assms(1) SW_Value1 b(1) f [of nd] in \<open>auto simp: sp_cmp_writer_local_def\<close>)
next
  case (SW_Value2 nd e)
  then have o: "\<exists>d. ob e = Some d \<and> good_data d" "ob nd \<noteq> None" "nd \<noteq> e"
    using f [of nd] h [of e] by auto
  note b = bump_outcomes [OF this]
  have "succ1 (the (ob e)) (the (ob nd))"
    using assms(4) SW_Value2 o by auto
  note b4 = b(4) [OF _ this]
  show ?thesis
  proof (cases "bump2 nd e ob")
    case (Bumped ob2)
    then have "w' = SW_Cas nd e" "ob' = ob2"
      using assms(1) SW_Value2 by (auto simp: sp_cmp_writer_local_def)
    then show ?thesis
      using b4 [OF Bumped] \<open>nd \<noteq> e\<close> by (auto simp: SW_Value2)
  qed (use assms(1) SW_Value2 b(2) f [of nd] in \<open>auto simp: sp_cmp_writer_local_def\<close>)
qed (use assms(1-4) f in \<open>auto simp: sp_cmp_writer_local_def split: if_splits\<close>)

lemma good_data_rank: "good_data d \<Longrightarrow> value1 d = Some (data_rank d) \<and> value2 d = Some (data_rank d)"
  by (auto simp: good_data_def data_rank_def)

lemma good_fetch:
  "ob q = Some d \<Longrightarrow> good_data d \<Longrightarrow> fetch value1 ob q = Some (data_rank d) \<and> fetch value2 ob q = Some (data_rank d)"
  by (simp add: fetch_def good_data_rank)

lemma sr_local_ok:
  assumes "sp_reader_local stop r ob = r'" "r \<notin> {SR_Fault, SR_Invalid_Data, SR_Invalid_Value}" "sr_knows r ob"
    and "\<And>q. q \<in> sr_refs r \<Longrightarrow> \<exists>d. ob q = Some d \<and> good_data d \<and> sr_least r \<le> data_rank d"
  shows "sr_refs r' \<subseteq> sr_refs r \<and> sr_knows r' ob \<and> r' \<notin> {SR_Fault, SR_Invalid_Data, SR_Invalid_Value} \<and>
    (sr_least r' \<le> sr_least r \<or> (\<exists>q\<in>sr_refs r. \<exists>d. ob q = Some d \<and> sr_least r' \<le> data_rank d)) \<and>
    (\<forall>q\<in>sr_refs r'. \<forall>d. ob q = Some d \<longrightarrow> sr_least r' \<le> data_rank d)"
proof -
  have read: "\<exists>d. ob q = Some d \<and> sr_least r \<le> data_rank d \<and> fetch value1 ob q = Some (data_rank d) \<and>
    fetch value2 ob q = Some (data_rank d) \<and> value1 d = Some (data_rank d)" if "q \<in> sr_refs r" for q
    using assms(4) [OF that] by (auto simp: good_fetch good_data_rank)
  show ?thesis
  proof (cases r)
    case (SR_Value2 prev c x)
    then show ?thesis using assms(1-3) read [of c] by (auto simp: sp_reader_local_def)
  next
    case (SR_Value1 prev c)
    then show ?thesis using assms(1) read [of c] by (auto simp: sp_reader_local_def)
  next
    case (SR_Order prev c)
    then show ?thesis using assms(1) read [of c] by (auto simp: sp_reader_local_def)
  next
    case (SR_Save prev c)
    then show ?thesis using assms(1) read [of c] by (auto simp: sp_reader_local_def)
  qed (use assms(1,2) in \<open>auto simp: sp_reader_local_def split: if_splits\<close>)
qed

interpretation sp_cmp: shared_ptr_client sp_cmp_fresh sp_cmp_refs sp_cmp_owns sp_cmp_load "\<lambda>_. None" sp_cmp_cas sp_cmp_local
  sp_cmp_knows good_data data_rank sp_cmp_least sp_cmp_failed "{SC_Writer SW_New, SC_Reader (SR_Loop 0)}" initial_data
proof
  fix stop a p ob p' ob'
  assume step: "sp_cmp_local stop a p ob = (p', ob')" and p: "\<not> sp_cmp_failed p" and a: "ob a = None" and k: "sp_cmp_knows p ob"
    and f: "\<And>q. sp_cmp_fresh p = Some q \<Longrightarrow> ob q \<noteq> None \<and> q \<notin> sp_cmp_refs p"
    and h: "\<And>q. q \<in> sp_cmp_refs p \<Longrightarrow> \<exists>d. ob q = Some d \<and> good_data d \<and> sp_cmp_least p \<le> data_rank d"
  show "sp_cmp_refs p' \<subseteq> sp_cmp_refs p \<and>
    (sp_cmp_fresh p' = sp_cmp_fresh p \<or> sp_cmp_fresh p' = None \<or> sp_cmp_fresh p' = Some a) \<and>
    (\<forall>q. ob' q = ob q \<or> sp_cmp_fresh p' = Some q) \<and> (\<forall>q. sp_cmp_fresh p' = Some q \<longrightarrow> ob' q \<noteq> None) \<and>
    sp_cmp_knows p' ob' \<and> \<not> sp_cmp_failed p' \<and>
    (sp_cmp_least p' \<le> sp_cmp_least p \<or> (\<exists>q\<in>sp_cmp_refs p. \<exists>d. ob q = Some d \<and> sp_cmp_least p' \<le> data_rank d)) \<and>
    (\<forall>q\<in>sp_cmp_refs p'. \<forall>d. ob q = Some d \<longrightarrow> sp_cmp_least p' \<le> data_rank d)"
  proof (cases p)
    case (SC_Writer w)
    then obtain w' where w': "p' = SC_Writer w'" "sp_cmp_writer_local stop a w ob = (w', ob')"
      using step by (auto simp: sp_cmp_local_def apfst_def map_prod_def split: prod.splits)
    have "sw_refs w' \<subseteq> sw_refs w \<and> (sw_fresh w' = sw_fresh w \<or> sw_fresh w' = None \<or> sw_fresh w' = Some a) \<and>
      (\<forall>q. ob' q = ob q \<or> sw_fresh w' = Some q) \<and> (\<forall>q. sw_fresh w' = Some q \<longrightarrow> ob' q \<noteq> None) \<and>
      sw_knows w' ob' \<and> w' \<noteq> SW_Fault"
      by (rule sw_local_ok [OF w'(2)]) (use p a k f h SC_Writer in \<open>auto simp: sp_cmp_view_defs\<close>)
    moreover have "\<forall>q\<in>sw_refs w. \<forall>d. ob q = Some d \<longrightarrow> 0 \<le> data_rank d"
      using h SC_Writer by (fastforce simp: sp_cmp_view_defs)
    ultimately show ?thesis
      unfolding SC_Writer w'(1) sp_cmp_view_defs by auto
  next
    case (SC_Reader r)
    define r' where "r' = sp_reader_local stop r ob"
    have r': "p' = SC_Reader r'" "ob' = ob"
      using step SC_Reader by (auto simp: sp_cmp_local_def r'_def)
    have "sr_refs r' \<subseteq> sr_refs r \<and> sr_knows r' ob \<and> r' \<notin> {SR_Fault, SR_Invalid_Data, SR_Invalid_Value} \<and>
      (sr_least r' \<le> sr_least r \<or> (\<exists>q\<in>sr_refs r. \<exists>d. ob q = Some d \<and> sr_least r' \<le> data_rank d)) \<and>
      (\<forall>q\<in>sr_refs r'. \<forall>d. ob q = Some d \<longrightarrow> sr_least r' \<le> data_rank d)"
      by (rule sr_local_ok [OF r'_def [symmetric]]) (use p k h SC_Reader in \<open>auto simp: sp_cmp_view_defs\<close>)
    then show ?thesis
      using SC_Reader r' by (auto simp: sp_cmp_view_defs)
  qed
next
  fix p :: sp_cmp_thread and ob ob' :: "nat \<Rightarrow> snap_data option"
  assume "\<And>q. q \<in> sp_cmp_owns p \<Longrightarrow> ob' q = ob q" "sp_cmp_knows p ob"
  then show "sp_cmp_knows p ob'"
    by (auto simp: sp_cmp_view_defs split: sp_cmp_thread.splits elim!: sw_knows.elims(2) sr_knows.elims(2))
next
  fix p p' ob d d' e n k
  assume "sp_cmp_cas p = Some (e, n, p', k)" "sp_cmp_knows p ob" "ob n = Some d" "ob e = Some d'" "good_data d'"
  then show "sp_cmp_fresh p' = None \<and> sp_cmp_refs p' = insert n (sp_cmp_refs p) \<and> sp_cmp_knows p' ob \<and> \<not> sp_cmp_failed p' \<and>
      sp_cmp_least p' = sp_cmp_least p \<and> good_data d \<and> data_rank d' \<le> data_rank d"
    by (auto simp: sp_cmp_view_defs sp_cmp_cas_def good_data_def data_rank_def succ12_def succ1_def
        split: sp_cmp_thread.splits sp_cmp_writer.splits)
next
  fix p :: sp_cmp_thread and ob
  assume "p \<in> {SC_Writer SW_New, SC_Reader (SR_Loop 0)}"
  then show "sp_cmp_owns p = {} \<and> \<not> sp_cmp_failed p \<and> sp_cmp_knows p ob \<and> (\<forall>d. initial_data d \<longrightarrow> sp_cmp_least p \<le> data_rank d)"
    by (auto simp: sp_cmp_view_defs initial_data_def data_rank_def)
next
  fix d
  show "initial_data d \<Longrightarrow> good_data d"
    by (simp add: initial_data_def good_data_def)
qed (auto simp: sp_cmp_view_defs sp_cmp_load_def sp_cmp_cas_def
    split: sp_cmp_thread.splits sp_cmp_writer.splits sp_reader.splits)

section \<open>The program with exchange\<close>

text \<open>
  Program points of \<open>writer\<close> of \<open>exchange/shared_ptr_example.cpp\<close>, with \<open>old_data\<close> and
  \<open>new_data\<close> where they are live, and of its \<open>reader\<close>, with \<open>cur\<close> and the value read.
\<close>

datatype sp_ex_writer =
    XW_Loop
  | XW_Load
  | XW_New nat
  | XW_Value1 nat nat
  | XW_Value2 nat nat
  | XW_Store nat nat
  | XW_End nat nat
  | XW_Exit
  | XW_Overflow nat nat
  | XW_Fault

datatype sp_ex_reader =
    XR_Loop
  | XR_Load
  | XR_Value1 nat
  | XR_Value2 nat int
  | XR_End nat
  | XR_Exit
  | XR_Invalid_Data
  | XR_Fault

datatype sp_ex_thread = SX_Writer sp_ex_writer | SX_Reader sp_ex_reader

definition sp_ex_load :: "sp_ex_thread \<Rightarrow> (nat \<Rightarrow> sp_ex_thread) option" where
  "sp_ex_load p = (case p of
     SX_Writer XW_Load \<Rightarrow> Some (\<lambda>q. SX_Writer (XW_New q))
   | SX_Reader XR_Load \<Rightarrow> Some (\<lambda>q. SX_Reader (XR_Value1 q))
   | _ \<Rightarrow> None)"

definition sp_ex_store :: "sp_ex_thread \<Rightarrow> (nat \<times> sp_ex_thread) option" where
  "sp_ex_store p = (case p of SX_Writer (XW_Store od nd) \<Rightarrow> Some (nd, SX_Writer (XW_End od nd)) | _ \<Rightarrow> None)"

definition sp_ex_writer_local ::
  "bool \<Rightarrow> nat \<Rightarrow> sp_ex_writer \<Rightarrow> (nat \<Rightarrow> snap_data option) \<Rightarrow> sp_ex_writer \<times> (nat \<Rightarrow> snap_data option)" where
  "sp_ex_writer_local stop a p ob = (case p of
     XW_Loop \<Rightarrow> (if stop then XW_Exit else XW_Load, ob)
   | XW_New od \<Rightarrow> (XW_Value1 od a, ob(a := Some \<lparr>value1 = None, value2 = None\<rparr>))
   | XW_Value1 od nd \<Rightarrow>
       (case bump1 nd od ob of
          Bumped ob' \<Rightarrow> (XW_Value2 od nd, ob') | Bump_Overflow \<Rightarrow> (XW_Overflow od nd, ob) | Bump_Fault \<Rightarrow> (XW_Fault, ob))
   | XW_Value2 od nd \<Rightarrow>
       (case bump2 nd od ob of
          Bumped ob' \<Rightarrow> (XW_Store od nd, ob') | Bump_Overflow \<Rightarrow> (XW_Overflow od nd, ob) | Bump_Fault \<Rightarrow> (XW_Fault, ob))
   | XW_End od nd \<Rightarrow> (XW_Loop, ob)
   | _ \<Rightarrow> (p, ob))"

definition sp_ex_reader_local :: "bool \<Rightarrow> sp_ex_reader \<Rightarrow> (nat \<Rightarrow> snap_data option) \<Rightarrow> sp_ex_reader" where
  "sp_ex_reader_local stop p ob = (case p of
     XR_Loop \<Rightarrow> (if stop then XR_Exit else XR_Load)
   | XR_Value1 c \<Rightarrow> (case fetch value1 ob c of Some x \<Rightarrow> XR_Value2 c x | None \<Rightarrow> XR_Fault)
   | XR_Value2 c x \<Rightarrow>
       (case fetch value2 ob c of Some y \<Rightarrow> if x \<noteq> y then XR_Invalid_Data else XR_End c | None \<Rightarrow> XR_Fault)
   | XR_End c \<Rightarrow> XR_Loop
   | _ \<Rightarrow> p)"

definition sp_ex_local ::
  "bool \<Rightarrow> nat \<Rightarrow> sp_ex_thread \<Rightarrow> (nat \<Rightarrow> snap_data option) \<Rightarrow> sp_ex_thread \<times> (nat \<Rightarrow> snap_data option)" where
  "sp_ex_local stop a p ob = (case p of
     SX_Writer w \<Rightarrow> apfst SX_Writer (sp_ex_writer_local stop a w ob)
   | SX_Reader r \<Rightarrow> (SX_Reader (sp_ex_reader_local stop r ob), ob))"

fun xw_fresh :: "sp_ex_writer \<Rightarrow> nat option" where
  "xw_fresh (XW_Value1 od nd) = Some nd"
| "xw_fresh (XW_Value2 od nd) = Some nd"
| "xw_fresh (XW_Store od nd) = Some nd"
| "xw_fresh (XW_Overflow od nd) = Some nd"
| "xw_fresh _ = None"

fun xw_refs :: "sp_ex_writer \<Rightarrow> nat set" where
  "xw_refs (XW_New od) = {od}"
| "xw_refs (XW_Value1 od nd) = {od}"
| "xw_refs (XW_Value2 od nd) = {od}"
| "xw_refs (XW_Store od nd) = {od}"
| "xw_refs (XW_End od nd) = {od, nd}"
| "xw_refs (XW_Overflow od nd) = {od}"
| "xw_refs _ = {}"

fun xr_refs :: "sp_ex_reader \<Rightarrow> nat set" where
  "xr_refs (XR_Value1 c) = {c}"
| "xr_refs (XR_Value2 c x) = {c}"
| "xr_refs (XR_End c) = {c}"
| "xr_refs _ = {}"

definition sp_ex_fresh :: "sp_ex_thread \<Rightarrow> nat option" where
  "sp_ex_fresh p = (case p of SX_Writer w \<Rightarrow> xw_fresh w | SX_Reader r \<Rightarrow> None)"

definition sp_ex_refs :: "sp_ex_thread \<Rightarrow> nat set" where
  "sp_ex_refs p = (case p of SX_Writer w \<Rightarrow> xw_refs w | SX_Reader r \<Rightarrow> xr_refs r)"

definition sp_ex_owns :: "sp_ex_thread \<Rightarrow> nat set" where
  "sp_ex_owns p = set_option (sp_ex_fresh p) \<union> sp_ex_refs p"

definition sp_ex_start :: "(snap_data, sp_ex_thread) sp_state \<Rightarrow> bool" where
  "sp_ex_start = sp_start {SX_Writer XW_Loop, SX_Reader XR_Loop} initial_data"

definition sp_ex_step :: "(snap_data, sp_ex_thread) sp_state \<Rightarrow> (snap_data, sp_ex_thread) sp_state \<Rightarrow> bool" where
  "sp_ex_step = sp_step sp_ex_owns sp_ex_load sp_ex_store (\<lambda>_. None) sp_ex_local"

fun xw_knows :: "sp_ex_writer \<Rightarrow> (nat \<Rightarrow> snap_data option) \<Rightarrow> bool" where
  "xw_knows (XW_Value2 od nd) ob \<longleftrightarrow> (\<forall>d d'. ob od = Some d \<longrightarrow> ob nd = Some d' \<longrightarrow> succ1 d d')"
| "xw_knows (XW_Store od nd) ob \<longleftrightarrow> (\<forall>d. ob nd = Some d \<longrightarrow> good_data d)"
| "xw_knows _ ob \<longleftrightarrow> True"

fun xr_knows :: "sp_ex_reader \<Rightarrow> (nat \<Rightarrow> snap_data option) \<Rightarrow> bool" where
  "xr_knows (XR_Value2 c x) ob \<longleftrightarrow> (\<forall>d. ob c = Some d \<longrightarrow> value1 d = Some x)"
| "xr_knows _ ob \<longleftrightarrow> True"

definition sp_ex_knows :: "sp_ex_thread \<Rightarrow> (nat \<Rightarrow> snap_data option) \<Rightarrow> bool" where
  "sp_ex_knows p ob = (case p of SX_Writer w \<Rightarrow> xw_knows w ob | SX_Reader r \<Rightarrow> xr_knows r ob)"

definition sp_ex_failed :: "sp_ex_thread \<Rightarrow> bool" where
  "sp_ex_failed p \<longleftrightarrow> p \<in> {SX_Writer XW_Fault, SX_Reader XR_Fault, SX_Reader XR_Invalid_Data}"

lemmas sp_ex_view_defs = sp_ex_fresh_def sp_ex_refs_def sp_ex_owns_def sp_ex_knows_def sp_ex_failed_def

lemma succ12_good: "succ12 d d' \<Longrightarrow> good_data d'"
  by (auto simp: succ12_def succ1_def good_data_def)

lemma xw_local_ok:
  assumes "sp_ex_writer_local stop a w ob = (w', ob')" "w \<noteq> XW_Fault" "ob a = None" "xw_knows w ob"
    and f: "\<And>q. xw_fresh w = Some q \<Longrightarrow> ob q \<noteq> None \<and> q \<notin> xw_refs w"
    and h: "\<And>q. q \<in> xw_refs w \<Longrightarrow> \<exists>d. ob q = Some d \<and> good_data d"
  shows "xw_refs w' \<subseteq> xw_refs w \<and> (xw_fresh w' = xw_fresh w \<or> xw_fresh w' = None \<or> xw_fresh w' = Some a) \<and>
    (\<forall>q. ob' q = ob q \<or> xw_fresh w' = Some q) \<and> (\<forall>q. xw_fresh w' = Some q \<longrightarrow> ob' q \<noteq> None) \<and>
    xw_knows w' ob' \<and> w' \<noteq> XW_Fault"
proof (cases w)
  case (XW_Value1 od nd)
  then have "\<exists>d. ob od = Some d \<and> good_data d" "ob nd \<noteq> None" "nd \<noteq> od"
    using f [of nd] h [of od] by auto
  note b = bump_outcomes [OF this]
  show ?thesis
  proof (cases "bump1 nd od ob")
    case (Bumped ob2)
    then have "w' = XW_Value2 od nd" "ob' = ob2"
      using assms(1) XW_Value1 by (auto simp: sp_ex_writer_local_def)
    then show ?thesis
      using b(3) [OF Bumped] \<open>nd \<noteq> od\<close> by (auto simp: XW_Value1)
  qed (use assms(1) XW_Value1 b(1) f [of nd] in \<open>auto simp: sp_ex_writer_local_def\<close>)
next
  case (XW_Value2 od nd)
  then have o: "\<exists>d. ob od = Some d \<and> good_data d" "ob nd \<noteq> None" "nd \<noteq> od"
    using f [of nd] h [of od] by auto
  note b = bump_outcomes [OF this]
  have "succ1 (the (ob od)) (the (ob nd))"
    using assms(4) XW_Value2 o by auto
  note b4 = b(4) [OF _ this]
  show ?thesis
  proof (cases "bump2 nd od ob")
    case (Bumped ob2)
    then have "w' = XW_Store od nd" "ob' = ob2"
      using assms(1) XW_Value2 by (auto simp: sp_ex_writer_local_def)
    then show ?thesis
      using b4 [OF Bumped] by (auto simp: XW_Value2 dest!: succ12_good)
  qed (use assms(1) XW_Value2 b(2) f [of nd] in \<open>auto simp: sp_ex_writer_local_def\<close>)
qed (use assms(1-4) f in \<open>auto simp: sp_ex_writer_local_def split: if_splits\<close>)

lemma xr_local_ok:
  assumes "sp_ex_reader_local stop r ob = r'" "r \<notin> {XR_Fault, XR_Invalid_Data}" "xr_knows r ob"
    and h: "\<And>q. q \<in> xr_refs r \<Longrightarrow> \<exists>d. ob q = Some d \<and> good_data d"
  shows "xr_refs r' \<subseteq> xr_refs r \<and> xr_knows r' ob \<and> r' \<notin> {XR_Fault, XR_Invalid_Data}"
proof -
  have read: "\<exists>d. ob q = Some d \<and> fetch value1 ob q = Some (data_rank d) \<and> fetch value2 ob q = Some (data_rank d) \<and>
    value1 d = Some (data_rank d)" if "q \<in> xr_refs r" for q
    using h [OF that] by (auto simp: good_fetch good_data_rank)
  show ?thesis
  proof (cases r)
    case (XR_Value1 c)
    then show ?thesis using assms(1) read [of c] by (auto simp: sp_ex_reader_local_def)
  next
    case (XR_Value2 c x)
    then show ?thesis using assms(1-3) read [of c] by (auto simp: sp_ex_reader_local_def)
  qed (use assms(1,2) in \<open>auto simp: sp_ex_reader_local_def split: if_splits\<close>)
qed

interpretation sp_ex: shared_ptr_client sp_ex_fresh sp_ex_refs sp_ex_owns sp_ex_load sp_ex_store "\<lambda>_. None" sp_ex_local
  sp_ex_knows good_data "\<lambda>_. 0" "\<lambda>_. 0" sp_ex_failed "{SX_Writer XW_Loop, SX_Reader XR_Loop}" initial_data
proof
  fix stop a p ob p' ob'
  assume step: "sp_ex_local stop a p ob = (p', ob')" and p: "\<not> sp_ex_failed p" and a: "ob a = None" and k: "sp_ex_knows p ob"
    and f: "\<And>q. sp_ex_fresh p = Some q \<Longrightarrow> ob q \<noteq> None \<and> q \<notin> sp_ex_refs p"
    and h: "\<And>q. q \<in> sp_ex_refs p \<Longrightarrow> \<exists>d. ob q = Some d \<and> good_data d \<and> (0 :: int) \<le> 0"
  show "sp_ex_refs p' \<subseteq> sp_ex_refs p \<and>
    (sp_ex_fresh p' = sp_ex_fresh p \<or> sp_ex_fresh p' = None \<or> sp_ex_fresh p' = Some a) \<and>
    (\<forall>q. ob' q = ob q \<or> sp_ex_fresh p' = Some q) \<and> (\<forall>q. sp_ex_fresh p' = Some q \<longrightarrow> ob' q \<noteq> None) \<and>
    sp_ex_knows p' ob' \<and> \<not> sp_ex_failed p' \<and>
    ((0 :: int) \<le> 0 \<or> (\<exists>q\<in>sp_ex_refs p. \<exists>d. ob q = Some d \<and> (0 :: int) \<le> 0)) \<and>
    (\<forall>q\<in>sp_ex_refs p'. \<forall>d. ob q = Some d \<longrightarrow> (0 :: int) \<le> 0)"
  proof (cases p)
    case (SX_Writer w)
    then obtain w' where w': "p' = SX_Writer w'" "sp_ex_writer_local stop a w ob = (w', ob')"
      using step by (auto simp: sp_ex_local_def apfst_def map_prod_def split: prod.splits)
    have "xw_refs w' \<subseteq> xw_refs w \<and> (xw_fresh w' = xw_fresh w \<or> xw_fresh w' = None \<or> xw_fresh w' = Some a) \<and>
      (\<forall>q. ob' q = ob q \<or> xw_fresh w' = Some q) \<and> (\<forall>q. xw_fresh w' = Some q \<longrightarrow> ob' q \<noteq> None) \<and>
      xw_knows w' ob' \<and> w' \<noteq> XW_Fault"
      by (rule xw_local_ok [OF w'(2)]) (use p a k f h SX_Writer in \<open>auto simp: sp_ex_view_defs\<close>)
    then show ?thesis
      unfolding SX_Writer w'(1) sp_ex_view_defs by auto
  next
    case (SX_Reader r)
    define r' where "r' = sp_ex_reader_local stop r ob"
    have r': "p' = SX_Reader r'" "ob' = ob"
      using step SX_Reader by (auto simp: sp_ex_local_def r'_def)
    have "xr_refs r' \<subseteq> xr_refs r \<and> xr_knows r' ob \<and> r' \<notin> {XR_Fault, XR_Invalid_Data}"
      by (rule xr_local_ok [OF r'_def [symmetric]]) (use p k h SX_Reader in \<open>auto simp: sp_ex_view_defs\<close>)
    then show ?thesis
      using SX_Reader r' by (auto simp: sp_ex_view_defs)
  qed
next
  fix p :: sp_ex_thread and ob ob' :: "nat \<Rightarrow> snap_data option"
  assume "\<And>q. q \<in> sp_ex_owns p \<Longrightarrow> ob' q = ob q" "sp_ex_knows p ob"
  then show "sp_ex_knows p ob'"
    by (auto simp: sp_ex_view_defs split: sp_ex_thread.splits elim!: xw_knows.elims(2) xr_knows.elims(2))
next
  fix d
  show "initial_data d \<Longrightarrow> good_data d"
    by (simp add: initial_data_def good_data_def)
qed (auto simp: sp_ex_view_defs sp_ex_load_def sp_ex_store_def
    split: sp_ex_thread.splits sp_ex_writer.splits sp_ex_reader.splits)

section \<open>Correctness\<close>


text \<open>
  Executions in which thread 0, a writer, publishes its object at address 9 in place of the one
  at address 5, which is deleted when the last pointer to it goes away.
\<close>

definition solo :: "nat \<Rightarrow> (nat \<Rightarrow> snap_data option) \<Rightarrow> 'p \<Rightarrow> 'p \<Rightarrow> (snap_data, 'p) sp_state" where
  "solo g ob p r = \<lparr>global_ptr = g, objects = ob, at = (\<lambda>_. r)(0 := p)\<rparr>"

definition zero_data :: snap_data where
  "zero_data = \<lparr>value1 = Some 0, value2 = Some 0\<rparr>"

definition one_data :: snap_data where
  "one_data = \<lparr>value1 = Some 1, value2 = Some 1\<rparr>"

lemma solo_drop:
  assumes "owns r = {}"
  shows "drop_unowned owns g ((\<lambda>_. r)(0 := p)) ob = (\<lambda>q. if q = g \<or> q \<in> owns p then ob q else None)"
  using assms by (auto simp: drop_unowned_def owned_def fun_eq_iff)

lemma solo_steps:
  assumes r: "owns r = {}"
  shows solo_load: "load p = Some k \<Longrightarrow> ob' = (\<lambda>q. if q = g \<or> q \<in> owns (k g) then ob q else None) \<Longrightarrow>
      sp_step owns load store cas local (solo g ob p r) (solo g ob' (k g) r)"
    and solo_store: "store p = Some (n, p') \<Longrightarrow> ob' = (\<lambda>q. if q = n \<or> q \<in> owns p' then ob q else None) \<Longrightarrow>
      sp_step owns load store cas local (solo g ob p r) (solo n ob' p' r)"
    and solo_cas: "cas p = Some (g, n, p', k) \<Longrightarrow> ob' = (\<lambda>q. if q = n \<or> q \<in> owns p' then ob q else None) \<Longrightarrow>
      sp_step owns load store cas local (solo g ob p r) (solo n ob' p' r)"
    and solo_local: "local False a p ob = (p', ob1) \<Longrightarrow> a \<noteq> 0 \<Longrightarrow> ob a = None \<Longrightarrow>
      ob' = (\<lambda>q. if q = g \<or> q \<in> owns p' then ob1 q else None) \<Longrightarrow>
      sp_step owns load store cas local (solo g ob p r) (solo g ob' p' r)"
  using sp_step.Load [of load "solo g ob p r" 0 k "((\<lambda>_. r)(0 := k g))" owns store cas local]
    sp_step.Store [of store "solo g ob p r" 0 n p' "((\<lambda>_. r)(0 := p'))" owns load cas local]
    sp_step.Cas_Ok [of cas "solo g ob p r" 0 g n p' k "((\<lambda>_. r)(0 := p'))" owns load store local]
    sp_step.Local [of a "solo g ob p r" local False 0 p' ob1 "((\<lambda>_. r)(0 := p'))" owns load store cas]
  by (simp_all add: solo_def solo_drop [of owns r, OF r])

lemmas sp_run_defs = sp_cmp_local_def sp_cmp_writer_local_def sp_cmp_load_def sp_cmp_cas_def sp_cmp_view_defs
  sp_ex_local_def sp_ex_writer_local_def sp_ex_load_def sp_ex_store_def sp_ex_view_defs
  bump1_def bump2_def fetch_def INT64_MAX_def zero_data_def one_data_def

definition sp_cmp_state0 :: "(snap_data, sp_cmp_thread) sp_state" where
  "sp_cmp_state0 = solo 5 ((\<lambda>_. None)(5 := Some zero_data)) (SC_Writer SW_New) (SC_Reader (SR_Loop 0))"

definition sp_ex_state0 :: "(snap_data, sp_ex_thread) sp_state" where
  "sp_ex_state0 = solo 5 ((\<lambda>_. None)(5 := Some zero_data)) (SX_Writer XW_Loop) (SX_Reader XR_Loop)"

lemma sp_cmp_run:
  "reach sp_cmp_start sp_cmp_step
     (solo 9 ((\<lambda>_. None)(9 := Some one_data, 7 := Some \<lparr>value1 = None, value2 = None\<rparr>))
        (SC_Writer (SW_Loop 7)) (SC_Reader (SR_Loop 0)))"
proof -
  let ?r = "SC_Reader (SR_Loop 0)" and ?z = "(\<lambda>_. None)(5 := Some zero_data)"
  have r: "sp_cmp_owns ?r = {}"
    by (simp add: sp_cmp_view_defs)
  have "sp_cmp_start sp_cmp_state0"
    by (auto simp: sp_cmp_start_def sp_start_def sp_cmp_state0_def solo_def zero_data_def initial_data_def)
  moreover have "sp_cmp_step sp_cmp_state0 (solo 5 (?z(9 := Some zero_data)) (SC_Writer (SW_Loop 9)) ?r)"
    unfolding sp_cmp_step_def sp_cmp_state0_def
    by (rule solo_local [of sp_cmp_owns, OF r, where a = 9]) (auto simp: sp_run_defs)
  moreover have "sp_cmp_step (solo 5 (?z(9 := Some zero_data)) (SC_Writer (SW_Loop 9)) ?r)
      (solo 5 (?z(9 := Some zero_data)) (SC_Writer (SW_Load 9)) ?r)"
    unfolding sp_cmp_step_def
    by (rule solo_local [of sp_cmp_owns, OF r, where a = 7]) (auto simp: sp_run_defs)
  moreover have "sp_cmp_step (solo 5 (?z(9 := Some zero_data)) (SC_Writer (SW_Load 9)) ?r)
      (solo 5 (?z(9 := Some zero_data)) (SC_Writer (SW_Value1 9 5)) ?r)"
    unfolding sp_cmp_step_def
    by (rule solo_load [of sp_cmp_owns, OF r, where k = "\<lambda>q. SC_Writer (SW_Value1 9 q)"]) (auto simp: sp_run_defs)
  moreover have "sp_cmp_step (solo 5 (?z(9 := Some zero_data)) (SC_Writer (SW_Value1 9 5)) ?r)
      (solo 5 (?z(9 := Some (zero_data\<lparr>value1 := Some 1\<rparr>))) (SC_Writer (SW_Value2 9 5)) ?r)"
    unfolding sp_cmp_step_def
    by (rule solo_local [of sp_cmp_owns, OF r, where a = 7]) (auto simp: sp_run_defs)
  moreover have "sp_cmp_step (solo 5 (?z(9 := Some (zero_data\<lparr>value1 := Some 1\<rparr>))) (SC_Writer (SW_Value2 9 5)) ?r)
      (solo 5 (?z(9 := Some one_data)) (SC_Writer (SW_Cas 9 5)) ?r)"
    unfolding sp_cmp_step_def
    by (rule solo_local [of sp_cmp_owns, OF r, where a = 7]) (auto simp: sp_run_defs)
  moreover have "sp_cmp_step (solo 5 (?z(9 := Some one_data)) (SC_Writer (SW_Cas 9 5)) ?r)
      (solo 9 (?z(9 := Some one_data)) (SC_Writer (SW_Renew 9 5)) ?r)"
    unfolding sp_cmp_step_def
    by (rule solo_cas [of sp_cmp_owns, OF r]) (auto simp: sp_run_defs)
  moreover have "sp_cmp_step (solo 9 (?z(9 := Some one_data)) (SC_Writer (SW_Renew 9 5)) ?r)
      (solo 9 (?z(9 := Some one_data, 7 := Some \<lparr>value1 = None, value2 = None\<rparr>)) (SC_Writer (SW_End 7 5)) ?r)"
    unfolding sp_cmp_step_def
    by (rule solo_local [of sp_cmp_owns, OF r, where a = 7]) (auto simp: sp_run_defs)
  moreover have "sp_cmp_step
      (solo 9 (?z(9 := Some one_data, 7 := Some \<lparr>value1 = None, value2 = None\<rparr>)) (SC_Writer (SW_End 7 5)) ?r)
      (solo 9 ((\<lambda>_. None)(9 := Some one_data, 7 := Some \<lparr>value1 = None, value2 = None\<rparr>)) (SC_Writer (SW_Loop 7)) ?r)"
    unfolding sp_cmp_step_def
    by (rule solo_local [of sp_cmp_owns, OF r, where a = 3]) (auto simp: sp_run_defs)
  ultimately show ?thesis
    by (meson reach_init reach_step)
qed

lemma sp_ex_run:
  "reach sp_ex_start sp_ex_step (solo 9 ((\<lambda>_. None)(9 := Some one_data)) (SX_Writer XW_Loop) (SX_Reader XR_Loop))"
proof -
  let ?r = "SX_Reader XR_Loop" and ?z = "(\<lambda>_. None)(5 := Some zero_data)" and ?e = "\<lparr>value1 = None, value2 = None\<rparr>"
  have r: "sp_ex_owns ?r = {}"
    by (simp add: sp_ex_view_defs)
  have "sp_ex_start sp_ex_state0"
    by (auto simp: sp_ex_start_def sp_start_def sp_ex_state0_def solo_def zero_data_def initial_data_def)
  moreover have "sp_ex_step sp_ex_state0 (solo 5 ?z (SX_Writer XW_Load) ?r)"
    unfolding sp_ex_step_def sp_ex_state0_def
    by (rule solo_local [of sp_ex_owns, OF r, where a = 9]) (auto simp: sp_run_defs)
  moreover have "sp_ex_step (solo 5 ?z (SX_Writer XW_Load) ?r) (solo 5 ?z (SX_Writer (XW_New 5)) ?r)"
    unfolding sp_ex_step_def
    by (rule solo_load [of sp_ex_owns, OF r, where k = "\<lambda>q. SX_Writer (XW_New q)"]) (auto simp: sp_run_defs)
  moreover have "sp_ex_step (solo 5 ?z (SX_Writer (XW_New 5)) ?r) (solo 5 (?z(9 := Some ?e)) (SX_Writer (XW_Value1 5 9)) ?r)"
    unfolding sp_ex_step_def
    by (rule solo_local [of sp_ex_owns, OF r, where a = 9]) (auto simp: sp_run_defs)
  moreover have "sp_ex_step (solo 5 (?z(9 := Some ?e)) (SX_Writer (XW_Value1 5 9)) ?r)
      (solo 5 (?z(9 := Some (?e\<lparr>value1 := Some 1\<rparr>))) (SX_Writer (XW_Value2 5 9)) ?r)"
    unfolding sp_ex_step_def
    by (rule solo_local [of sp_ex_owns, OF r, where a = 7]) (auto simp: sp_run_defs)
  moreover have "sp_ex_step (solo 5 (?z(9 := Some (?e\<lparr>value1 := Some 1\<rparr>))) (SX_Writer (XW_Value2 5 9)) ?r)
      (solo 5 (?z(9 := Some one_data)) (SX_Writer (XW_Store 5 9)) ?r)"
    unfolding sp_ex_step_def
    by (rule solo_local [of sp_ex_owns, OF r, where a = 7]) (auto simp: sp_run_defs)
  moreover have "sp_ex_step (solo 5 (?z(9 := Some one_data)) (SX_Writer (XW_Store 5 9)) ?r)
      (solo 9 (?z(9 := Some one_data)) (SX_Writer (XW_End 5 9)) ?r)"
    unfolding sp_ex_step_def
    by (rule solo_store [of sp_ex_owns, OF r]) (auto simp: sp_run_defs)
  moreover have "sp_ex_step (solo 9 (?z(9 := Some one_data)) (SX_Writer (XW_End 5 9)) ?r)
      (solo 9 ((\<lambda>_. None)(9 := Some one_data)) (SX_Writer XW_Loop) ?r)"
    unfolding sp_ex_step_def
    by (rule solo_local [of sp_ex_owns, OF r, where a = 7]) (auto simp: sp_run_defs)
  ultimately show ?thesis
    by (meson reach_init reach_step)
qed


end
