(* ===== verification/Urcu_Backend.thy ===== *)
theory Urcu_Backend
  imports Bench_Backend Bench_Config
begin

text \<open>
  \<open>UrcuBackend\<close> of \<open>microbench/bench2/bench_all.cpp\<close>: one pointer per shard, readers that look at
  the object of their shard inside a read-side critical section, writers that exchange the
  pointer and give the old object back to the pool after a grace period, with \<open>call_rcu\<close> or in
  batches after \<open>synchronize_rcu\<close>. The userspace RCU library is not part of the repository: it is
  an argument of the model, and the locale \<open>rcu_library\<close> states what its documentation promises.
  The theory shows that no reader aborts and no thread touches or frees a block that is in the
  pool, and that \<open>stop\<close> leaves every block in the pool.
\<close>

section \<open>The library\<close>

text \<open>
  \<open>start_gp\<close> is the moment at which \<open>synchronize_rcu\<close> or \<open>call_rcu\<close> starts to wait, \<open>gp_over\<close>
  the test with which the wait ends; the first argument of the other operations is the thread.
\<close>

record ('r, 'g) rcu_lib =
  register_thread :: "nat \<Rightarrow> 'r \<Rightarrow> 'r"
  unregister_thread :: "nat \<Rightarrow> 'r \<Rightarrow> 'r"
  read_lock :: "nat \<Rightarrow> 'r \<Rightarrow> 'r"
  read_unlock :: "nat \<Rightarrow> 'r \<Rightarrow> 'r"
  start_gp :: "'r \<Rightarrow> 'g \<times> 'r"
  gp_over :: "'g \<Rightarrow> 'r \<Rightarrow> bool"

section \<open>The program\<close>

text \<open>\<open>struct UrcuObj\<close> with the payload behind it; a member that was not written yet is \<^term>\<open>None\<close>.\<close>

record urcu_obj =
  uv1 :: "u64 option"
  uv2 :: "u64 option"
  upool :: "unit option"
  upending :: "unit option"
  upayload :: "u8 list"

definition urcu_block :: "nat \<Rightarrow> (nat \<Rightarrow> u8) \<Rightarrow> nat \<Rightarrow> urcu_obj" where
  "urcu_block n junk a =
     \<lparr>uv1 = None, uv2 = None, upool = None, upending = None, upayload = map (\<lambda>i. junk (a + i)) [0..<n]\<rparr>"

text \<open>
  The members of \<open>UrcuBackend\<close> that the threads share: the library's state, the vector of
  pointers, the blocks that are in use, the two counters and the callbacks not yet run, each
  with the grace period it waits for. \<open>cb_fault\<close> records an access of a callback to a block that
  is not in use or not initialised.
\<close>

record ('r, 'g) urcu_shared =
  rcu :: 'r
  gptrs :: "nat list"
  blocks :: "nat \<Rightarrow> urcu_obj option"
  upend :: u64
  ufreed :: u64
  callbacks :: "('g \<times> nat) list"
  cb_fault :: bool

text \<open>
  Program points of \<open>writer_loop\<close> with \<open>shard\<close>, \<open>seq\<close>, the retire list and \<open>o\<close> or \<open>old\<close> where they
  are live. The code that waits for a grace period and frees the retire list stands in the loop
  and behind it: its first argument says where it goes on.
\<close>

datatype 'g urcu_writer =
    UW_Register nat
  | UW_Loop nat u64 "nat list"
  | UW_Pace nat u64 "nat list"
  | UW_Alloc nat u64 "nat list"
  | UW_Value1 nat u64 "nat list" nat
  | UW_Value2 nat u64 "nat list" nat
  | UW_Pool nat u64 "nat list" nat
  | UW_Pending nat u64 "nat list" nat
  | UW_Payload nat u64 "nat list" nat
  | UW_Xchg nat u64 "nat list" nat
  | UW_Old nat u64 "nat list" nat
  | UW_Call nat u64 "nat list" nat
  | UW_Sync "(nat \<times> u64) option" "nat list"
  | UW_Wait "(nat \<times> u64) option" 'g "nat list"
  | UW_Free "(nat \<times> u64) option" "nat list"
  | UW_Freed "(nat \<times> u64) option" "nat list"
  | UW_Next nat u64 "nat list"
  | UW_Leave "nat list"
  | UW_Unregister "nat list"
  | UW_Done "nat list"
  | UW_Fault

datatype urcu_reader =
    UR_Register nat
  | UR_Loop nat
  | UR_Lock nat
  | UR_Deref nat
  | UR_Value1 nat nat
  | UR_Value2 nat nat u64
  | UR_Touch nat nat
  | UR_Unlock nat
  | UR_Unregister
  | UR_Done
  | UR_Mismatch
  | UR_Fault

definition put_member :: "(urcu_obj \<Rightarrow> urcu_obj) \<Rightarrow> nat \<Rightarrow> ('r, 'g) urcu_shared \<Rightarrow> ('r, 'g) urcu_shared option" where
  "put_member f q s = map_option (\<lambda>d. s\<lparr>blocks := (blocks s)(q := Some (f d))\<rparr>) (blocks s q)"

text \<open>\<open>pool->free\<close>; \<^term>\<open>None\<close> when the block is not in use.\<close>

definition pool_free :: "nat \<Rightarrow> ('r, 'g) urcu_shared \<Rightarrow> ('r, 'g) urcu_shared option" where
  "pool_free q s = (if blocks s q = None then None else Some (s\<lparr>blocks := (blocks s)(q := None)\<rparr>))"

definition after_put ::
  "('r, 'g) urcu_shared option \<Rightarrow> 'g urcu_writer \<Rightarrow> ('r, 'g) urcu_shared \<Rightarrow> 'g urcu_writer \<times> ('r, 'g) urcu_shared" where
  "after_put res p s = (case res of Some s' \<Rightarrow> (p, s') | None \<Rightarrow> (UW_Fault, s))"

text \<open>
  One step of a writer; \<^term>\<open>None\<close> while it waits. \<open>stop\<close> is the answer of \<open>running\<close>, negated, at
  the head of the loop and of the test of the clock at \<open>UW_Pace\<close>; \<open>a\<close> is the block the pool hands
  out and \<open>junk\<close> its bytes.
\<close>

definition urcu_writer_step ::
  "Config \<Rightarrow> ('r, 'g) rcu_lib \<Rightarrow> (nat \<Rightarrow> u8) \<Rightarrow> bool \<Rightarrow> nat \<Rightarrow> nat \<Rightarrow> 'g urcu_writer \<Rightarrow> ('r, 'g) urcu_shared \<Rightarrow>
   ('g urcu_writer \<times> ('r, 'g) urcu_shared) option" where
  "urcu_writer_step c L junk stop a t p s = (case p of
     UW_Register sh \<Rightarrow> Some (UW_Loop sh 0 [], s\<lparr>rcu := register_thread L t (rcu s)\<rparr>)
   | UW_Loop sh seq rl \<Rightarrow>
       Some (if stop then UW_Leave rl else if update_interval (updates_per_sec c) \<noteq> 0 then UW_Pace sh seq rl
             else UW_Alloc sh seq rl, s)
   | UW_Pace sh seq rl \<Rightarrow> Some (if stop then UW_Loop sh seq rl else UW_Alloc sh seq rl, s)
   | UW_Alloc sh seq rl \<Rightarrow>
       Some (UW_Value1 sh (seq + 1) rl a, s\<lparr>blocks := (blocks s)(a := Some (urcu_block (unat (payload_bytes c)) junk a))\<rparr>)
   | UW_Value1 sh seq rl q \<Rightarrow> Some (after_put (put_member (uv1_update (\<lambda>_. Some seq)) q s) (UW_Value2 sh seq rl q) s)
   | UW_Value2 sh seq rl q \<Rightarrow> Some (after_put (put_member (uv2_update (\<lambda>_. Some seq)) q s) (UW_Pool sh seq rl q) s)
   | UW_Pool sh seq rl q \<Rightarrow> Some (after_put (put_member (upool_update (\<lambda>_. Some ())) q s) (UW_Pending sh seq rl q) s)
   | UW_Pending sh seq rl q \<Rightarrow> Some (after_put (put_member (upending_update (\<lambda>_. Some ())) q s) (UW_Payload sh seq rl q) s)
   | UW_Payload sh seq rl q \<Rightarrow>
       Some (case Option.bind (blocks s q) (\<lambda>d. write_payload (unat (payload_bytes c)) seq (upayload d)) of
          Some pl \<Rightarrow> after_put (put_member (upayload_update (\<lambda>_. pl)) q s) (UW_Xchg sh seq rl q) s
        | None \<Rightarrow> (UW_Fault, s))
   | UW_Xchg sh seq rl q \<Rightarrow>
       Some (if sh < length (gptrs s)
             then (UW_Old sh seq rl (gptrs s ! sh), s\<lparr>gptrs := (gptrs s)[sh := q]\<rparr>) else (UW_Fault, s))
   | UW_Old sh seq rl old \<Rightarrow>
       Some (if old = 0 then (UW_Next sh seq rl, s)
             else if reclaim c = ''async'' then (UW_Call sh seq rl old, s\<lparr>upend := upend s + 1\<rparr>)
             else if length (rl @ [old]) \<ge> unat (sync_batch c) then (UW_Sync (Some (sh, seq)) (rl @ [old]), s)
             else (UW_Next sh seq (rl @ [old]), s))
   | UW_Call sh seq rl old \<Rightarrow>
       (let (g, r) = start_gp L (rcu s) in
        Some (UW_Next sh seq rl, s\<lparr>rcu := r, callbacks := callbacks s @ [(g, old)]\<rparr>))
   | UW_Sync k rl \<Rightarrow> (let (g, r) = start_gp L (rcu s) in Some (UW_Wait k g rl, s\<lparr>rcu := r\<rparr>))
   | UW_Wait k g rl \<Rightarrow> if gp_over L g (rcu s) then Some (UW_Free k rl, s) else None
   | UW_Free k xs \<Rightarrow>
       Some (case xs of
          [] \<Rightarrow> (case k of Some (sh, seq) \<Rightarrow> UW_Next sh seq [] | None \<Rightarrow> UW_Unregister [], s)
        | x # ys \<Rightarrow> after_put (pool_free x s) (UW_Freed k ys) s)
   | UW_Freed k xs \<Rightarrow> Some (UW_Free k xs, s\<lparr>ufreed := ufreed s + 1\<rparr>)
   | UW_Next sh seq rl \<Rightarrow> Some (UW_Loop (next_shard (nat (shards c)) sh) seq rl, s)
   | UW_Leave rl \<Rightarrow> Some (if reclaim c = ''sync-batch'' \<and> rl \<noteq> [] then UW_Sync None rl else UW_Unregister rl, s)
   | UW_Unregister rl \<Rightarrow> Some (UW_Done rl, s\<lparr>rcu := unregister_thread L t (rcu s)\<rparr>)
   | UW_Done rl \<Rightarrow> None
   | UW_Fault \<Rightarrow> None)"

definition urcu_reader_step ::
  "Config \<Rightarrow> ('r, 'g) rcu_lib \<Rightarrow> bool \<Rightarrow> nat \<Rightarrow> urcu_reader \<Rightarrow> ('r, 'g) urcu_shared \<Rightarrow>
   (urcu_reader \<times> ('r, 'g) urcu_shared) option" where
  "urcu_reader_step c L stop t p s = (case p of
     UR_Register sh \<Rightarrow> Some (UR_Loop sh, s\<lparr>rcu := register_thread L t (rcu s)\<rparr>)
   | UR_Loop sh \<Rightarrow> Some (if stop then UR_Unregister else UR_Lock sh, s)
   | UR_Lock sh \<Rightarrow> Some (UR_Deref sh, s\<lparr>rcu := read_lock L t (rcu s)\<rparr>)
   | UR_Deref sh \<Rightarrow>
       Some (if sh < length (gptrs s) then (let q = gptrs s ! sh in if q \<noteq> 0 then UR_Value1 sh q else UR_Unlock sh)
             else UR_Fault, s)
   | UR_Value1 sh q \<Rightarrow> Some (case Option.bind (blocks s q) uv1 of Some x \<Rightarrow> UR_Value2 sh q x | None \<Rightarrow> UR_Fault, s)
   | UR_Value2 sh q x \<Rightarrow>
       Some (case Option.bind (blocks s q) uv2 of
          Some y \<Rightarrow> if x \<noteq> y then UR_Mismatch else UR_Touch sh q | None \<Rightarrow> UR_Fault, s)
   | UR_Touch sh q \<Rightarrow>
       Some (case Option.bind (blocks s q) (\<lambda>d. payload_touch (upayload d) (unat (payload_bytes c))) of
          Some acc \<Rightarrow> UR_Unlock sh | None \<Rightarrow> UR_Fault, s)
   | UR_Unlock sh \<Rightarrow> Some (UR_Loop sh, s\<lparr>rcu := read_unlock L t (rcu s)\<rparr>)
   | UR_Unregister \<Rightarrow> Some (UR_Done, s\<lparr>rcu := unregister_thread L t (rcu s)\<rparr>)
   | UR_Done \<Rightarrow> None
   | UR_Mismatch \<Rightarrow> None
   | UR_Fault \<Rightarrow> None)"

definition urcu_free_cb :: "nat \<Rightarrow> ('r, 'g) urcu_shared \<Rightarrow> ('r, 'g) urcu_shared" where
  "urcu_free_cb q s = (case blocks s q of
     Some d \<Rightarrow>
       if upending d = None \<or> upool d = None then s\<lparr>cb_fault := True\<rparr>
       else s\<lparr>upend := upend s - 1, blocks := (blocks s)(q := None)\<rparr>
   | None \<Rightarrow> s\<lparr>cb_fault := True\<rparr>)"

datatype 'g urcu_thread = U_Writer "'g urcu_writer" | U_Reader urcu_reader

record ('r, 'g) urcu_state =
  ush :: "('r, 'g) urcu_shared"
  upoint :: "nat \<Rightarrow> 'g urcu_thread"

text \<open>
  A step of a writer, of a reader, or of the library's helper thread, which runs a callback when
  its grace period is over. The pool hands out a block that is not in use.
\<close>

inductive urcu_step :: "Config \<Rightarrow> ('r, 'g) rcu_lib \<Rightarrow> (nat \<Rightarrow> u8) \<Rightarrow> ('r, 'g) urcu_state \<Rightarrow> ('r, 'g) urcu_state \<Rightarrow> bool"
  for c L junk where
  Writer:
    "upoint s t = U_Writer p \<Longrightarrow> a \<noteq> 0 \<Longrightarrow> blocks (ush s) a = None \<Longrightarrow>
     urcu_writer_step c L junk stop a t p (ush s) = Some (p', h) \<Longrightarrow>
     urcu_step c L junk s (s\<lparr>ush := h, upoint := (upoint s)(t := U_Writer p')\<rparr>)"
| Reader:
    "upoint s t = U_Reader p \<Longrightarrow> urcu_reader_step c L stop t p (ush s) = Some (p', h) \<Longrightarrow>
     urcu_step c L junk s (s\<lparr>ush := h, upoint := (upoint s)(t := U_Reader p')\<rparr>)"
| Callback:
    "i < length (callbacks (ush s)) \<Longrightarrow> callbacks (ush s) ! i = (g, q) \<Longrightarrow> gp_over L g (rcu (ush s)) \<Longrightarrow>
     urcu_step c L junk s
       (s\<lparr>ush := urcu_free_cb q ((ush s)\<lparr>callbacks := take i (callbacks (ush s)) @ drop (Suc i) (callbacks (ush s))\<rparr>)\<rparr>)"

text \<open>\<open>init\<close>: a block from the pool with counters 0 in every shard; the threads start at their loops.\<close>

definition urcu_initial :: "nat \<Rightarrow> urcu_obj \<Rightarrow> bool" where
  "urcu_initial n d \<longleftrightarrow>
     uv1 d = Some 0 \<and> uv2 d = Some 0 \<and> upool d = Some () \<and> upending d = Some () \<and> length (upayload d) = n \<and>
     (n \<noteq> 0 \<longrightarrow> upayload d ! 0 = 0 \<and> upayload d ! (n - 1) = 0)"

definition urcu_start :: "Config \<Rightarrow> ('r, 'g) urcu_state \<Rightarrow> bool" where
  "urcu_start c s \<longleftrightarrow> config_ok c \<and> backend c = ''urcu'' \<and>
     length (gptrs (ush s)) = nat (shards c) \<and> distinct (gptrs (ush s)) \<and> 0 \<notin> set (gptrs (ush s)) \<and>
     (\<forall>q. if q \<in> set (gptrs (ush s)) then \<exists>d. blocks (ush s) q = Some d \<and> urcu_initial (unat (payload_bytes c)) d
          else blocks (ush s) q = None) \<and>
     upend (ush s) = 0 \<and> ufreed (ush s) = 0 \<and> callbacks (ush s) = [] \<and> \<not> cb_fault (ush s) \<and>
     (\<forall>t. (\<exists>i. upoint s t = U_Writer (UW_Register (i mod nat (shards c)))) \<or>
          (\<exists>i. upoint s t = U_Reader (UR_Register (i mod nat (shards c)))))"

text \<open>
  \<open>stop\<close>, which \<open>main\<close> calls when the threads are joined: \<open>rcu_barrier\<close> returns when the callbacks
  have run, then each pointer is taken out and its block freed. \<^term>\<open>None\<close> is a block freed twice.
\<close>

fun stop_loop :: "nat list \<Rightarrow> ('r, 'g) urcu_shared \<Rightarrow> ('r, 'g) urcu_shared option" where
  "stop_loop [] s = Some s"
| "stop_loop (k # ks) s =
     (let p = gptrs s ! k; s1 = s\<lparr>gptrs := (gptrs s)[k := 0]\<rparr> in
      case if p = 0 then Some s1 else pool_free p s1 of None \<Rightarrow> None | Some s2 \<Rightarrow> stop_loop ks s2)"

definition urcu_stop :: "('r, 'g) urcu_shared \<Rightarrow> ('r, 'g) urcu_shared option" where
  "urcu_stop s = stop_loop [0..<length (gptrs s)] s"

section \<open>What the library promises\<close>

text \<open>
  \<open>reg t r\<close> says that thread \<open>t\<close> is registered, \<open>ins t r\<close> that it is inside a critical section,
  and \<open>blk g r t\<close> that it was inside one when grace period \<open>g\<close> started and has not left it since.
  A grace period is over only when no thread is left in that position; an operation of a thread
  changes nothing for the others.
\<close>

locale rcu_library =
  fixes L :: "('r, 'g) rcu_lib" and reg :: "nat \<Rightarrow> 'r \<Rightarrow> bool" and ins :: "nat \<Rightarrow> 'r \<Rightarrow> bool"
    and blk :: "'g \<Rightarrow> 'r \<Rightarrow> nat \<Rightarrow> bool"
  assumes register_self: "reg t (register_thread L t r)"
    and lock_self: "reg t r \<Longrightarrow> reg t (read_lock L t r) \<and> ins t (read_lock L t r)"
    and unlock_self: "reg t r \<Longrightarrow> reg t (read_unlock L t r)"
    and others: "op \<in> {register_thread L, unregister_thread L, read_lock L, read_unlock L} \<Longrightarrow> u \<noteq> t \<Longrightarrow>
      reg u (op t r) = reg u r \<and> ins u (op t r) = ins u r \<and> (blk g r u \<longrightarrow> blk g (op t r) u)"
    and start: "start_gp L r = (g, r') \<Longrightarrow> reg u r' = reg u r \<and> ins u r' = ins u r \<and>
      (ins u r \<longrightarrow> blk g r' u) \<and> (blk g' r u \<longrightarrow> blk g' r' u)"
    and over: "gp_over L g r \<Longrightarrow> \<not> blk g r u"

section \<open>Where every block is\<close>

datatype 'g place =
    Pooled
  | Fresh nat
  | Shared nat
  | Retired nat
  | Waiting nat 'g
  | Freeing nat
  | Queued 'g

fun place_owner :: "'g place \<Rightarrow> nat option" where
  "place_owner (Fresh t) = Some t"
| "place_owner (Retired t) = Some t"
| "place_owner (Waiting t g) = Some t"
| "place_owner (Freeing t) = Some t"
| "place_owner _ = None"

definition published :: "'g place \<Rightarrow> bool" where
  "published x \<longleftrightarrow> (case x of Pooled \<Rightarrow> False | Fresh t \<Rightarrow> False | _ \<Rightarrow> True)"

definition good_block :: "nat \<Rightarrow> urcu_obj \<Rightarrow> bool" where
  "good_block n d \<longleftrightarrow> uv1 d \<noteq> None \<and> uv2 d = uv1 d \<and> upool d \<noteq> None \<and> upending d \<noteq> None \<and> length (upayload d) = n"

text \<open>A block that thread \<open>u\<close> may read when it is inside a critical section.\<close>

definition readable :: "('g \<Rightarrow> 'r \<Rightarrow> nat \<Rightarrow> bool) \<Rightarrow> 'r \<Rightarrow> nat \<Rightarrow> 'g place \<Rightarrow> bool" where
  "readable blk r u x = (case x of
     Shared k \<Rightarrow> True | Retired t \<Rightarrow> True | Waiting t g \<Rightarrow> blk g r u | Queued g \<Rightarrow> blk g r u | _ \<Rightarrow> False)"

fun w_fresh :: "'g urcu_writer \<Rightarrow> nat option" where
  "w_fresh (UW_Value1 sh seq rl q) = Some q"
| "w_fresh (UW_Value2 sh seq rl q) = Some q"
| "w_fresh (UW_Pool sh seq rl q) = Some q"
| "w_fresh (UW_Pending sh seq rl q) = Some q"
| "w_fresh (UW_Payload sh seq rl q) = Some q"
| "w_fresh (UW_Xchg sh seq rl q) = Some q"
| "w_fresh _ = None"

fun w_retired :: "'g urcu_writer \<Rightarrow> nat list" where
  "w_retired (UW_Loop sh seq rl) = rl"
| "w_retired (UW_Pace sh seq rl) = rl"
| "w_retired (UW_Alloc sh seq rl) = rl"
| "w_retired (UW_Value1 sh seq rl q) = rl"
| "w_retired (UW_Value2 sh seq rl q) = rl"
| "w_retired (UW_Pool sh seq rl q) = rl"
| "w_retired (UW_Pending sh seq rl q) = rl"
| "w_retired (UW_Payload sh seq rl q) = rl"
| "w_retired (UW_Xchg sh seq rl q) = rl"
| "w_retired (UW_Old sh seq rl old) = rl @ [old]"
| "w_retired (UW_Call sh seq rl old) = rl @ [old]"
| "w_retired (UW_Sync k rl) = rl"
| "w_retired (UW_Next sh seq rl) = rl"
| "w_retired (UW_Leave rl) = rl"
| "w_retired (UW_Unregister rl) = rl"
| "w_retired (UW_Done rl) = rl"
| "w_retired _ = []"

fun w_waiting :: "'g urcu_writer \<Rightarrow> ('g \<times> nat list) option" where
  "w_waiting (UW_Wait k g rl) = Some (g, rl)"
| "w_waiting _ = None"

fun w_freeing :: "'g urcu_writer \<Rightarrow> nat list" where
  "w_freeing (UW_Free k xs) = xs"
| "w_freeing (UW_Freed k xs) = xs"
| "w_freeing _ = []"

text \<open>The local variables of a writer that is not at a fault.\<close>

fun w_shard :: "'g urcu_writer \<Rightarrow> nat option" where
  "w_shard (UW_Register sh) = Some sh"
| "w_shard (UW_Loop sh seq rl) = Some sh"
| "w_shard (UW_Pace sh seq rl) = Some sh"
| "w_shard (UW_Alloc sh seq rl) = Some sh"
| "w_shard (UW_Value1 sh seq rl q) = Some sh"
| "w_shard (UW_Value2 sh seq rl q) = Some sh"
| "w_shard (UW_Pool sh seq rl q) = Some sh"
| "w_shard (UW_Pending sh seq rl q) = Some sh"
| "w_shard (UW_Payload sh seq rl q) = Some sh"
| "w_shard (UW_Xchg sh seq rl q) = Some sh"
| "w_shard (UW_Old sh seq rl old) = Some sh"
| "w_shard (UW_Call sh seq rl old) = Some sh"
| "w_shard (UW_Sync k rl) = map_option fst k"
| "w_shard (UW_Wait k g rl) = map_option fst k"
| "w_shard (UW_Free k rl) = map_option fst k"
| "w_shard (UW_Freed k rl) = map_option fst k"
| "w_shard (UW_Next sh seq rl) = Some sh"
| "w_shard _ = None"

fun w_data :: "nat \<Rightarrow> 'g urcu_writer \<Rightarrow> urcu_obj \<Rightarrow> bool" where
  "w_data n (UW_Value1 sh seq rl q) d \<longleftrightarrow> length (upayload d) = n"
| "w_data n (UW_Value2 sh seq rl q) d \<longleftrightarrow> length (upayload d) = n \<and> uv1 d = Some seq"
| "w_data n (UW_Pool sh seq rl q) d \<longleftrightarrow> length (upayload d) = n \<and> uv1 d = Some seq \<and> uv2 d = Some seq"
| "w_data n (UW_Pending sh seq rl q) d \<longleftrightarrow>
     length (upayload d) = n \<and> uv1 d = Some seq \<and> uv2 d = Some seq \<and> upool d \<noteq> None"
| "w_data n p d \<longleftrightarrow> good_block n d"

text \<open>
  Only the mode \<open>sync-batch\<close> uses the retire list, and it is empty once the writer has left its loop and
  waited for the last grace period; \<open>old\<close> is never null.
\<close>

fun w_mode :: "bool \<Rightarrow> 'g urcu_writer \<Rightarrow> bool" where
  "w_mode async (UW_Old sh seq rl old) \<longleftrightarrow> old \<noteq> 0 \<and> (async \<longrightarrow> rl = [])"
| "w_mode async (UW_Call sh seq rl old) \<longleftrightarrow> rl = []"
| "w_mode async (UW_Unregister rl) \<longleftrightarrow> rl = []"
| "w_mode async (UW_Done rl) \<longleftrightarrow> rl = []"
| "w_mode async UW_Fault \<longleftrightarrow> False"
| "w_mode async (UW_Sync k rl) \<longleftrightarrow> True"
| "w_mode async p \<longleftrightarrow> (async \<longrightarrow> w_retired p = [])"

definition w_inv :: "Config \<Rightarrow> nat \<Rightarrow> (nat \<Rightarrow> 'g place) \<Rightarrow> (nat \<Rightarrow> urcu_obj option) \<Rightarrow> 'g urcu_writer \<Rightarrow> bool" where
  "w_inv c t st hp p \<longleftrightarrow>
     (\<forall>q. st q = Fresh t \<longleftrightarrow> w_fresh p = Some q) \<and>
     (\<forall>q. q \<in> set (w_retired p) \<longleftrightarrow> st q = Retired t) \<and>
     (\<forall>q g. st q = Waiting t g \<longleftrightarrow> (\<exists>xs. w_waiting p = Some (g, xs) \<and> q \<in> set xs)) \<and>
     (\<forall>q. q \<in> set (w_freeing p) \<longleftrightarrow> st q = Freeing t) \<and>
     distinct (w_retired p) \<and> distinct (w_freeing p) \<and> (\<forall>g xs. w_waiting p = Some (g, xs) \<longrightarrow> distinct xs) \<and>
     (\<forall>sh. w_shard p = Some sh \<longrightarrow> sh < nat (shards c)) \<and> w_mode (reclaim c = ''async'') p \<and>
     (\<forall>q d. w_fresh p = Some q \<longrightarrow> hp q = Some d \<longrightarrow> w_data (unat (payload_bytes c)) p d)"

fun r_reading :: "urcu_reader \<Rightarrow> nat option" where
  "r_reading (UR_Value1 sh q) = Some q"
| "r_reading (UR_Value2 sh q x) = Some q"
| "r_reading (UR_Touch sh q) = Some q"
| "r_reading _ = None"

fun r_shard :: "urcu_reader \<Rightarrow> nat option" where
  "r_shard (UR_Register sh) = Some sh"
| "r_shard (UR_Loop sh) = Some sh"
| "r_shard (UR_Lock sh) = Some sh"
| "r_shard (UR_Deref sh) = Some sh"
| "r_shard (UR_Value1 sh q) = Some sh"
| "r_shard (UR_Value2 sh q x) = Some sh"
| "r_shard (UR_Touch sh q) = Some sh"
| "r_shard (UR_Unlock sh) = Some sh"
| "r_shard _ = None"

fun r_inside :: "urcu_reader \<Rightarrow> bool" where
  "r_inside (UR_Deref sh) \<longleftrightarrow> True"
| "r_inside (UR_Value1 sh q) \<longleftrightarrow> True"
| "r_inside (UR_Value2 sh q x) \<longleftrightarrow> True"
| "r_inside (UR_Touch sh q) \<longleftrightarrow> True"
| "r_inside (UR_Unlock sh) \<longleftrightarrow> True"
| "r_inside _ \<longleftrightarrow> False"

fun r_registered :: "urcu_reader \<Rightarrow> bool" where
  "r_registered (UR_Register sh) \<longleftrightarrow> False"
| "r_registered UR_Done \<longleftrightarrow> False"
| "r_registered _ \<longleftrightarrow> True"

fun r_data :: "urcu_reader \<Rightarrow> urcu_obj \<Rightarrow> bool" where
  "r_data (UR_Value2 sh q x) d \<longleftrightarrow> uv1 d = Some x"
| "r_data p d \<longleftrightarrow> True"

definition sh_inv :: "Config \<Rightarrow> (nat \<Rightarrow> 'g place) \<Rightarrow> ('r, 'g) urcu_shared \<Rightarrow> bool" where
  "sh_inv c st h \<longleftrightarrow> length (gptrs h) = nat (shards c) \<and> st 0 = Pooled \<and>
     (\<forall>k<length (gptrs h). st (gptrs h ! k) = Shared k) \<and>
     (\<forall>q k. st q = Shared k \<longrightarrow> k < length (gptrs h) \<and> gptrs h ! k = q) \<and>
     (\<forall>q g. (g, q) \<in> set (callbacks h) \<longleftrightarrow> st q = Queued g) \<and> distinct (map snd (callbacks h)) \<and>
     (\<forall>q. blocks h q = None \<longleftrightarrow> st q = Pooled) \<and>
     (\<forall>q d. published (st q) \<longrightarrow> blocks h q = Some d \<longrightarrow> good_block (unat (payload_bytes c)) d) \<and> \<not> cb_fault h"

context rcu_library
begin

definition r_inv :: "Config \<Rightarrow> nat \<Rightarrow> (nat \<Rightarrow> 'g place) \<Rightarrow> ('r, 'g) urcu_shared \<Rightarrow> urcu_reader \<Rightarrow> bool" where
  "r_inv c t st h p \<longleftrightarrow>
     (\<forall>q. place_owner (st q) \<noteq> Some t) \<and> (r_registered p \<longrightarrow> reg t (rcu h)) \<and> (r_inside p \<longrightarrow> ins t (rcu h)) \<and>
     (\<forall>q. r_reading p = Some q \<longrightarrow> readable blk (rcu h) t (st q) \<and> (\<forall>d. blocks h q = Some d \<longrightarrow> r_data p d)) \<and>
     (\<forall>sh. r_shard p = Some sh \<longrightarrow> sh < nat (shards c)) \<and> p \<notin> {UR_Mismatch, UR_Fault}"

definition t_inv :: "Config \<Rightarrow> nat \<Rightarrow> (nat \<Rightarrow> 'g place) \<Rightarrow> ('r, 'g) urcu_shared \<Rightarrow> 'g urcu_thread \<Rightarrow> bool" where
  "t_inv c t st h x \<longleftrightarrow> (case x of U_Writer p \<Rightarrow> w_inv c t st (blocks h) p | U_Reader p \<Rightarrow> r_inv c t st h p)"

definition u_inv :: "Config \<Rightarrow> ('r, 'g) urcu_state \<Rightarrow> bool" where
  "u_inv c s \<longleftrightarrow> config_ok c \<and> backend c = ''urcu'' \<and>
     (\<exists>st. sh_inv c st (ush s) \<and> (\<forall>t. t_inv c t st (ush s) (upoint s t)))"

text \<open>A step of thread \<open>t\<close> leaves alone what the other threads own and what they may read.\<close>

definition undisturbed ::
  "nat \<Rightarrow> (nat \<Rightarrow> 'g place) \<Rightarrow> ('r, 'g) urcu_shared \<Rightarrow> (nat \<Rightarrow> 'g place) \<Rightarrow> ('r, 'g) urcu_shared \<Rightarrow> bool" where
  "undisturbed u st h st' h' \<longleftrightarrow>
     (\<forall>q. place_owner (st q) = Some u \<or> place_owner (st' q) = Some u \<longrightarrow> st' q = st q \<and> blocks h' q = blocks h q) \<and>
     (\<forall>q. ins u (rcu h) \<longrightarrow> readable blk (rcu h) u (st q) \<longrightarrow>
        readable blk (rcu h') u (st' q) \<and> blocks h' q = blocks h q) \<and>
     (reg u (rcu h) \<longrightarrow> reg u (rcu h')) \<and> (ins u (rcu h) \<longrightarrow> ins u (rcu h'))"

lemma reading_inside: "r_reading p = Some q \<Longrightarrow> r_inside p"
  by (cases p) auto

lemma w_inv_frame:
  assumes "w_inv c u st hp p"
    and o: "\<And>q. place_owner (st q) = Some u \<or> place_owner (st' q) = Some u \<Longrightarrow> st' q = st q \<and> hp' q = hp q"
  shows "w_inv c u st' hp' p"
proof -
  have e: "st' q = x \<longleftrightarrow> st q = x" if "place_owner x = Some u" for q x
    using o [of q] that by metis
  have "hp' q = hp q" if "w_fresh p = Some q" for q
    using assms(1) o [of q] that unfolding w_inv_def by (metis place_owner.simps(1))
  with assms(1) show ?thesis
    by (auto simp: w_inv_def e)
qed

lemma t_inv_frame:
  assumes t: "t_inv c u st h x" and u: "undisturbed u st h st' h'"
  shows "t_inv c u st' h' x"
proof (cases x)
  case (U_Writer p)
  then show ?thesis
    using t u w_inv_frame [of c u st "blocks h" p st' "blocks h'"] unfolding t_inv_def undisturbed_def by simp blast
next
  case (U_Reader p)
  then have r: "r_inv c u st h p"
    using t by (simp add: t_inv_def)
  have "place_owner (st' q) \<noteq> Some u" for q
    using r u unfolding r_inv_def undisturbed_def by metis
  moreover have "readable blk (rcu h') u (st' q) \<and> blocks h' q = blocks h q" if "r_reading p = Some q" for q
    using r u reading_inside [OF that] that by (auto simp: r_inv_def undisturbed_def)
  ultimately have "r_inv c u st' h' p"
    using r u by (auto simp: r_inv_def undisturbed_def)
  then show ?thesis
    using U_Reader by (simp add: t_inv_def)
qed

lemma u_inv_step:
  assumes "u_inv c s" "\<And>st. sh_inv c st (ush s) \<Longrightarrow> t_inv c t st (ush s) (upoint s t) \<Longrightarrow>
      \<exists>st'. sh_inv c st' h \<and> t_inv c t st' h x \<and> (\<forall>u. u \<noteq> t \<longrightarrow> undisturbed u st (ush s) st' h)"
  shows "u_inv c (s\<lparr>ush := h, upoint := (upoint s)(t := x)\<rparr>)"
proof -
  obtain st where st: "sh_inv c st (ush s)" "\<And>t. t_inv c t st (ush s) (upoint s t)"
    using assms(1) by (auto simp: u_inv_def)
  obtain st' where st': "sh_inv c st' h" "t_inv c t st' h x" "\<And>u. u \<noteq> t \<Longrightarrow> undisturbed u st (ush s) st' h"
    using assms(2) [OF st] by blast
  have "t_inv c u st' h (((upoint s)(t := x)) u)" for u
    using t_inv_frame [OF st(2) [of u]] st'(2,3) by (cases "u = t") auto
  moreover have "ush (s\<lparr>ush := h, upoint := (upoint s)(t := x)\<rparr>) = h"
    "upoint (s\<lparr>ush := h, upoint := (upoint s)(t := x)\<rparr>) = (upoint s)(t := x)"
    by simp_all
  ultimately show ?thesis
    using assms(1) st'(1) unfolding u_inv_def by metis
qed

lemma readable_mono: "readable blk r u x \<Longrightarrow> (\<And>g. blk g r u \<Longrightarrow> blk g r' u) \<Longrightarrow> readable blk r' u x"
  by (cases x) (auto simp: readable_def)

lemma undisturbed_op:
  assumes "op \<in> {register_thread L, unregister_thread L, read_lock L, read_unlock L}" "u \<noteq> t" "rcu h' = op t (rcu h)"
    "blocks h' = blocks h"
  shows "undisturbed u st h st h'"
  using others [OF assms(1,2)] assms(3,4) by (auto simp: undisturbed_def intro: readable_mono)

lemma undisturbed_same: "rcu h' = rcu h \<Longrightarrow> blocks h' = blocks h \<Longrightarrow> undisturbed u st h st h'"
  by (simp add: undisturbed_def)

lemma undisturbed_fresh:
  assumes "st q = Fresh t" "u \<noteq> t" "rcu h' = rcu h" "\<And>x. x \<noteq> q \<Longrightarrow> blocks h' x = blocks h x"
  shows "undisturbed u st h st h'"
  unfolding undisturbed_def
proof (intro conjI allI impI)
  fix x
  show "readable blk (rcu h') u (st x)" "blocks h' x = blocks h x" if "readable blk (rcu h) u (st x)"
    using assms that by (cases "x = q"; simp add: readable_def)+
  show "blocks h' x = blocks h x" if "place_owner (st x) = Some u \<or> place_owner (st x) = Some u"
    using assms that by (cases "x = q") auto
qed (use assms in auto)

lemma sh_inv_same:
  "sh_inv c st h \<Longrightarrow> gptrs h' = gptrs h \<Longrightarrow> callbacks h' = callbacks h \<Longrightarrow> blocks h' = blocks h \<Longrightarrow> cb_fault h' = cb_fault h \<Longrightarrow>
   sh_inv c st h'"
  by (auto simp: sh_inv_def)

lemma sh_invD:
  assumes "sh_inv c st h"
  shows "length (gptrs h) = nat (shards c) \<and> st 0 = Pooled"
    and "(g, q) \<in> set (callbacks h) \<longleftrightarrow> st q = Queued g"
    and "blocks h q = None \<longleftrightarrow> st q = Pooled"
    and "published (st q) \<Longrightarrow> blocks h q = Some d \<Longrightarrow> good_block (unat (payload_bytes c)) d"
    and "distinct (map snd (callbacks h))"
    and "\<not> cb_fault h"
  using assms by (auto simp: sh_inv_def)

lemma w_invD:
  assumes "w_inv c t st hp p"
  shows "st q = Fresh t \<longleftrightarrow> w_fresh p = Some q"
    and "q \<in> set (w_retired p) \<longleftrightarrow> st q = Retired t"
    and "st q = Waiting t g \<longleftrightarrow> (\<exists>xs. w_waiting p = Some (g, xs) \<and> q \<in> set xs)"
    and "q \<in> set (w_freeing p) \<longleftrightarrow> st q = Freeing t"
  using assms by (auto simp: w_inv_def)

lemma readable_block:
  assumes "sh_inv c st h" "readable blk (rcu h) u (st q)"
  shows "\<exists>d. blocks h q = Some d \<and> good_block (unat (payload_bytes c)) d"
proof -
  have "st q \<noteq> Pooled" "published (st q)"
    using assms(2) by (auto simp: readable_def published_def split: place.splits)
  then show ?thesis
    using assms(1) unfolding sh_inv_def by (metis option.exhaust)
qed

lemma shared_readable: "sh_inv c st h \<Longrightarrow> k < length (gptrs h) \<Longrightarrow> st (gptrs h ! k) = Shared k"
  by (simp add: sh_inv_def)

lemma reader_same:
  assumes "sh_inv c st h" "r_inv c t st h p'" "h' = h"
  shows "sh_inv c st h' \<and> r_inv c t st h' p' \<and> (\<forall>u. u \<noteq> t \<longrightarrow> undisturbed u st h st h')"
  using assms by (simp add: undisturbed_same)

lemma reader_op:
  assumes "sh_inv c st h" "r_inv c t st h p" "op \<in> {register_thread L, unregister_thread L, read_lock L, read_unlock L}"
    and "h' = h\<lparr>rcu := op t (rcu h)\<rparr>" "r_reading p' = None" "p' \<notin> {UR_Mismatch, UR_Fault}"
    and "r_registered p' \<Longrightarrow> reg t (op t (rcu h))" "r_inside p' \<Longrightarrow> ins t (op t (rcu h))" "r_shard p' = r_shard p \<or> r_shard p' = None"
  shows "sh_inv c st h' \<and> r_inv c t st h' p' \<and> (\<forall>u. u \<noteq> t \<longrightarrow> undisturbed u st h st h')"
proof (intro conjI allI impI)
  show "sh_inv c st h'"
    using assms(1,4) by (auto intro: sh_inv_same)
  show "r_inv c t st h' p'"
    using assms(2,4-9) by (auto simp: r_inv_def)
  show "undisturbed u st h st h'" if "u \<noteq> t" for u
    using undisturbed_op [OF assms(3) that] assms(4) by simp
qed

lemma reader_step_inv:
  assumes h: "sh_inv c st h" and p: "r_inv c t st h p" and step: "urcu_reader_step c L stop t p h = Some (p', h')"
  shows "sh_inv c st h' \<and> r_inv c t st h' p' \<and> (\<forall>u. u \<noteq> t \<longrightarrow> undisturbed u st h st h')"
proof -
  have read: "\<exists>d x. blocks h q = Some d \<and> uv1 d = Some x \<and> uv2 d = Some x \<and> length (upayload d) = unat (payload_bytes c) \<and> r_data p d"
    if "r_reading p = Some q" for q
    using p readable_block [OF h, of t q] that by (auto simp: r_inv_def good_block_def)
  show ?thesis
  proof (cases p)
    case (UR_Register sh)
    then show ?thesis
      using step register_self by (intro reader_op [OF h p, of "register_thread L"]) (auto simp: urcu_reader_step_def)
  next
    case (UR_Lock sh)
    then show ?thesis
      using step p lock_self by (intro reader_op [OF h p, of "read_lock L"]) (auto simp: urcu_reader_step_def r_inv_def)
  next
    case (UR_Unlock sh)
    then show ?thesis
      using step p unlock_self by (intro reader_op [OF h p, of "read_unlock L"]) (auto simp: urcu_reader_step_def r_inv_def)
  next
    case UR_Unregister
    then show ?thesis
      using step by (intro reader_op [OF h p, of "unregister_thread L"]) (auto simp: urcu_reader_step_def)
  next
    case (UR_Loop sh)
    then show ?thesis
      using step p by (intro reader_same [OF h]; cases stop) (auto simp: urcu_reader_step_def r_inv_def)
  next
    case (UR_Deref sh)
    then have "sh < length (gptrs h)" "readable blk (rcu h) t (st (gptrs h ! sh))"
      using p h shared_readable [OF h, of sh] by (auto simp: r_inv_def sh_inv_def readable_def)
    then show ?thesis
      using step p UR_Deref
      by (intro reader_same [OF h]; cases "gptrs h ! sh = 0") (auto simp: urcu_reader_step_def r_inv_def Let_def)
  next
    case (UR_Value1 sh q)
    then show ?thesis
      using step p read [of q] by (intro reader_same [OF h]) (auto simp: urcu_reader_step_def r_inv_def)
  next
    case (UR_Value2 sh q x)
    then show ?thesis
      using step p read [of q] by (intro reader_same [OF h]) (auto simp: urcu_reader_step_def r_inv_def)
  next
    case (UR_Touch sh q)
    then obtain d where d: "blocks h q = Some d" "length (upayload d) = unat (payload_bytes c)"
      using read [of q] by auto
    then obtain acc where "payload_touch (upayload d) (unat (payload_bytes c)) = Some acc"
      using payload_touch_in_bounds [of "upayload d" "unat (payload_bytes c)"] by auto
    then show ?thesis
      using step p d UR_Touch by (intro reader_same [OF h]) (auto simp: urcu_reader_step_def r_inv_def)
  qed (use step p in \<open>auto simp: urcu_reader_step_def r_inv_def\<close>)
qed

definition w_next :: "Config \<Rightarrow> nat \<Rightarrow> (nat \<Rightarrow> 'g place) \<Rightarrow> ('r, 'g) urcu_shared \<Rightarrow> 'g urcu_writer \<Rightarrow> ('r, 'g) urcu_shared \<Rightarrow> bool" where
  "w_next c t st h p' h' \<longleftrightarrow>
     (\<exists>st'. sh_inv c st' h' \<and> w_inv c t st' (blocks h') p' \<and> (\<forall>u. u \<noteq> t \<longrightarrow> undisturbed u st h st' h'))"

lemma writer_same:
  assumes "sh_inv c st h" "w_inv c t st (blocks h) p'" "gptrs h' = gptrs h" "callbacks h' = callbacks h" "blocks h' = blocks h"
    "cb_fault h' = cb_fault h" "rcu h' = rcu h"
  shows "w_next c t st h p' h'"
  using assms sh_inv_same [of c st h h'] undisturbed_same [of h' h] unfolding w_next_def by metis

lemma writer_op:
  assumes "sh_inv c st h" "w_inv c t st (blocks h) p'"
    and op: "op \<in> {register_thread L, unregister_thread L, read_lock L, read_unlock L}" and h': "h' = h\<lparr>rcu := op t (rcu h)\<rparr>"
  shows "w_next c t st h p' h'"
proof -
  have "undisturbed u st h st h'" if "u \<noteq> t" for u
    using undisturbed_op [OF op that] h' by simp
  moreover have "sh_inv c st h'" "w_inv c t st (blocks h') p'"
    using assms(1,2) h' by (auto intro: sh_inv_same)
  ultimately show ?thesis
    unfolding w_next_def by blast
qed

lemma writer_put:
  assumes h: "sh_inv c st h" and p: "w_inv c t st (blocks h) p" and q: "w_fresh p = Some q" "w_fresh p' = Some q"
    and same: "w_retired p' = w_retired p" "w_waiting p' = w_waiting p" "w_freeing p' = w_freeing p" "w_shard p' = w_shard p"
      "w_mode (reclaim c = ''async'') p'"
    and d: "\<And>d. w_data (unat (payload_bytes c)) p d \<Longrightarrow> w_data (unat (payload_bytes c)) p' (f d)"
    and step: "after_put (put_member f q h) p' h = (p2, h')"
  shows "w_next c t st h p2 h'"
proof -
  have st: "st q = Fresh t"
    using p q by (simp add: w_inv_def)
  then have "blocks h q \<noteq> None"
    using h by (simp add: sh_inv_def)
  then obtain e where e: "blocks h q = Some e"
    by blast
  then have h': "h' = h\<lparr>blocks := (blocks h)(q := Some (f e))\<rparr>" "p2 = p'"
    using step by (simp_all add: after_put_def put_member_def)
  have "w_data (unat (payload_bytes c)) p' (f e)"
    using p q e d by (auto simp: w_inv_def)
  then have "w_inv c t st (blocks h') p'"
    using p q same by (simp add: w_inv_def h')
  moreover have "sh_inv c st h'"
    using h st e by (auto simp: sh_inv_def h' published_def)
  moreover have "undisturbed u st h st h'" if "u \<noteq> t" for u
    using st that by (rule undisturbed_fresh) (simp_all add: h')
  ultimately show ?thesis
    unfolding w_next_def h'(2) by blast
qed

lemma writer_alloc:
  assumes h: "sh_inv c st h" and p: "w_inv c t st (blocks h) (UW_Alloc sh seq rl)" and a: "blocks h a = None" "a \<noteq> 0"
    and h': "h' = h\<lparr>blocks := (blocks h)(a := Some (urcu_block (unat (payload_bytes c)) junk a))\<rparr>"
  shows "w_next c t st h (UW_Value1 sh seq' rl a) h'"
proof -
  let ?st = "st(a := Fresh t)"
  have st: "st a = Pooled"
    using h a by (simp add: sh_inv_def)
  have "sh_inv c ?st h'"
    using h st a(2) by (auto simp: sh_inv_def h' published_def)
  moreover have "w_inv c t ?st (blocks h') (UW_Value1 sh seq' rl a)"
    using p st by (auto simp: w_inv_def h' urcu_block_def)
  moreover have "undisturbed u st h ?st h'" if "u \<noteq> t" for u
    using st that by (auto simp: undisturbed_def h' readable_def)
  ultimately show ?thesis
    unfolding w_next_def by blast
qed

lemma writer_xchg:
  assumes h: "sh_inv c st h" and p: "w_inv c t st (blocks h) (UW_Xchg sh seq rl q)"
    and h': "h' = h\<lparr>gptrs := (gptrs h)[sh := q]\<rparr>"
  shows "w_next c t st h (UW_Old sh seq rl (gptrs h ! sh)) h'"
proof -
  let ?old = "gptrs h ! sh"
  let ?st = "st(q := Shared sh, ?old := Retired t)"
  have sh: "sh < length (gptrs h)" and st: "st q = Fresh t"
    using h p by (auto simp: sh_inv_def w_inv_def)
  have old: "st ?old = Shared sh"
    using h sh by (rule shared_readable)
  then have ne: "q \<noteq> ?old"
    using st by auto
  have nr: "st q \<noteq> Retired t" and "st q \<noteq> Pooled" "st ?old \<noteq> Pooled"
    using st old by simp_all
  moreover have "st 0 = Pooled"
    using h by (simp add: sh_inv_def)
  ultimately have z: "q \<noteq> 0" "?old \<noteq> 0"
    by metis+
  have gp: "\<And>k. k < length (gptrs h) \<Longrightarrow> st (gptrs h ! k) = Shared k"
    "\<And>x k. st x = Shared k \<Longrightarrow> k < length (gptrs h) \<and> gptrs h ! k = x"
    using h by (auto simp: sh_inv_def)
  have good: "good_block (unat (payload_bytes c)) d" if "blocks h x = Some d" "x = q \<or> published (st x)" for x d
    using h p that by (auto simp: sh_inv_def w_inv_def)
  have "\<forall>k<length (gptrs h'). ?st (gptrs h' ! k) = Shared k"
  proof (intro allI impI)
    fix k
    assume k: "k < length (gptrs h')"
    show "?st (gptrs h' ! k) = Shared k"
    proof (cases "k = sh")
      case False
      then have "gptrs h ! k \<noteq> ?old" "gptrs h ! k \<noteq> q"
        using gp(1) [of k] gp(1) [OF sh] st k by (auto simp: h')
      then show ?thesis
        using False gp(1) [of k] k by (simp add: h')
    qed (use sh ne in \<open>simp add: h'\<close>)
  qed
  moreover have "\<forall>x k. ?st x = Shared k \<longrightarrow> k < length (gptrs h') \<and> gptrs h' ! k = x"
    using gp(2) sh ne by (auto simp: h' nth_list_update)
  moreover have "(g, x) \<in> set (callbacks h') \<longleftrightarrow> ?st x = Queued g" for x g
    using sh_invD(2) [OF h, of g x] st old by (simp add: h')
  moreover have "blocks h' x = None \<longleftrightarrow> ?st x = Pooled" for x
    using sh_invD(3) [OF h, of x] st old by (simp add: h')
  moreover have "good_block (unat (payload_bytes c)) d" if "published (?st x)" "blocks h' x = Some d" for x d
    using good [of x d] old that by (auto simp: h' published_def split: if_splits)
  ultimately have "sh_inv c ?st h'"
    using sh_invD(1,5,6) [OF h] z by (simp add: sh_inv_def h')
  moreover have "w_inv c t ?st (blocks h') (UW_Old sh seq rl ?old)"
    using p z ne nr old by (auto simp: w_inv_def h')
  moreover have "undisturbed u st h ?st h'" if "u \<noteq> t" for u
    using st old ne that by (auto simp: undisturbed_def h' readable_def)
  ultimately show ?thesis
    unfolding w_next_def by blast
qed

lemma undisturbed_start:
  assumes "start_gp L (rcu h) = (g, rcu h')" "blocks h' = blocks h" "u \<noteq> t"
    and "\<And>q. st' q = st q \<or> st q = Retired t \<and> (st' q = Waiting t g \<or> st' q = Queued g)"
  shows "undisturbed u st h st' h'"
  unfolding undisturbed_def
proof (intro conjI allI impI)
  note s = start [OF assms(1), of u]
  show "reg u (rcu h) \<Longrightarrow> reg u (rcu h')" "ins u (rcu h) \<Longrightarrow> ins u (rcu h')"
    using s by blast+
  fix q
  show "blocks h' q = blocks h q" "blocks h' q = blocks h q"
    using assms(2) by simp_all
  show "st' q = st q" if "place_owner (st q) = Some u \<or> place_owner (st' q) = Some u"
    using assms(3) assms(4) [of q] that by auto
  show "readable blk (rcu h') u (st' q)" if "ins u (rcu h)" "readable blk (rcu h) u (st q)"
    using assms(4) [of q]
  proof
    assume "st' q = st q"
    then show ?thesis
      using readable_mono [OF that(2), of "rcu h'"] s by auto
  qed (use s that(1) in \<open>auto simp: readable_def\<close>)
qed

lemma writer_call:
  assumes h: "sh_inv c st h" and p: "w_inv c t st (blocks h) (UW_Call sh seq rl old)"
    and g: "start_gp L (rcu h) = (g, r)" and h': "h' = h\<lparr>rcu := r, callbacks := callbacks h @ [(g, old)]\<rparr>"
  shows "w_next c t st h (UW_Next sh seq rl) h'"
proof -
  let ?st = "st(old := Queued g)"
  have st: "st old = Retired t"
    using w_invD(2) [OF p, of old] by simp
  have rl: "rl = []"
    using p by (simp add: w_inv_def)
  have "old \<notin> snd ` set (callbacks h)"
    using sh_invD(2) [OF h] st by auto
  moreover have "\<forall>k<length (gptrs h). gptrs h ! k \<noteq> old"
    using shared_readable [OF h] st by auto
  moreover have "old \<noteq> 0"
    using sh_invD(1) [OF h] st by (cases "old = 0") auto
  ultimately have "sh_inv c ?st h'"
    using h st sh_invD(3,4) [OF h, of old] by (auto simp: sh_inv_def h' published_def)
  moreover have "w_inv c t ?st (blocks h') (UW_Next sh seq rl)"
    using p rl by (auto simp: w_inv_def h')
  moreover have "undisturbed u st h ?st h'" if "u \<noteq> t" for u
    using undisturbed_start [of h g h' u t ?st st] g that st by (simp add: h')
  ultimately show ?thesis
    unfolding w_next_def by blast
qed

lemma sh_inv_relabel:
  assumes "sh_inv c st h" "\<And>q. st' q = st q \<or> (published (st q) \<and> published (st' q) \<and> place_owner (st q) \<noteq> None \<and> place_owner (st' q) \<noteq> None)"
    and "gptrs h' = gptrs h" "callbacks h' = callbacks h" "blocks h' = blocks h" "cb_fault h' = cb_fault h"
  shows "sh_inv c st' h'"
proof -
  have "st' q = x \<longleftrightarrow> st q = x" if "place_owner x = None" for q x
    using assms(2) [of q] that by auto
  moreover have "published (st' q) = published (st q)" for q
    using assms(2) [of q] by auto
  ultimately show ?thesis
    using assms(1,3-6) by (auto simp: sh_inv_def)
qed

lemma writer_sync:
  assumes h: "sh_inv c st h" and p: "w_inv c t st (blocks h) (UW_Sync k rl)"
    and g: "start_gp L (rcu h) = (g, r)" and h': "h' = h\<lparr>rcu := r\<rparr>"
  shows "w_next c t st h (UW_Wait k g rl) h'"
proof -
  let ?st = "\<lambda>q. if st q = Retired t then Waiting t g else st q"
  have "sh_inv c ?st h'"
    using h by (rule sh_inv_relabel) (auto simp: h' published_def)
  moreover have "w_inv c t ?st (blocks h') (UW_Wait k g rl)"
    using p by (auto simp: w_inv_def h')
  moreover have "undisturbed u st h ?st h'" if "u \<noteq> t" for u
    using undisturbed_start [of h g h' u t ?st st] g that by (simp add: h')
  ultimately show ?thesis
    unfolding w_next_def by blast
qed

lemma writer_over:
  assumes h: "sh_inv c st h" and p: "w_inv c t st (blocks h) (UW_Wait k g rl)" and g: "gp_over L g (rcu h)"
  shows "w_next c t st h (UW_Free k rl) h"
proof -
  let ?st = "\<lambda>q. if st q = Waiting t g then Freeing t else st q"
  have "sh_inv c ?st h"
    using h by (rule sh_inv_relabel) (auto simp: published_def)
  moreover have "w_inv c t ?st (blocks h) (UW_Free k rl)"
    using p by (auto simp: w_inv_def)
  moreover have "undisturbed u st h ?st h" if "u \<noteq> t" for u
    using over [OF g, of u] that by (auto simp: undisturbed_def readable_def split: if_splits)
  ultimately show ?thesis
    unfolding w_next_def by blast
qed

lemma remove_nth_filter:
  assumes "distinct (map snd xs)" "i < length xs"
  shows "take i xs @ drop (Suc i) xs = filter (\<lambda>x. snd x \<noteq> snd (xs ! i)) xs"
proof -
  have "xs = take i xs @ xs ! i # drop (Suc i) xs"
    using assms(2) by (rule id_take_nth_drop)
  then obtain as bs where e: "xs = as @ xs ! i # bs" "take i xs = as" "drop (Suc i) xs = bs"
    by blast
  define x where "x = xs ! i"
  have "distinct (map snd (as @ x # bs))"
    using assms(1) e(1) unfolding x_def by metis
  then have "\<forall>y\<in>set as \<union> set bs. snd y \<noteq> snd x"
    by (simp add: image_iff) (metis UnE)
  then have "filter (\<lambda>y. snd y \<noteq> snd x) (as @ x # bs) = as @ bs"
    by simp
  then show ?thesis
    using e unfolding x_def by metis
qed

lemma pool_inv:
  assumes h: "sh_inv c st h" and q: "st q = Freeing t \<or> st q = Queued g"
    and h': "gptrs h' = gptrs h" "callbacks h' = filter (\<lambda>x. snd x \<noteq> q) (callbacks h)" "blocks h' = (blocks h)(q := None)"
      "cb_fault h' = cb_fault h"
  shows "sh_inv c (st(q := Pooled)) h'"
proof -
  have "\<forall>k<length (gptrs h). gptrs h ! k \<noteq> q"
    using shared_readable [OF h] q by auto
  then show ?thesis
    using h q by (auto simp: sh_inv_def h' published_def distinct_map_filter)
qed

lemma writer_free:
  assumes h: "sh_inv c st h" and p: "w_inv c t st (blocks h) (UW_Free k (x # xs))"
    and step: "after_put (pool_free x h) (UW_Freed k xs) h = (p2, h')"
  shows "w_next c t st h p2 h'"
proof -
  have st: "st x = Freeing t"
    using w_invD(4) [OF p, of x] by simp
  then have "blocks h x \<noteq> None"
    using sh_invD(3) [OF h] by simp
  then have h': "h' = h\<lparr>blocks := (blocks h)(x := None)\<rparr>" "p2 = UW_Freed k xs"
    using step by (auto simp: after_put_def pool_free_def)
  have "x \<notin> snd ` set (callbacks h)"
    using sh_invD(2) [OF h] st by auto
  then have "filter (\<lambda>y. snd y \<noteq> x) (callbacks h) = callbacks h"
    by (auto simp: filter_id_conv)
  then have "sh_inv c (st(x := Pooled)) h'"
    using st by (intro pool_inv [OF h]) (auto simp: h')
  moreover have "w_inv c t (st(x := Pooled)) (blocks h') (UW_Freed k xs)"
    using p by (auto simp: w_inv_def h')
  moreover have "undisturbed u st h (st(x := Pooled)) h'" if "u \<noteq> t" for u
    using st that by (auto simp: undisturbed_def readable_def h')
  ultimately show ?thesis
    unfolding w_next_def h'(2) by blast
qed

lemma urcu_config:
  assumes "config_ok c" "backend c = ''urcu''"
  shows "0 < nat (shards c)" "reclaim c = ''async'' \<or> reclaim c = ''sync-batch''"
  using assms by (auto simp: config_ok_def split: if_splits)

lemma next_shard_bound: "0 < n \<Longrightarrow> next_shard n k < n"
  by (auto simp: next_shard_def Let_def)

lemma writer_payload:
  assumes h: "sh_inv c st h" and p: "w_inv c t st (blocks h) (UW_Payload sh seq rl q)"
    and step: "(case Option.bind (blocks h q) (\<lambda>d. write_payload (unat (payload_bytes c)) seq (upayload d)) of
          Some pl \<Rightarrow> after_put (put_member (upayload_update (\<lambda>_. pl)) q h) (UW_Xchg sh seq rl q) h
        | None \<Rightarrow> (UW_Fault, h)) = (p', h')"
  shows "w_next c t st h p' h'"
proof -
  have "blocks h q \<noteq> None"
    using w_invD(1) [OF p, of q] sh_invD(3) [OF h, of q] by simp
  then obtain d where d: "blocks h q = Some d"
    by blast
  then have "good_block (unat (payload_bytes c)) d"
    using p by (simp add: w_inv_def)
  then have "write_payload (unat (payload_bytes c)) seq (upayload d) \<noteq> None"
    by (simp add: good_block_def write_payload_def)
  then obtain pl where pl: "write_payload (unat (payload_bytes c)) seq (upayload d) = Some pl"
    by blast
  have len: "length pl = unat (payload_bytes c)"
    using pl \<open>good_block _ d\<close> by (auto simp: write_payload_def good_block_def split: if_splits)
  show ?thesis
  proof (rule writer_put [OF h p])
    show "after_put (put_member (upayload_update (\<lambda>_. pl)) q h) (UW_Xchg sh seq rl q) h = (p', h')"
      using step d pl by simp
  qed (use p len in \<open>auto simp: w_inv_def good_block_def\<close>)
qed

lemma writer_step_inv:
  assumes h: "sh_inv c st h" and p: "w_inv c t st (blocks h) p" and c: "config_ok c" "backend c = ''urcu''"
    and a: "a \<noteq> 0" "blocks h a = None" and step: "urcu_writer_step c L junk stop a t p h = Some (p', h')"
  shows "w_next c t st h p' h'"
proof (cases p)
  case (UW_Register sh)
  then show ?thesis
    using step p by (intro writer_op [OF h, of _ _ "register_thread L"]) (auto simp: urcu_writer_step_def w_inv_def)
next
  case (UW_Alloc sh seq rl)
  then show ?thesis
    using step writer_alloc [OF h p [unfolded UW_Alloc] a(2,1)] by (auto simp: urcu_writer_step_def)
next
  case (UW_Value1 sh seq rl q)
  then show ?thesis
    using step p
    by (intro writer_put [OF h p, of q _ "uv1_update (\<lambda>_. Some seq)"]) (auto simp: urcu_writer_step_def w_inv_def)
next
  case (UW_Value2 sh seq rl q)
  then show ?thesis
    using step p
    by (intro writer_put [OF h p, of q _ "uv2_update (\<lambda>_. Some seq)"]) (auto simp: urcu_writer_step_def w_inv_def)
next
  case (UW_Pool sh seq rl q)
  then show ?thesis
    using step p
    by (intro writer_put [OF h p, of q _ "upool_update (\<lambda>_. Some ())"]) (auto simp: urcu_writer_step_def w_inv_def)
next
  case (UW_Pending sh seq rl q)
  then show ?thesis
    using step p
    by (intro writer_put [OF h p, of q _ "upending_update (\<lambda>_. Some ())"])
      (auto simp: urcu_writer_step_def w_inv_def good_block_def)
next
  case (UW_Payload sh seq rl q)
  then show ?thesis
    using step by (intro writer_payload [OF h p [unfolded UW_Payload]]) (simp add: urcu_writer_step_def)
next
  case (UW_Xchg sh seq rl q)
  then have "sh < length (gptrs h)"
    using p sh_invD(1) [OF h] by (simp add: w_inv_def)
  then show ?thesis
    using step UW_Xchg writer_xchg [OF h p [unfolded UW_Xchg]] by (auto simp: urcu_writer_step_def)
next
  case (UW_Call sh seq rl old)
  obtain g r where g: "start_gp L (rcu h) = (g, r)"
    by (cases "start_gp L (rcu h)")
  then show ?thesis
    using step UW_Call writer_call [OF h p [unfolded UW_Call] g] by (auto simp: urcu_writer_step_def)
next
  case (UW_Sync k rl)
  obtain g r where g: "start_gp L (rcu h) = (g, r)"
    by (cases "start_gp L (rcu h)")
  then show ?thesis
    using step UW_Sync writer_sync [OF h p [unfolded UW_Sync] g] by (auto simp: urcu_writer_step_def)
next
  case (UW_Wait k g rl)
  then show ?thesis
    using step writer_over [OF h p [unfolded UW_Wait]] by (auto simp: urcu_writer_step_def split: if_splits)
next
  case (UW_Free k xs)
  show ?thesis
  proof (cases xs)
    case Nil
    then show ?thesis
      using step UW_Free p
      by (intro writer_same [OF h]) (auto simp: urcu_writer_step_def w_inv_def split: option.splits)
  next
    case (Cons x ys)
    then show ?thesis
      using step UW_Free writer_free [OF h p [unfolded UW_Free Cons]] by (simp add: urcu_writer_step_def)
  qed
next
  case (UW_Unregister rl)
  then show ?thesis
    using step p by (intro writer_op [OF h, of _ _ "unregister_thread L"]) (auto simp: urcu_writer_step_def w_inv_def)
next
  case (UW_Old sh seq rl old)
  then show ?thesis
    using step p by (intro writer_same [OF h]) (auto simp: urcu_writer_step_def w_inv_def split: if_splits)
next
  case (UW_Next sh seq rl)
  then show ?thesis
    using step p next_shard_bound [OF urcu_config(1) [OF c]]
    by (intro writer_same [OF h]) (auto simp: urcu_writer_step_def w_inv_def)
next
  case (UW_Leave rl)
  then show ?thesis
    using step p urcu_config(2) [OF c]
    by (intro writer_same [OF h]) (auto simp: urcu_writer_step_def w_inv_def split: if_splits)
qed (use step p in \<open>(intro writer_same [OF h]; auto simp: urcu_writer_step_def w_inv_def split: if_splits)+\<close>)
lemma callback_place:
  assumes h: "sh_inv c st h" and i: "i < length (callbacks h)" "callbacks h ! i = (g, q)"
  shows "st q = Queued g"
    and "urcu_free_cb q (h\<lparr>callbacks := take i (callbacks h) @ drop (Suc i) (callbacks h)\<rparr>) =
      h\<lparr>callbacks := take i (callbacks h) @ drop (Suc i) (callbacks h), upend := upend h - 1, blocks := (blocks h)(q := None)\<rparr>"
proof -
  have "(g, q) \<in> set (callbacks h)"
    using i by (metis nth_mem)
  then show st: "st q = Queued g"
    using sh_invD(2) [OF h] by simp
  then have "blocks h q \<noteq> None"
    using sh_invD(3) [OF h] by simp
  then obtain d where d: "blocks h q = Some d"
    by blast
  then have "upending d \<noteq> None" "upool d \<noteq> None"
    using sh_invD(4) [OF h _ d] st by (auto simp: published_def good_block_def)
  then show "urcu_free_cb q (h\<lparr>callbacks := take i (callbacks h) @ drop (Suc i) (callbacks h)\<rparr>) =
      h\<lparr>callbacks := take i (callbacks h) @ drop (Suc i) (callbacks h), upend := upend h - 1, blocks := (blocks h)(q := None)\<rparr>"
    using d by (simp add: urcu_free_cb_def)
qed

lemma callback_inv:
  assumes h: "sh_inv c st h" and i: "i < length (callbacks h)" "callbacks h ! i = (g, q)" and g: "gp_over L g (rcu h)"
    and h': "h' = urcu_free_cb q (h\<lparr>callbacks := take i (callbacks h) @ drop (Suc i) (callbacks h)\<rparr>)"
  shows "sh_inv c (st(q := Pooled)) h' \<and> undisturbed u st h (st(q := Pooled)) h'"
proof -
  note st = callback_place(1) [OF h i] and e = h' [unfolded callback_place(2) [OF h i]]
  have "take i (callbacks h) @ drop (Suc i) (callbacks h) = filter (\<lambda>x. snd x \<noteq> q) (callbacks h)"
    using remove_nth_filter [OF sh_invD(5) [OF h] i(1)] i(2) by simp
  then have "sh_inv c (st(q := Pooled)) h'"
    using st by (intro pool_inv [OF h]) (auto simp: e)
  moreover have "undisturbed u st h (st(q := Pooled)) h'"
    using st over [OF g, of u] by (auto simp: undisturbed_def readable_def e)
  ultimately show ?thesis
    by blast
qed

lemma start_u_inv:
  assumes "urcu_start c s"
  shows "u_inv c s"
proof -
  let ?g = "gptrs (ush s)"
  define st :: "nat \<Rightarrow> 'g place" where
    "st q = (if q \<in> set ?g then Shared (THE k. k < length ?g \<and> ?g ! k = q) else Pooled)" for q
  have nth: "(THE k'. k' < length ?g \<and> ?g ! k' = ?g ! k) = k" if "k < length ?g" for k
    using assms that by (auto simp: urcu_start_def nth_eq_iff_index_eq)
  have shared: "st (?g ! k) = Shared k" if "k < length ?g" for k
    using nth [OF that] that by (simp add: st_def)
  have inv: "k < length ?g \<and> ?g ! k = q" if "st q = Shared k" for q k
  proof -
    have "q \<in> set ?g"
      using that by (simp add: st_def split: if_splits)
    then obtain i where "i < length ?g" "?g ! i = q"
      by (auto simp: in_set_conv_nth)
    then show ?thesis
      using shared [of i] that by simp
  qed
  have own: "place_owner (st q) = None" "st q \<noteq> Queued g" "st q = Pooled \<longleftrightarrow> q \<notin> set ?g" for q g
    by (auto simp: st_def)
  have o: "st q \<noteq> x" if "place_owner x \<noteq> None" for q x
    using own(1) [of q] that by auto
  have blocks: "if q \<in> set ?g then \<exists>d. blocks (ush s) q = Some d \<and> urcu_initial (unat (payload_bytes c)) d
      else blocks (ush s) q = None" for q
    using assms by (simp add: urcu_start_def)
  have "blocks (ush s) q = None \<longleftrightarrow> st q = Pooled" for q
    using blocks [of q] own(3) by (auto split: if_splits)
  moreover have "good_block (unat (payload_bytes c)) d" if "blocks (ush s) q = Some d" for q d
    using blocks [of q] that by (auto simp: urcu_initial_def good_block_def split: if_splits)
  ultimately have "sh_inv c st (ush s)"
    using assms shared inv own by (auto simp: sh_inv_def urcu_start_def)
  moreover have "t_inv c t st (ush s) (upoint s t)" for t
  proof -
    have n: "i mod nat (shards c) < nat (shards c)" for i
      using urcu_config(1) [of c] assms by (simp add: urcu_start_def)
    show ?thesis
      using assms n o by (auto simp: urcu_start_def t_inv_def w_inv_def r_inv_def own(1) dest: spec [of _ t])
  qed
  ultimately show ?thesis
    using assms by (auto simp: u_inv_def urcu_start_def)
qed

lemma urcu_step_inv:
  assumes "urcu_step c L junk s s'" "u_inv c s"
  shows "u_inv c s'"
  using assms(1)
proof cases
  case (Writer t p a stop p' h)
  have "\<exists>st'. sh_inv c st' h \<and> t_inv c t st' h (U_Writer p') \<and> (\<forall>u. u \<noteq> t \<longrightarrow> undisturbed u st (ush s) st' h)"
    if "sh_inv c st (ush s)" "t_inv c t st (ush s) (upoint s t)" for st
    using writer_step_inv [OF that(1) _ _ _ Writer(3,4,5)] that(2) Writer(2) assms(2)
    by (auto simp: t_inv_def w_next_def u_inv_def)
  then show ?thesis
    unfolding Writer(1) by (rule u_inv_step [OF assms(2)])
next
  case (Reader t p stop p' h)
  have "\<exists>st'. sh_inv c st' h \<and> t_inv c t st' h (U_Reader p') \<and> (\<forall>u. u \<noteq> t \<longrightarrow> undisturbed u st (ush s) st' h)"
    if "sh_inv c st (ush s)" "t_inv c t st (ush s) (upoint s t)" for st
    using reader_step_inv [OF that(1) _ Reader(3)] that(2) Reader(2) by (auto simp: t_inv_def)
  then show ?thesis
    unfolding Reader(1) by (rule u_inv_step [OF assms(2)])
next
  case (Callback i g q)
  obtain st where st: "sh_inv c st (ush s)" "\<And>t. t_inv c t st (ush s) (upoint s t)"
    using assms(2) by (auto simp: u_inv_def)
  note cb = callback_inv [OF st(1) Callback(2-4) refl]
  have "ush s' = urcu_free_cb q ((ush s)\<lparr>callbacks := take i (callbacks (ush s)) @ drop (Suc i) (callbacks (ush s))\<rparr>)"
    "upoint s' = upoint s"
    by (simp_all add: Callback(1))
  then show ?thesis
    using assms(2) cb t_inv_frame [OF st(2)] unfolding u_inv_def by metis
qed

sublocale run: inductive_invariant "urcu_start c" "urcu_step c L junk" "u_inv c"
  by unfold_locales (auto intro: start_u_inv urcu_step_inv)

lemma never_fails:
  assumes "reach (urcu_start c) (urcu_step c L junk) s"
  shows "upoint s t \<notin> {U_Writer UW_Fault, U_Reader UR_Fault, U_Reader UR_Mismatch} \<and> \<not> cb_fault (ush s)"
proof -
  obtain st where "sh_inv c st (ush s)" "t_inv c t st (ush s) (upoint s t)"
    using run.inv_reach [OF assms] by (auto simp: u_inv_def)
  then show ?thesis
    by (auto simp: t_inv_def w_inv_def r_inv_def sh_inv_def)
qed

text \<open>\<open>pending\<close> counts the callbacks that have not run and the writers about to call \<open>call_rcu\<close>.\<close>

definition at_call :: "'g urcu_thread \<Rightarrow> bool" where
  "at_call x = (case x of U_Writer (UW_Call sh seq rl old) \<Rightarrow> True | _ \<Rightarrow> False)"

definition p_inv :: "('r, 'g) urcu_state \<Rightarrow> bool" where
  "p_inv s \<longleftrightarrow> finite {t. at_call (upoint s t)} \<and>
     upend (ush s) = of_nat (length (callbacks (ush s))) + of_nat (card {t. at_call (upoint s t)})"

lemma writer_pending:
  assumes "urcu_writer_step c L junk stop a t p h = Some (p', h')"
  shows "upend h' + of_nat (length (callbacks h)) + (if at_call (U_Writer p) then 1 else 0) =
    upend h + of_nat (length (callbacks h')) + (if at_call (U_Writer p') then 1 else 0)"
  using assms
  by (cases p) (auto simp: urcu_writer_step_def at_call_def after_put_def put_member_def pool_free_def Let_def
      split: if_splits option.splits list.splits prod.splits)

lemma pending_move:
  assumes p: "p_inv s" and s': "upoint s' = (upoint s)(t := x)"
    and e: "upend (ush s') + of_nat (length (callbacks (ush s))) + (if at_call (upoint s t) then 1 else 0) =
      upend (ush s) + of_nat (length (callbacks (ush s'))) + (if at_call x then 1 else 0)"
  shows "p_inv s'"
proof -
  let ?A = "{u. u \<noteq> t \<and> at_call (upoint s u)}"
  have fin: "finite ?A"
    using p by (auto simp: p_inv_def elim: rev_finite_subset)
  have split: "{u. at_call (f u)} = (if at_call (f t) then insert t ?A else ?A)" if "\<And>u. u \<noteq> t \<Longrightarrow> f u = upoint s u" for f
    by (rule set_eqI) (metis (mono_tags, lifting) insert_iff mem_Collect_eq that)
  have card: "of_nat (card {u. at_call (f u)}) = of_nat (card ?A) + (if at_call (f t) then 1 else (0 :: u64))"
    if "\<And>u. u \<noteq> t \<Longrightarrow> f u = upoint s u" for f
    using fin by (simp add: split [of f, OF that])
  show ?thesis
    using p e card [of "upoint s"] card [of "upoint s'"] split [of "upoint s'"] fin
    by (simp add: p_inv_def s' algebra_simps)
qed

lemma pending_step:
  assumes "urcu_step c L junk s s'" "u_inv c s" "p_inv s"
  shows "p_inv s'"
  using assms(1)
proof cases
  case (Writer t p a stop p' h)
  then show ?thesis
    using writer_pending [OF Writer(5)] by (intro pending_move [OF assms(3)]) auto
next
  case (Reader t p stop p' h)
  then have "upend h = upend (ush s)" "callbacks h = callbacks (ush s)"
    by (auto simp: urcu_reader_step_def split: urcu_reader.splits)
  then show ?thesis
    using Reader by (intro pending_move [OF assms(3), of _ t "U_Reader p'"]) (auto simp: at_call_def)
next
  case (Callback i g q)
  obtain st where "sh_inv c st (ush s)"
    using assms(2) by (auto simp: u_inv_def)
  note e = callback_place(2) [OF this Callback(2,3)]
  have "length (callbacks (ush s)) = Suc (length (callbacks (ush s')))"
    using Callback(2) by (simp add: Callback(1) e)
  then show ?thesis
    using assms(3) by (simp add: p_inv_def Callback(1) e)
qed

lemma start_p_inv: "urcu_start c s \<Longrightarrow> p_inv s"
proof -
  assume s: "urcu_start c s"
  have "\<not> at_call (upoint s t)" for t
    using s by (auto simp: urcu_start_def at_call_def dest!: spec [of _ t])
  then show "p_inv s"
    using s by (simp add: p_inv_def urcu_start_def)
qed

sublocale counted: inductive_invariant "urcu_start c" "urcu_step c L junk" "\<lambda>s. u_inv c s \<and> p_inv s"
  by unfold_locales (auto intro: start_u_inv urcu_step_inv start_p_inv pending_step)

lemma stop_loop_frees:
  assumes "distinct ks" "\<forall>k\<in>set ks. k < length (gptrs h) \<and> gptrs h ! k \<noteq> 0 \<and> blocks h (gptrs h ! k) \<noteq> None"
    and "inj_on ((!) (gptrs h)) (set ks)"
  shows "\<exists>h'. stop_loop ks h = Some h' \<and> blocks h' = (\<lambda>q. if q \<in> (!) (gptrs h) ` set ks then None else blocks h q)"
  using assms
proof (induction ks arbitrary: h)
  case (Cons k ks)
  let ?h = "h\<lparr>gptrs := (gptrs h)[k := 0], blocks := (blocks h)(gptrs h ! k := None)\<rparr>"
  have ne: "j \<noteq> k" if "j \<in> set ks" for j
    using Cons.prems(1) that by auto
  have same: "gptrs ?h ! j = gptrs h ! j" "gptrs h ! j \<noteq> gptrs h ! k" if "j \<in> set ks" for j
    using Cons.prems(3) ne [OF that] that by (auto simp: inj_on_def nth_list_update_neq)
  have "\<exists>h'. stop_loop ks ?h = Some h' \<and> blocks h' = (\<lambda>q. if q \<in> (!) (gptrs ?h) ` set ks then None else blocks ?h q)"
    using Cons.prems same by (intro Cons.IH) (auto simp: inj_on_def)
  moreover have "(!) (gptrs ?h) ` set ks = (!) (gptrs h) ` set ks"
    using same(1) by (rule image_cong [OF refl])
  ultimately show ?case
    using Cons.prems(2) by (auto simp: pool_free_def Let_def fun_eq_iff)
qed simp

lemma stop_loop_pending: "stop_loop ks h = Some h' \<Longrightarrow> upend h' = upend h"
  by (induction ks h rule: stop_loop.induct) (auto simp: Let_def pool_free_def split: option.splits if_splits)

lemma stop_empties:
  assumes "reach (urcu_start c) (urcu_step c L junk) s" "callbacks (ush s) = []"
    and rest: "\<And>t. (\<exists>sh. upoint s t = U_Writer (UW_Register sh)) \<or> (\<exists>rl. upoint s t = U_Writer (UW_Done rl)) \<or>
      (\<exists>sh. upoint s t = U_Reader (UR_Register sh)) \<or> upoint s t = U_Reader UR_Done"
  shows "\<exists>h. urcu_stop (ush s) = Some h \<and> blocks h = (\<lambda>_. None) \<and> upend h = 0"
proof -
  let ?g = "gptrs (ush s)"
  obtain st where h: "sh_inv c st (ush s)" and t: "\<And>t. t_inv c t st (ush s) (upoint s t)"
    using run.inv_reach [OF assms(1)] by (auto simp: u_inv_def)
  have own: "place_owner (st q) \<noteq> Some u" for q u
  proof (cases "upoint s u")
    case (U_Writer p)
    then show ?thesis
      using rest [of u] t [of u] by (cases "st q") (auto simp: t_inv_def w_inv_def)
  next
    case (U_Reader p)
    then show ?thesis
      using t [of u] by (simp add: t_inv_def r_inv_def)
  qed
  have places: "st q = Pooled \<or> (\<exists>k<length ?g. ?g ! k = q)" for q
  proof (cases "st q")
    case (Shared k)
    then show ?thesis
      using h unfolding sh_inv_def by blast
  qed (use own [of q] sh_invD(2) [OF h, of _ q] assms(2) in auto)
  have live: "k < length ?g \<Longrightarrow> ?g ! k \<noteq> 0 \<and> blocks (ush s) (?g ! k) \<noteq> None" for k
    using shared_readable [OF h, of k] sh_invD(1,3) [OF h] by (metis place.distinct(3))
  have inj: "inj_on ((!) ?g) (set [0..<length ?g])"
    using shared_readable [OF h] by (intro inj_onI) (metis atLeastLessThan_iff place.inject(2) set_upt)
  obtain h' where h': "urcu_stop (ush s) = Some h'"
    "blocks h' = (\<lambda>q. if q \<in> (!) ?g ` set [0..<length ?g] then None else blocks (ush s) q)"
    using stop_loop_frees [OF distinct_upt _ inj] live unfolding urcu_stop_def by auto
  moreover have "blocks (ush s) q = None" if "q \<notin> (!) ?g ` set [0..<length ?g]" for q
    using places [of q] sh_invD(3) [OF h, of q] that by auto
  ultimately have "blocks h' = (\<lambda>_. None)"
    by auto
  moreover have "\<not> at_call (upoint s t)" for t
    using rest [of t] by (auto simp: at_call_def)
  then have "upend (ush s) = 0"
    using counted.inv_reach [OF assms(1)] assms(2) by (simp add: p_inv_def)
  then have "upend h' = 0"
    using stop_loop_pending h'(1) unfolding urcu_stop_def by metis
  ultimately show ?thesis
    using h'(1) by blast
qed

end

section \<open>An implementation of the library's interface\<close>

text \<open>
  The library's behaviour on a list of registered threads, each with the nesting depth of its
  critical sections and their number: a grace period is a copy of the list, and is over when each
  thread that was inside a section has left it.
\<close>

definition change :: "(nat \<times> nat \<Rightarrow> nat \<times> nat) \<Rightarrow> nat \<Rightarrow> (nat \<times> nat \<times> nat) list \<Rightarrow> (nat \<times> nat \<times> nat) list" where
  "change f t r = map (\<lambda>(u, x). if u = t then (u, f x) else (u, x)) r"

definition nested_rcu :: "((nat \<times> nat \<times> nat) list, (nat \<times> nat \<times> nat) list) rcu_lib" where
  "nested_rcu =
     \<lparr>register_thread = \<lambda>t r. (t, 0, 0) # r,
      unregister_thread = \<lambda>t r. filter (\<lambda>x. fst x \<noteq> t) r,
      read_lock = change (\<lambda>(d, e). (d + 1, e)),
      read_unlock = change (\<lambda>(d, e). if d \<le> 1 then (0, e + 1) else (d - 1, e)),
      start_gp = \<lambda>r. (r, r),
      gp_over = \<lambda>g r. list_all (\<lambda>(u, d, e). d = 0 \<or> list_all (\<lambda>(u', d', e'). u' \<noteq> u \<or> e' \<noteq> e \<or> d' = 0) r) g\<rparr>"

definition nested_reg :: "nat \<Rightarrow> (nat \<times> nat \<times> nat) list \<Rightarrow> bool" where
  "nested_reg t r \<longleftrightarrow> (\<exists>x. (t, x) \<in> set r)"

definition nested_in :: "nat \<Rightarrow> (nat \<times> nat \<times> nat) list \<Rightarrow> bool" where
  "nested_in t r \<longleftrightarrow> (\<exists>d e. (t, d, e) \<in> set r \<and> d \<noteq> 0)"

definition nested_blk :: "(nat \<times> nat \<times> nat) list \<Rightarrow> (nat \<times> nat \<times> nat) list \<Rightarrow> nat \<Rightarrow> bool" where
  "nested_blk g r t \<longleftrightarrow> (\<exists>d d' e. (t, d, e) \<in> set g \<and> d \<noteq> 0 \<and> (t, d', e) \<in> set r \<and> d' \<noteq> 0)"

lemma change_other: "u \<noteq> t \<Longrightarrow> (u, x) \<in> set (change f t r) \<longleftrightarrow> (u, x) \<in> set r"
  by (force simp: change_def split: if_splits)

lemma change_self: "(t, x) \<in> set r \<Longrightarrow> (t, f x) \<in> set (change f t r)"
  by (force simp: change_def)

interpretation nested: rcu_library nested_rcu nested_reg nested_in nested_blk
proof
  fix t u :: nat and r g :: "(nat \<times> nat \<times> nat) list" and op
  assume "op \<in> {register_thread nested_rcu, unregister_thread nested_rcu, read_lock nested_rcu, read_unlock nested_rcu}" "u \<noteq> t"
  then have "(u, x) \<in> set (op t r) \<longleftrightarrow> (u, x) \<in> set r" for x
    by (auto simp: nested_rcu_def change_other)
  then show "nested_reg u (op t r) = nested_reg u r \<and> nested_in u (op t r) = nested_in u r \<and>
      (nested_blk g r u \<longrightarrow> nested_blk g (op t r) u)"
    by (simp add: nested_reg_def nested_in_def nested_blk_def)
next
  fix t r
  assume "nested_reg t r"
  then obtain d e where "(t, d, e) \<in> set r"
    by (auto simp: nested_reg_def)
  note s = change_self [OF this]
  show "nested_reg t (read_lock nested_rcu t r) \<and> nested_in t (read_lock nested_rcu t r)"
    using s [of "\<lambda>(d, e). (d + 1, e)"] by (auto simp: nested_rcu_def nested_reg_def nested_in_def)
  show "nested_reg t (read_unlock nested_rcu t r)"
    using s [of "\<lambda>(d, e). if d \<le> 1 then (0, e + 1) else (d - 1, e)"]
    by (auto simp: nested_rcu_def nested_reg_def split: if_splits)
next
  fix g r u
  show "gp_over nested_rcu g r \<Longrightarrow> \<not> nested_blk g r u"
    by (fastforce simp: nested_rcu_def nested_blk_def list_all_iff)
qed (auto simp: nested_rcu_def nested_reg_def nested_in_def nested_blk_def)

section \<open>Correctness\<close>



text \<open>
  An execution with \<open>sync-batch\<close> of one object: thread 0, a writer, replaces the block at
  address 5 by the one at address 9, waits for a grace period, frees the old block and finishes.
\<close>

type_synonym nested_shared = "((nat \<times> nat \<times> nat) list, (nat \<times> nat \<times> nat) list) urcu_shared"
type_synonym nested_state = "((nat \<times> nat \<times> nat) list, (nat \<times> nat \<times> nat) list) urcu_state"

fun writer_run ::
  "Config \<Rightarrow> ('r, 'g) rcu_lib \<Rightarrow> (nat \<Rightarrow> u8) \<Rightarrow> nat \<Rightarrow> (bool \<times> nat) list \<Rightarrow> 'g urcu_writer \<Rightarrow> ('r, 'g) urcu_shared \<Rightarrow>
   ('g urcu_writer \<times> ('r, 'g) urcu_shared) option" where
  "writer_run c L junk t [] p h = Some (p, h)"
| "writer_run c L junk t ((stop, a) # xs) p h =
     (if a = 0 \<or> blocks h a \<noteq> None then None
      else case urcu_writer_step c L junk stop a t p h of
        None \<Rightarrow> None | Some (p', h') \<Rightarrow> writer_run c L junk t xs p' h')"

lemma writer_run_reach:
  assumes "writer_run c L junk t xs p h = Some (p', h')" "upoint s t = U_Writer p" "ush s = h"
    "reach (urcu_start c) (urcu_step c L junk) s"
  shows "reach (urcu_start c) (urcu_step c L junk) (s\<lparr>ush := h', upoint := (upoint s)(t := U_Writer p')\<rparr>)"
  using assms
proof (induction c L junk t xs p h arbitrary: s rule: writer_run.induct)
  case (1 c L junk t p h)
  then have "s\<lparr>ush := h', upoint := (upoint s)(t := U_Writer p')\<rparr> = s"
    by (auto intro!: urcu_state.equality simp: fun_upd_idem)
  with 1(4) show ?case by (simp only:)
next
  case (2 c L junk t stop a xs p h)
  then obtain p1 h1 where s1: "a \<noteq> 0" "blocks h a = None" "urcu_writer_step c L junk stop a t p h = Some (p1, h1)"
    "writer_run c L junk t xs p1 h1 = Some (p', h')"
    by (auto split: if_splits option.splits)
  let ?s = "s\<lparr>ush := h1, upoint := (upoint s)(t := U_Writer p1)\<rparr>"
  have "reach (urcu_start c) (urcu_step c L junk) ?s"
    using urcu_step.Writer [of s t p a c L junk stop p1 h1] s1(1-3) 2(3-5) by (auto intro: reach_step)
  then have "reach (urcu_start c) (urcu_step c L junk) (?s\<lparr>ush := h', upoint := (upoint ?s)(t := U_Writer p')\<rparr>)"
    using s1 by (intro 2(1)) auto
  moreover have "?s\<lparr>ush := h', upoint := (upoint ?s)(t := U_Writer p')\<rparr> = s\<lparr>ush := h', upoint := (upoint s)(t := U_Writer p')\<rparr>"
    by (rule urcu_state.equality) auto
  ultimately show ?case by (simp only:)
qed

definition batch_config :: Config where
  "batch_config = default_Config\<lparr>reclaim := ''sync-batch'', sync_batch := 1, payload_bytes := 2\<rparr>"

definition batch_object :: urcu_obj where
  "batch_object = \<lparr>uv1 = Some 0, uv2 = Some 0, upool = Some (), upending = Some (), upayload = [0, 0]\<rparr>"

definition batch_start :: nested_state where
  "batch_start =
     \<lparr>ush = \<lparr>rcu = [], gptrs = [5], blocks = (\<lambda>_. None)(5 := Some batch_object), upend = 0, ufreed = 0, callbacks = [],
        cb_fault = False\<rparr>,
      upoint = (\<lambda>_. U_Reader (UR_Register 0))(0 := U_Writer (UW_Register 0))\<rparr>"

definition batch_end :: nested_shared where
  "batch_end =
     \<lparr>rcu = [], gptrs = [9],
      blocks = (\<lambda>_. None)(9 := Some \<lparr>uv1 = Some 1, uv2 = Some 1, upool = Some (), upending = Some (), upayload = [1, 0]\<rparr>),
      upend = 0, ufreed = 1, callbacks = [], cb_fault = False\<rparr>"

lemma batch_config_fields:
  "reclaim batch_config = ''sync-batch''" "sync_batch batch_config = 1" "unat (payload_bytes batch_config) = 2"
  "nat (shards batch_config) = 1" "updates_per_sec batch_config = 0"
  by (simp_all add: batch_config_def default_Config_def)

lemma batch_starts: "urcu_start batch_config batch_start"
proof -
  have "config_ok batch_config" "backend batch_config = ''urcu''"
    by (simp_all add: batch_config_def default_Config_def config_ok_def)
  moreover have "urcu_initial 2 batch_object"
    by (simp add: urcu_initial_def batch_object_def)
  ultimately show ?thesis
    by (auto simp: urcu_start_def batch_start_def batch_config_fields)
qed

lemma batch_run:
  "writer_run batch_config nested_rcu (\<lambda>_. 7) 0
     (replicate 3 (False, 9) @ replicate 13 (False, 11) @ replicate 3 (True, 11)) (UW_Register 0) (ush batch_start) =
   Some (UW_Done [], batch_end)"
  by (simp add: numeral_eq_Suc urcu_writer_step_def batch_start_def batch_config_fields nested_rcu_def update_interval_def
      after_put_def put_member_def pool_free_def write_payload_def urcu_block_def next_shard_def Let_def batch_end_def)

definition batch_state :: nested_state where
  "batch_state = batch_start\<lparr>ush := batch_end, upoint := (upoint batch_start)(0 := U_Writer (UW_Done []))\<rparr>"

lemma batch_reach: "reach (urcu_start batch_config) (urcu_step batch_config nested_rcu (\<lambda>_. 7)) batch_state"
proof -
  have "reach (urcu_start batch_config) (urcu_step batch_config nested_rcu (\<lambda>_. 7)) batch_start"
    by (rule reach_init) (rule batch_starts)
  then show ?thesis
    unfolding batch_state_def by (intro writer_run_reach [OF batch_run _ refl]) (simp_all add: batch_start_def)
qed



end
