(* ===== verification/Bench_Report.thy ===== *)
theory Bench_Report
  imports Bench_Config Bench_Stats
begin

text \<open>
  The results of the benchmarks: \<open>Results\<close>, \<open>finalize\<close> of both back ends, the printing of results
  and \<open>main\<close> of \<open>microbench/bench2/bench_all.cpp\<close>, \<open>get_peak_rss_kb\<close> of \<open>bench_common.hpp\<close>, and
  \<open>main\<close> of the programs of \<open>microbench/bench1\<close> with its reading of arguments and its report of
  throughput. The numbers of operations, the statistics and the answers of the system are inputs.
  A \<open>double\<close> is a rational number, infinity or not a number; rounding to 53 bits and the sign of
  the latter two are left out.
\<close>

section \<open>Numbers as text\<close>

datatype real_value = Finite rat | Infinite | Not_a_number

text \<open>\<open>(double)n / (double)d\<close> for integers.\<close>

definition quotient :: "nat \<Rightarrow> int \<Rightarrow> real_value" where
  "quotient n d =
     (if d = 0 then (if n = 0 then Not_a_number else Infinite) else Finite (of_nat n / of_int d))"

text \<open>The nearest integer, the even one of two.\<close>

definition round_even :: "rat \<Rightarrow> int" where
  "round_even q = (let m = \<lfloor>q\<rfloor>; f = q - of_int m in
     if f > 1 / 2 \<or> (f = 1 / 2 \<and> odd m) then m + 1 else m)"

definition pad_left :: "nat \<Rightarrow> string \<Rightarrow> string" where
  "pad_left k s = replicate (k - length s) (CHR ''0'') @ s"

text \<open>The number \<open>n / 10 ^ k\<close> in digits, with \<open>k\<close> of them behind the point.\<close>

definition show_scaled :: "nat \<Rightarrow> nat \<Rightarrow> string" where
  "show_scaled k n =
     (if k = 0 then show_nat n
      else show_nat (n div 10 ^ k) @ ''.'' @ pad_left k (show_nat (n mod 10 ^ k)))"

text \<open>\<open>std::fixed\<close> with \<open>std::setprecision(k)\<close>.\<close>

definition show_fixed :: "nat \<Rightarrow> real_value \<Rightarrow> string" where
  "show_fixed k x = (case x of
     Finite q \<Rightarrow> (if q < 0 then ''-'' else []) @ show_scaled k (nat (round_even (\<bar>q\<bar> * 10 ^ k)))
   | Infinite \<Rightarrow> ''inf'' | Not_a_number \<Rightarrow> ''nan'')"

text \<open>
  The default format of \<open>std::cout\<close>: six significant digits, without trailing zeros, in
  scientific notation when the exponent is below -4 or above 5. \<open>leading_zeros\<close> looks at 330
  digits, more than the smallest positive \<open>double\<close> has before its first digit that is not 0.
\<close>

fun leading_zeros :: "nat \<Rightarrow> rat \<Rightarrow> nat" where
  "leading_zeros 0 q = 0"
| "leading_zeros (Suc f) q = (if q \<ge> 1 then 0 else Suc (leading_zeros f (q * 10)))"

definition strip_zeros :: "string \<Rightarrow> string" where
  "strip_zeros s =
     (if CHR ''.'' \<in> set s
      then (let r = dropWhile (\<lambda>c. c = CHR ''0'') (rev s) in rev (if r \<noteq> [] \<and> hd r = CHR ''.'' then tl r else r))
      else s)"

definition show_exponent :: "int \<Rightarrow> string" where
  "show_exponent e = (if e < 0 then ''e-'' else ''e+'') @ pad_left 2 (show_nat (nat \<bar>e\<bar>))"

definition show_general_pos :: "rat \<Rightarrow> string" where
  "show_general_pos q =
     (let e0 = (if q \<ge> 1 then int (length (show_nat (nat \<lfloor>q\<rfloor>))) - 1 else - int (leading_zeros 330 q));
          m0 = nat (round_even (if e0 \<le> 5 then q * 10 ^ nat (5 - e0) else q / 10 ^ nat (e0 - 5)));
          (m, e) = (if m0 = 10 ^ 6 then (10 ^ 5, e0 + 1) else (m0, e0))
      in if - 4 \<le> e \<and> e < 6 then strip_zeros (show_scaled (nat (5 - e)) m)
         else strip_zeros (show_scaled 5 m) @ show_exponent e)"

definition show_general :: "real_value \<Rightarrow> string" where
  "show_general x = (case x of
     Finite q \<Rightarrow> if q = 0 then ''0'' else (if q < 0 then ''-'' else []) @ show_general_pos \<bar>q\<bar>
   | Infinite \<Rightarrow> ''inf'' | Not_a_number \<Rightarrow> ''nan'')"

abbreviation newline :: string where
  "newline \<equiv> [CHR 0x0A]"

section \<open>Results\<close>

record Results =
  r_ops_s :: real_value
  w_ops_s :: real_value
  peak_rss_kb :: int
  r_pending :: u64
  r_freed :: u64
  lat_samples :: u64
  lat_avg_ns :: real_value
  lat_max_ns :: u64

definition Results0 :: Results where
  "Results0 = \<lparr>r_ops_s = Finite 0, w_ops_s = Finite 0, peak_rss_kb = 0, r_pending = 0, r_freed = 0,
     lat_samples = 0, lat_avg_ns = Finite 0, lat_max_ns = 0\<rparr>"

text \<open>\<open>status\<close> and \<open>maxrss\<close> are the answer of \<open>getrusage\<close>.\<close>

definition get_peak_rss_kb :: "int \<Rightarrow> int \<Rightarrow> int" where
  "get_peak_rss_kb status maxrss = (if status = 0 then maxrss else 0)"

text \<open>
  \<open>finalize\<close> of the two back ends; the last three or four arguments are the members \<open>pending\<close> and
  \<open>freed\<close>, or \<open>g_atomsnap_freed\<close>, and the answer of \<open>getrusage\<close>.
\<close>

definition urcu_finalize :: "Config \<Rightarrow> u64 \<Rightarrow> u64 \<Rightarrow> latency_stats \<Rightarrow> u64 \<Rightarrow> u64 \<Rightarrow> int \<Rightarrow> int \<Rightarrow> Results" where
  "urcu_finalize c rops wops lat pending freed status maxrss =
     (let r = Results0;
          r = r\<lparr>r_ops_s := quotient (unat rops) (duration_sec c)\<rparr>;
          r = r\<lparr>w_ops_s := quotient (unat wops) (duration_sec c)\<rparr>;
          r = r\<lparr>peak_rss_kb := get_peak_rss_kb status maxrss\<rparr>;
          r = r\<lparr>r_pending := pending, r_freed := freed\<rparr>;
          r = r\<lparr>lat_samples := samples lat\<rparr>;
          r = (if lat_samples r \<noteq> 0
               then r\<lparr>lat_avg_ns := quotient (unat (sum_ns lat)) (int (unat (lat_samples r)))\<rparr> else r)
      in r\<lparr>lat_max_ns := max_ns lat\<rparr>)"

definition atomsnap_finalize :: "Config \<Rightarrow> u64 \<Rightarrow> u64 \<Rightarrow> latency_stats \<Rightarrow> u64 \<Rightarrow> int \<Rightarrow> int \<Rightarrow> Results" where
  "atomsnap_finalize c rops wops lat freed status maxrss =
     (let r = Results0;
          r = r\<lparr>r_ops_s := quotient (unat rops) (duration_sec c)\<rparr>;
          r = r\<lparr>w_ops_s := quotient (unat wops) (duration_sec c)\<rparr>;
          r = r\<lparr>peak_rss_kb := get_peak_rss_kb status maxrss\<rparr>;
          r = r\<lparr>r_pending := 0, r_freed := freed\<rparr>;
          r = r\<lparr>lat_samples := samples lat\<rparr>;
          r = (if lat_samples r \<noteq> 0
               then r\<lparr>lat_avg_ns := quotient (unat (sum_ns lat)) (int (unat (lat_samples r)))\<rparr> else r)
      in r\<lparr>lat_max_ns := max_ns lat\<rparr>)"

section \<open>Output\<close>

definition show_u64 :: "u64 \<Rightarrow> string" where
  "show_u64 w = show_nat (unat w)"

definition print_csv_header :: string where
  "print_csv_header =
     ''backend,readers,writers,duration,cs_ns,payload,'' @
     ''updates_per_sec,shards,reclaim,sync_batch,'' @
     ''r_ops_s,w_ops_s,peak_rss_kb,pending,freed,'' @
     ''lat_samples,lat_avg_ns,lat_max_ns'' @ newline"

definition print_csv_line :: "Config \<Rightarrow> Results \<Rightarrow> string" where
  "print_csv_line c r =
     backend c @ '','' @
     show_int (cfg_readers c) @ '','' @
     show_int (cfg_writers c) @ '','' @
     show_int (duration_sec c) @ '','' @
     show_u64 (cs_ns c) @ '','' @
     show_u64 (payload_bytes c) @ '','' @
     show_u64 (updates_per_sec c) @ '','' @
     show_int (shards c) @ '','' @
     reclaim c @ '','' @
     show_nat (unat (sync_batch c)) @ '','' @
     show_fixed 2 (r_ops_s r) @ '','' @
     show_fixed 2 (w_ops_s r) @ '','' @
     show_int (peak_rss_kb r) @ '','' @
     show_u64 (r_pending r) @ '','' @
     show_u64 (r_freed r) @ '','' @
     show_u64 (lat_samples r) @ '','' @
     show_fixed 2 (lat_avg_ns r) @ '','' @
     show_u64 (lat_max_ns r) @ newline"

definition print_human :: "Config \<Rightarrow> Results \<Rightarrow> string" where
  "print_human c r =
     ''Backend         : '' @ backend c @ newline @
     ''Readers/Writers : '' @ show_int (cfg_readers c) @ '' / '' @ show_int (cfg_writers c) @ newline @
     ''Duration (s)    : '' @ show_int (duration_sec c) @ newline @
     ''CS (ns)         : '' @ show_u64 (cs_ns c) @ newline @
     ''Payload (B)     : '' @ show_u64 (payload_bytes c) @ newline @
     ''Updates/sec     : '' @ show_u64 (updates_per_sec c) @ newline @
     ''Shards          : '' @ show_int (shards c) @ newline @
     (if backend c = ''urcu''
      then ''Reclaim         : '' @ reclaim c @ newline @
           (if reclaim c = ''sync-batch'' then ''Sync batch      : '' @ show_nat (unat (sync_batch c)) @ newline else [])
      else []) @
     ''Reader ops/s    : '' @ show_general (r_ops_s r) @ newline @
     ''Writer ops/s    : '' @ show_general (w_ops_s r) @ newline @
     ''Peak RSS (KB)   : '' @ show_int (peak_rss_kb r) @ newline @
     ''Pending         : '' @ show_u64 (r_pending r) @ newline @
     ''Freed           : '' @ show_u64 (r_freed r) @ newline @
     ''Lat samples     : '' @ show_u64 (lat_samples r) @ newline @
     ''Lat avg (ns)    : '' @ show_general (lat_avg_ns r) @ newline @
     ''Lat max (ns)    : '' @ show_u64 (lat_max_ns r) @ newline"

definition usage :: "string \<Rightarrow> string" where
  "usage argv0 =
     ''Usage: '' @ argv0 @ '' [options]'' @ newline @
     ''  --backend=urcu|atomsnap'' @ newline @
     ''  --readers=N --writers=N --duration=SEC'' @ newline @
     ''  --cs-ns=NS --payload=BYTES'' @ newline @
     ''  --updates-per-sec=U (0=unlimited)'' @ newline @
     ''  --shards=N'' @ newline @
     ''  --reclaim=async|sync-batch (urcu)'' @ newline @
     ''  --sync-batch=N (urcu)'' @ newline @
     ''  --pin=0|1 --pin-base-cpu=N'' @ newline @
     ''  --sample-pow2=K (0=off)'' @ newline @
     ''  --csv=0|1'' @ newline"

section \<open>The main function of the second benchmark\<close>

text \<open>
  The thread that ends the run: it looks at the clock, whose readings in seconds since the start
  are \<open>secs\<close>, until the duration has passed. The result is the number of times it slept before it
  cleared \<open>running\<close>; \<^term>\<open>None\<close> while it still runs.
\<close>

fun stop_timer :: "int \<Rightarrow> int list \<Rightarrow> nat option" where
  "stop_timer duration [] = None"
| "stop_timer duration (sec # secs) =
     (if sec \<ge> duration then Some 0 else map_option Suc (stop_timer duration secs))"

text \<open>The message \<open>parse_args\<close> prints before it rejects an argument it does not know.\<close>

fun parse_message :: "string list \<Rightarrow> Config \<Rightarrow> string" where
  "parse_message [] c = []"
| "parse_message (a # as) c =
     (case try_options options a c of None \<Rightarrow> ''Unknown arg: '' @ a @ newline | Some c' \<Rightarrow> parse_message as c')"

text \<open>What the run leaves behind for \<open>finalize\<close>.\<close>

record run_outcome =
  out_rops :: u64
  out_wops :: u64
  out_lat :: latency_stats
  out_pending :: u64
  out_freed :: u64
  out_status :: int
  out_maxrss :: int

record outcome =
  exit_code :: int
  out_text :: string
  err_text :: string

definition INT_MAX :: int where
  "INT_MAX = 2 ^ 31 - 1"

definition bench_results :: "Config \<Rightarrow> run_outcome \<Rightarrow> Results" where
  "bench_results c x =
     (if backend c = ''urcu''
      then urcu_finalize c (out_rops x) (out_wops x) (out_lat x) (out_pending x) (out_freed x) (out_status x) (out_maxrss x)
      else atomsnap_finalize c (out_rops x) (out_wops x) (out_lat x) (out_freed x) (out_status x) (out_maxrss x))"

text \<open>
  \<open>main\<close> on its arguments, where \<open>run c\<close> is what the threads leave behind; \<^term>\<open>None\<close> is the
  overflow of the sum that counts the threads.
\<close>

definition bench_main :: "string \<Rightarrow> string list \<Rightarrow> (Config \<Rightarrow> run_outcome) \<Rightarrow> outcome option" where
  "bench_main argv0 args run =
     (let (ok, c) = parse_args args default_Config in
      if \<not> ok then Some \<lparr>exit_code = 1, out_text = [], err_text = parse_message args default_Config @ usage argv0\<rparr>
      else if cfg_readers c + cfg_writers c + 1 > INT_MAX then None
      else let r = bench_results c (run c) in
        Some \<lparr>exit_code = 0,
          out_text = (if csv c then print_csv_header @ print_csv_line c r else print_human c r), err_text = []\<rparr>)"

section \<open>The main functions of the first benchmark\<close>

text \<open>
  The arguments of the programs of \<open>microbench/bench1\<close>, with the number of writers, the number of
  readers and the duration, or the message with which the program ends.
\<close>

definition example_args :: "string list \<Rightarrow> string + int \<times> int \<times> int" where
  "example_args argv =
     (if length argv < 4
      then Inl (''Usage: '' @ hd argv @ '' <writer_count> <reader_count> <duration_seconds>'' @ newline)
      else
        let writer_count = parse_i (argv ! 1); reader_count = parse_i (argv ! 2); duration_seconds = parse_i (argv ! 3)
        in if writer_count \<le> 0 \<or> reader_count \<le> 0 \<or> duration_seconds < 0 then Inl (''Invalid arguments'' @ newline)
           else Inr (writer_count, reader_count, duration_seconds))"

definition throughput_report :: "u64 \<Rightarrow> u64 \<Rightarrow> int \<Rightarrow> string" where
  "throughput_report writer_ops reader_ops duration =
     ''Total writer throughput: '' @ show_fixed 0 (quotient (unat writer_ops) duration) @ '' ops/sec'' @ newline @
     ''Total reader throughput: '' @ show_fixed 0 (quotient (unat reader_ops) duration) @ '' ops/sec'' @ newline"

text \<open>
  \<open>run w r d\<close> are the operations counted by \<open>w\<close> writers and \<open>r\<close> readers in \<open>d\<close> seconds, and \<open>gate\<close>
  says whether \<open>atomsnap_init_gate\<close> succeeded. \<^term>\<open>None\<close> is the overflow of the sum that counts
  the threads.
\<close>

definition example_run :: "(int \<Rightarrow> int \<Rightarrow> int \<Rightarrow> u64 \<times> u64) \<Rightarrow> int \<Rightarrow> int \<Rightarrow> int \<Rightarrow> outcome option" where
  "example_run run w r d =
     (if w + r > INT_MAX then None
      else let (writer_ops, reader_ops) = run w r d in
        Some \<lparr>exit_code = 0, out_text = throughput_report writer_ops reader_ops d, err_text = []\<rparr>)"

definition lock_main :: "string list \<Rightarrow> (int \<Rightarrow> int \<Rightarrow> int \<Rightarrow> u64 \<times> u64) \<Rightarrow> outcome option" where
  "lock_main argv run = (case example_args argv of
     Inl e \<Rightarrow> Some \<lparr>exit_code = - 1, out_text = [], err_text = e\<rparr>
   | Inr (w, r, d) \<Rightarrow> example_run run w r d)"

definition atomsnap_main :: "bool \<Rightarrow> string list \<Rightarrow> (int \<Rightarrow> int \<Rightarrow> int \<Rightarrow> u64 \<times> u64) \<Rightarrow> outcome option" where
  "atomsnap_main gate argv run = (case example_args argv of
     Inl e \<Rightarrow> Some \<lparr>exit_code = - 1, out_text = [], err_text = e\<rparr>
   | Inr (w, r, d) \<Rightarrow>
       if \<not> gate then Some \<lparr>exit_code = - 1, out_text = [], err_text = ''Failed to init atomsnap_gate'' @ newline\<rparr>
       else example_run run w r d)"

text \<open>The programs: those with locks and with shared pointers have the same \<open>main\<close>, and so have those with gates.\<close>

definition spinlock_main :: "string list \<Rightarrow> (int \<Rightarrow> int \<Rightarrow> int \<Rightarrow> u64 \<times> u64) \<Rightarrow> outcome option" where
  "spinlock_main = lock_main"

definition mutex_main :: "string list \<Rightarrow> (int \<Rightarrow> int \<Rightarrow> int \<Rightarrow> u64 \<times> u64) \<Rightarrow> outcome option" where
  "mutex_main = lock_main"

definition shared_ptr_cmp_main :: "string list \<Rightarrow> (int \<Rightarrow> int \<Rightarrow> int \<Rightarrow> u64 \<times> u64) \<Rightarrow> outcome option" where
  "shared_ptr_cmp_main = lock_main"

definition shared_ptr_exchange_main :: "string list \<Rightarrow> (int \<Rightarrow> int \<Rightarrow> int \<Rightarrow> u64 \<times> u64) \<Rightarrow> outcome option" where
  "shared_ptr_exchange_main = lock_main"

definition atomsnap_cmp_main :: "bool \<Rightarrow> string list \<Rightarrow> (int \<Rightarrow> int \<Rightarrow> int \<Rightarrow> u64 \<times> u64) \<Rightarrow> outcome option" where
  "atomsnap_cmp_main = atomsnap_main"

definition atomsnap_exchange_main :: "bool \<Rightarrow> string list \<Rightarrow> (int \<Rightarrow> int \<Rightarrow> int \<Rightarrow> u64 \<times> u64) \<Rightarrow> outcome option" where
  "atomsnap_exchange_main = atomsnap_main"

section \<open>The table in the CSV output\<close>

fun split_on :: "char \<Rightarrow> string \<Rightarrow> string list" where
  "split_on x [] = [[]]"
| "split_on x (c # cs) =
     (if c = x then [] # split_on x cs
      else case split_on x cs of [] \<Rightarrow> [[c]] | f # fs \<Rightarrow> (c # f) # fs)"

lemma split_on_field: "x \<notin> set f \<Longrightarrow> split_on x (f @ x # s) = f # split_on x s"
  by (induction f) (auto split: list.splits)

lemma split_on_last: "x \<notin> set f \<Longrightarrow> split_on x f = [f]"
  by (induction f) auto

definition csv_rows :: "string \<Rightarrow> string list list" where
  "csv_rows text = map (split_on (CHR '','')) (butlast (split_on (CHR 0x0A) text))"

lemma digits_plain: "\<forall>c\<in>set s. is_digit c \<Longrightarrow> CHR '','' \<notin> set s \<and> CHR 0x0A \<notin> set s"
  by (auto simp: is_digit_def)

definition plain :: "string \<Rightarrow> bool" where
  "plain s \<longleftrightarrow> CHR '','' \<notin> set s \<and> CHR 0x0A \<notin> set s"

lemma plain_Nil [simp]: "plain []"
  by (simp add: plain_def)

lemma plain_Cons [simp]: "plain (c # s) \<longleftrightarrow> c \<noteq> CHR '','' \<and> c \<noteq> CHR 0x0A \<and> plain s"
  by (auto simp: plain_def)

lemma plain_append [simp]: "plain (s @ t) \<longleftrightarrow> plain s \<and> plain t"
  by (auto simp: plain_def)

lemma plain_numbers [simp]: "plain (show_nat n)" "plain (show_int i)" "plain (show_u64 w)"
  using digits_plain [OF show_nat_digits] by (auto simp: plain_def show_int_def show_u64_def)

lemma plain_show_fixed [simp]: "plain (show_fixed k x)"
proof -
  have "plain (replicate n (CHR ''0''))" for n
    by (simp add: plain_def)
  then show ?thesis
    by (cases x) (simp_all add: show_fixed_def show_scaled_def pad_left_def)
qed

text \<open>
  Claim C37. The CSV output is a table of two rows with 18 columns each, whose names and values
  agree, for every accepted configuration and all results. With \<open>--backend=atomsnap\<close> the value of
  \<open>--reclaim\<close> is not checked, hence the second hypothesis.
\<close>

theorem csv_table:
  assumes "config_ok c" "backend c = ''urcu'' \<or> plain (reclaim c)"
  shows "csv_rows (print_csv_header @ print_csv_line c r) =
    [[''backend'', ''readers'', ''writers'', ''duration'', ''cs_ns'', ''payload'', ''updates_per_sec'', ''shards'',
      ''reclaim'', ''sync_batch'', ''r_ops_s'', ''w_ops_s'', ''peak_rss_kb'', ''pending'', ''freed'', ''lat_samples'',
      ''lat_avg_ns'', ''lat_max_ns''],
     [backend c, show_int (cfg_readers c), show_int (cfg_writers c), show_int (duration_sec c), show_u64 (cs_ns c),
      show_u64 (payload_bytes c), show_u64 (updates_per_sec c), show_int (shards c), reclaim c, show_nat (unat (sync_batch c)),
      show_fixed 2 (r_ops_s r), show_fixed 2 (w_ops_s r), show_int (peak_rss_kb r), show_u64 (r_pending r),
      show_u64 (r_freed r), show_u64 (lat_samples r), show_fixed 2 (lat_avg_ns r), show_u64 (lat_max_ns r)]]"
proof -
  have b: "plain (backend c)" "plain (reclaim c)"
    using assms by (auto simp: config_ok_def plain_def split: if_splits)
  define line where "line = butlast (print_csv_line c r)"
  have line: "print_csv_line c r = line @ newline"
    by (simp add: line_def print_csv_line_def butlast_append)
  have "CHR 0x0A \<notin> set line"
    using b plain_numbers plain_show_fixed by (auto simp: line_def print_csv_line_def butlast_append plain_def)
  then have rows: "split_on (CHR 0x0A) (print_csv_line c r) = [line, []]"
    using split_on_field [of _ line "[]"] by (simp add: line)
  have cols: "split_on (CHR '','') line =
     [backend c, show_int (cfg_readers c), show_int (cfg_writers c), show_int (duration_sec c), show_u64 (cs_ns c),
      show_u64 (payload_bytes c), show_u64 (updates_per_sec c), show_int (shards c), reclaim c, show_nat (unat (sync_batch c)),
      show_fixed 2 (r_ops_s r), show_fixed 2 (w_ops_s r), show_int (peak_rss_kb r), show_u64 (r_pending r),
      show_u64 (r_freed r), show_u64 (lat_samples r), show_fixed 2 (lat_avg_ns r), show_u64 (lat_max_ns r)]"
    using b plain_numbers plain_show_fixed
    by (simp add: line_def print_csv_line_def butlast_append split_on_field split_on_last plain_def)
  have head: "print_csv_header = butlast print_csv_header @ CHR 0x0A # []" "CHR 0x0A \<notin> set (butlast print_csv_header)"
    by (simp_all add: print_csv_header_def)
  have "split_on (CHR 0x0A) (print_csv_header @ print_csv_line c r) =
    butlast print_csv_header # split_on (CHR 0x0A) (print_csv_line c r)"
    using split_on_field [OF head(2), of "print_csv_line c r"] head(1) by (metis append.assoc append_Cons append_Nil)
  moreover have "split_on (CHR '','') (butlast print_csv_header) =
    [''backend'', ''readers'', ''writers'', ''duration'', ''cs_ns'', ''payload'', ''updates_per_sec'', ''shards'',
      ''reclaim'', ''sync_batch'', ''r_ops_s'', ''w_ops_s'', ''peak_rss_kb'', ''pending'', ''freed'', ''lat_samples'',
      ''lat_avg_ns'', ''lat_max_ns'']"
    by (simp add: print_csv_header_def)
  ultimately show ?thesis
    by (simp add: csv_rows_def rows cols)
qed

definition two_columns :: Config where
  "two_columns = default_Config\<lparr>backend := ''atomsnap'', csv := True\<rparr>"

theorem csv_table_witness:
  "length (csv_rows (print_csv_header @ print_csv_line two_columns Results0)) = 2 \<and>
   csv_rows (print_csv_header @ print_csv_line two_columns Results0) ! 1 ! 10 = ''0.00''"
proof -
  have "show_fixed 2 (Finite 0) = ''0.00''"
    by (simp add: show_fixed_def show_scaled_def round_even_def pad_left_def show_nat.simps char_of_eq_iff)
  then show ?thesis
    by (subst csv_table; simp add: two_columns_def default_Config_def config_ok_def Results0_def)+
qed

section \<open>The results of a run\<close>

lemma sum_list_words: "sum_list ws = of_nat (\<Sum>w\<leftarrow>ws. unat w)" for ws :: "u64 list"
  by (induction ws) simp_all

lemma unat_sum_list: "(\<Sum>w\<leftarrow>ws. unat w) < 2 ^ 64 \<Longrightarrow> unat (sum_list ws) = (\<Sum>w\<leftarrow>ws. unat w)" for ws :: "u64 list"
  by (simp add: sum_list_words unsigned_of_nat take_bit_nat_eq_self)

lemma sum_list_bound: "\<forall>w\<in>set ws. w \<le> m \<Longrightarrow> (\<Sum>w\<leftarrow>ws. unat w) \<le> length ws * unat m" for m :: u64
  by (induction ws) (auto simp: word_le_nat_alt)

lemma bench_results_fields:
  "lat_samples (bench_results c x) = samples (out_lat x)" "lat_max_ns (bench_results c x) = max_ns (out_lat x)"
  "r_ops_s (bench_results c x) = quotient (unat (out_rops x)) (duration_sec c)"
  "w_ops_s (bench_results c x) = quotient (unat (out_wops x)) (duration_sec c)"
  "samples (out_lat x) \<noteq> 0 \<Longrightarrow>
     lat_avg_ns (bench_results c x) = quotient (unat (sum_ns (out_lat x))) (int (unat (samples (out_lat x))))"
  by (simp_all add: bench_results_def urcu_finalize_def atomsnap_finalize_def Let_def)



section \<open>The programs of the first benchmark\<close>

text \<open>
  The programs of the first benchmark accept the duration 0: with valid numbers of
  writers and readers they end successfully, and since the threads stop at once and count no
  operation, they report a throughput that is not a number. With a positive duration every
  throughput is a number.
\<close>

theorem example_main_durations:
  assumes "int32_range w" "int32_range r" "int32_range d" "0 < w" "0 < r" "0 \<le> d" "w + r \<le> INT_MAX"
    and "main \<in> {spinlock_main, mutex_main, shared_ptr_cmp_main, shared_ptr_exchange_main, atomsnap_cmp_main True,
      atomsnap_exchange_main True}"
  shows "\<exists>res. main [prog, show_int w, show_int r, show_int d] run = Some res \<and> exit_code res = 0 \<and>
    (d = 0 \<and> run w r d = (0, 0) \<longrightarrow>
       out_text res = ''Total writer throughput: nan ops/sec'' @ newline @ ''Total reader throughput: nan ops/sec'' @ newline) \<and>
    (0 < d \<longrightarrow> out_text res =
       ''Total writer throughput: '' @ show_nat (nat (round_even (of_nat (unat (fst (run w r d))) / of_int d))) @ '' ops/sec'' @ newline @
       ''Total reader throughput: '' @ show_nat (nat (round_even (of_nat (unat (snd (run w r d))) / of_int d))) @ '' ops/sec'' @ newline)"
proof -
  have args: "example_args [prog, show_int w, show_int r, show_int d] = Inr (w, r, d)"
    using assms(1-6) by (simp add: example_args_def parse_i_show Let_def)
  have "main [prog, show_int w, show_int r, show_int d] run = example_run run w r d"
    using assms(8) args
    by (auto simp: spinlock_main_def mutex_main_def shared_ptr_cmp_main_def shared_ptr_exchange_main_def atomsnap_cmp_main_def
        atomsnap_exchange_main_def lock_main_def atomsnap_main_def)
  moreover obtain a b where ab: "run w r d = (a, b)"
    by (cases "run w r d")
  ultimately have m: "main [prog, show_int w, show_int r, show_int d] run =
      Some \<lparr>exit_code = 0, out_text = throughput_report a b d, err_text = []\<rparr>"
    using assms(7) by (simp add: example_run_def)
  have fixed: "show_fixed 0 (quotient n d) = show_nat (nat (round_even (of_nat n / of_int d)))" if "0 < d" for n
  proof -
    have "\<not> rat_of_nat n / rat_of_int d < 0" "\<bar>rat_of_nat n / rat_of_int d\<bar> = rat_of_nat n / rat_of_int d"
      using that by (simp_all add: not_less)
    then show ?thesis
      using that by (simp add: quotient_def show_fixed_def show_scaled_def del: abs_divide)
  qed
  have nan: "show_fixed 0 (quotient 0 0) = ''nan''"
    by (simp add: quotient_def show_fixed_def)
  show ?thesis
    unfolding m by (rule exI, rule conjI, rule refl) (auto simp: throughput_report_def ab nan fixed simp del: of_nat_unat)
qed

theorem example_main_durations_witness:
  "\<exists>res. spinlock_main [''spinlock_example'', show_int 2, show_int 3, show_int 0] (\<lambda>_ _ _. (0, 0)) = Some res \<and> exit_code res = 0 \<and>
     out_text res = ''Total writer throughput: nan ops/sec'' @ newline @ ''Total reader throughput: nan ops/sec'' @ newline"
  using example_main_durations [of 2 3 0 spinlock_main "''spinlock_example''" "\<lambda>_ _ _. (0, 0)"]
  by (simp add: int32_range_def INT_MAX_def)

section \<open>Arguments the second benchmark does not know\<close>

text \<open>
  When an argument of the second benchmark is not a known option with a value, \<open>main\<close>
  ends with status 1, prints nothing to standard output and on standard error names the first
  such argument, followed by the usage text, whatever comes behind it.
\<close>

theorem bench_main_unknown:
  assumes "\<And>a. a \<in> set known \<Longrightarrow> \<exists>k v. k \<in> fst ` set options \<and> a = k @ ''='' @ v"
    and "\<And>k v. k \<in> fst ` set options \<Longrightarrow> bad \<noteq> k @ ''='' @ v"
  shows "bench_main argv0 (known @ bad # rest) run =
    Some \<lparr>exit_code = 1, out_text = [], err_text = ''Unknown arg: '' @ bad @ newline @ usage argv0\<rparr>"
proof -
  have bad: "try_options options bad c = None" for c
    using try_options_iff [of options bad c] assms(2) by blast
  have "\<not> fst (parse_args (known @ bad # rest) c) \<and> parse_message (known @ bad # rest) c = ''Unknown arg: '' @ bad @ newline" for c
    using assms(1)
  proof (induction known arbitrary: c)
    case Nil
    then show ?case by (simp add: bad)
  next
    case (Cons a as)
    then obtain c' where "try_options options a c = Some c'"
      using try_options_iff [of options a c] by fastforce
    then show ?case using Cons by simp
  qed
  then show ?thesis
    by (simp add: bench_main_def Let_def split_beta)
qed

theorem bench_main_unknown_witness:
  "\<forall>run. bench_main ''bench_all'' [''--csv=1'', ''--help'', ''--readers=4''] run =
    Some \<lparr>exit_code = 1, out_text = [], err_text = ''Unknown arg: --help'' @ newline @ usage ''bench_all''\<rparr>"
proof
  fix run
  have "\<exists>k v. k \<in> fst ` set options \<and> a = k @ ''='' @ v" if "a \<in> set [''--csv=1'']" for a
    using that by (intro exI [of _ "''--csv''"] exI [of _ "''1''"]) (simp add: options_def)
  moreover have "''--help'' \<noteq> k @ ''='' @ v" if "k \<in> fst ` set options" for k v
    using that by (auto simp: options_def)
  ultimately have "bench_main ''bench_all'' ([''--csv=1''] @ ''--help'' # [''--readers=4'']) run =
    Some \<lparr>exit_code = 1, out_text = [], err_text = ''Unknown arg: '' @ ''--help'' @ newline @ usage ''bench_all''\<rparr>"
    by (rule bench_main_unknown)
  then show "bench_main ''bench_all'' [''--csv=1'', ''--help'', ''--readers=4''] run =
    Some \<lparr>exit_code = 1, out_text = [], err_text = ''Unknown arg: --help'' @ newline @ usage ''bench_all''\<rparr>"
    by simp
qed

end
