(* ===== verification/Spec2Isabelle.thy ===== *)
theory Spec2Isabelle
  imports
    Prelude
    Handles
    Machine
    Arena
    Arena_Inv
    Arena_Correct
    Arena_Props
    Alloc_Frame
    Threads
    Versions
    Versions_Props
    Stack_Conc
    Refcount_Conc
    Refcount_Props
    Seq_Refines
    Tagged_Pool
    Client_Compose
    Client_Rest
    Example_Cmp_Exchange
    Example_Counts
    Example_Exchange
    Bench_Config
    Bench_Stats
    Bench_Backend
    Backend_Counts
    Pool_Allocator
    Lock_Examples
    Shared_Ptr_Examples
    Urcu_Backend
    Bench_Report
begin

text \<open>
  A verification of atomsnap, a C library for multi-version snapshots of shared objects.

  \<^bold>\<open>The program.\<close> A gate (\<open>struct atomsnap_gate\<close>) publishes one current version of a user
  object per control block. Readers take a reference to the current version with one atomic
  addition on the control block (\<open>atomsnap_acquire_version_slot\<close>) and give it back with one
  atomic addition on the version's own counter (\<open>atomsnap_release_version\<close>). Writers put
  another version in place (\<open>atomsnap_exchange_version_slot\<close>,
  \<open>atomsnap_compare_exchange_version_slot\<close>) and settle the two counters in
  \<open>detach_and_adjust\<close>; whoever finds that the references balance runs the user's callback and
  frees the version (\<open>try_finalize\<close>, \<open>finalize_and_free\<close>). Versions are slots of arenas, 3276
  to an arena, named by 32-bit handles; each thread owns arenas and a private stack of free
  slots, other threads give slots back on a lock-free stack per arena, and the owner takes that
  stack over as a whole (\<open>alloc_slot\<close>, \<open>free_slot\<close>). Threads are registered on first use and
  their contexts adopted after exit (\<open>get_or_init_thread_context\<close>, \<open>tls_destructor\<close>).

  \<^bold>\<open>The theories\<close>, in the order of the code:

  \<^item> \<open>Prelude\<close>: word types, errors, the packing of two 32-bit halves in a word, and the
    interfaces \<open>packed_counter\<close>, \<open>inductive_invariant\<close> and \<open>simulation\<close>.
  \<^item> \<open>Handles\<close> (\<open>atomsnap.c\<close> 54--150, 288--296): constants, handles and the three packed words,
    each an interpretation of \<open>packed_counter\<close>.
  \<^item> \<open>Machine\<close> (173--241): structures, globals and heap. Accesses through null, freed or
    uninitialised memory are values of type \<open>cerror\<close>, so that a result \<open>Inr\<close> says that the
    run is free of them. The answers of malloc, of weak compare-and-swap and of the thread
    library come from an environment record that the theorems quantify over.
  \<^item> \<open>Arena\<close> (255--697): the allocator. \<open>Arena_Inv\<close> states its invariant, \<open>Arena_Correct\<close>
    proves every function against it, \<open>Arena_Props\<close> the contract \<open>slot_pool\<close> and the properties,
    and \<open>Alloc_Frame\<close> that an allocation leaves every slot in use as it was.
  \<^item> \<open>Threads\<close> (348--409, 788--855): registration, adoption, exit.
  \<^item> \<open>Versions\<close> (702--781, 864--1163, and the macros of \<open>atomsnap.h\<close>): gates and versions;
    \<open>Versions_Props\<close> what each call does on each branch, with all memory it touches.
  \<^item> \<open>Stack_Conc\<close>: one arena's stack with its owner and any number of freeing threads, one
    step per atomic operation; a refinement of a plain set of slots in use.
  \<^item> \<open>Refcount_Conc\<close>, \<open>Refcount_Props\<close>: readers and writers on any number of control blocks,
    one step per atomic operation; a refinement of a specification in which every version has
    a set of holders and is freed when nobody can reach it any more.
  \<^item> \<open>Seq_Refines\<close>: the calls of \<open>Versions\<close>, each on the full state, are runs of the steps of
    \<open>Refcount_Conc\<close> by one thread, between corresponding states, \<open>atomsnap_make_version\<close> with
    its allocation included.
  \<^item> \<open>Client_Compose\<close>: programs that use the library, as threads that synchronise with the steps
    of \<open>Refcount_Conc\<close> on their labels and work on objects of a heap. The locale
    \<open>snapshot_client\<close> is the contract of such a program (write an object only before it is
    published, use a version only between acquire and release) and shows that a program that
    keeps it never fails its own checks. It is interpreted on three programs:
    \<open>Example_Cmp_Exchange\<close> (\<open>microbench/bench1/cmp_exchange/atomsnap_example.cpp\<close>),
    \<open>Example_Exchange\<close> (\<open>bench1/exchange/atomsnap_example.cpp\<close>) and \<open>Bench_Backend\<close>
    (\<open>AtomSnapBackend\<close> of \<open>bench2/bench_all.cpp\<close>). \<open>Client_Rest\<close> extends it with what is left
    on the heap when no call is under way and every thread rests.
  \<^item> \<open>Example_Counts\<close> and \<open>Backend_Counts\<close>: the same steps with the counters that the threads of
    the compare-exchange program and of \<open>AtomSnapBackend\<close> keep, and \<open>stop\<close> of the latter.
  \<^item> \<open>Tagged_Pool\<close> (\<open>microbench/bench2/lf_pool.hpp\<close>): the block pool of the second benchmark.
  \<^item> \<open>Bench_Config\<close> and \<open>Bench_Stats\<close> (\<open>bench_all.cpp\<close>, \<open>bench_common.hpp\<close>): its command line;
    latency statistics, pacing, calibration and payload walk.
  \<^item> \<open>Pool_Allocator\<close> (\<open>bench1/exchange/shared_ptr_example.cpp\<close>): the block allocator of the
    programs with \<open>std::shared_ptr\<close>, under interleaving.
  \<^item> \<open>Lock_Examples\<close> (\<open>spinlock_example.cpp\<close>, \<open>mutex_example.cpp\<close>): the programs with locks, from
    the locale \<open>exclusion\<close> that both locks satisfy.
  \<^item> \<open>Shared_Ptr_Examples\<close> (\<open>shared_ptr_example.cpp\<close>, both of them): the programs with
    \<open>std::shared_ptr\<close>; an object is deleted with its last pointer. The locale
    \<open>shared_ptr_client\<close> has the rules of such a program and is interpreted on both.
  \<^item> \<open>Urcu_Backend\<close> (\<open>UrcuBackend\<close> of \<open>bench_all.cpp\<close>): the back end that uses the userspace RCU
    library, which is an argument of the model; the locale \<open>rcu_library\<close> states its contract (a
    grace period is over only when every reader that was inside a critical section has left it)
    and is interpreted on an implementation that counts nested sections.
  \<^item> \<open>Bench_Report\<close> (\<open>bench_all.cpp\<close>, \<open>bench_common.hpp\<close> and the programs of \<open>bench1\<close>): results,
    their output as text, and the \<open>main\<close> functions.

  \<^bold>\<open>What is shown.\<close> For interleavings: no thread ever uses a version that is being freed, the
  callback runs exactly once for each version, nothing leaks once all threads are at rest, the
  object a reader sees does not change while it holds the version, compare-and-exchange with a
  held version is not fooled by reuse, the \<open>abort\<close> and the \<open>assert\<close> of the code are not
  reachable, no slot is handed out twice, and pages are returned to the system only when no slot
  of the arena is in use. The hypothesis is that at most \<open>2^32 - 1\<close> references to a version are
  held at once; without it the first of these fails, which is shown as well. For one call at a
  time: the functional behaviour of every function, its error branches included, and that a call
  made by the rules is a run of the interleaving model and returns without an error. Loops around a
  weak compare-and-swap are total functions of the number of spurious failures that are still
  to come, so their termination is part of the definitions.

  For the programs: the readers of the atomsnap examples and of the atomsnap back end never report
  inconsistent data, never see a counter go back where they check for it, and no thread touches a
  deleted object, for any number of threads; when they rest, the objects that are left are those
  published and those a writer has prepared; the counter published by the compare-exchange program
  is the number of operations it reports, so that no update is lost, and the atomsnap back end has
  freed as many objects as it has created. No inconsistent data and no access to deleted objects are
  shown for the programs with locks and with shared pointers too, and for the back end on any RCU
  library within its contract, whose \<open>stop\<close> leaves every block in the pool. The
  allocator of the \<open>shared_ptr\<close> programs never hands out a block twice, if at most 128
  threads use it; with one more it leaves its array. The command line parser reads back what it is
  given, keeps its numbers within \<open>int\<close> and names the first argument it does not know;
  the results agree with the samples taken and the operations counted, and the CSV output is a table
  whose columns fit its header; the calibration loop ends after at most 21 rounds, and the writers
  keep their rate.

  \<^bold>\<open>Not modelled.\<close> The interleaving models are sequentially consistent: the
  memory orders written in the code are not examined. The one for the versions takes a slot from the
  allocator in one step, which \<open>Seq_Refines\<close> shows for a call that runs alone. Messages
  that the library and the readers print before they abort are left out. The programs take the pool
  of the second benchmark as an allocator that hands out blocks that are not in use, which
  \<open>Tagged_Pool\<close> shows for one thread at a time and refutes for delayed ones; they do
  not test whether \<open>atomsnap_make_version\<close> fails, and that branch has no step in their
  models. In the \<open>main\<close> functions the operations counted by the threads are an input;
  the steps count them in the compare-exchange program and in the atomsnap back end, not in the
  others. A \<open>double\<close> is an exact rational number there. Clocks are inputs, and pinning
  to a CPU is left out.
\<close>

end
